(* ===== verification/Prelude.thy ===== *)
theory Prelude
  imports Main "HOL-Library.Word" "HOL-Library.Char_ord" "HOL-Library.List_Lexorder"
    "HOL-Library.AList"
begin

text \<open>
  What every component of the model shares: the machine types, Rust's byte strings and
  integers (big-endian bytes, decimal text, UTF-8), the pieces of the standard library the
  sources call (\<open>lines\<close>, \<open>trim\<close>, \<open>strip_prefix\<close>, \<open>u64::from_str\<close>), and the generic lemmas
  on them. A Rust \<open>String\<close> is the list of its UTF-8 bytes, written as a HOL \<open>string\<close>
  (a HOL \<open>char\<close> is exactly one byte).
\<close>

section \<open>Machine types\<close>

type_synonym byte = "8 word"
type_synonym bytes = "8 word list"
type_synonym u64 = "64 word"
type_synonym i64 = "64 word"  \<comment> \<open>two's complement, read with \<open>sint\<close>\<close>

named_theorems codec "injectivity and round-trip facts of the byte encodings"

section \<open>Strings and bytes\<close>

definition as_bytes :: "string \<Rightarrow> bytes" where
  "as_bytes s = map (\<lambda>c. word_of_nat (of_char c)) s"

definition from_bytes :: "bytes \<Rightarrow> string" where
  "from_bytes bs = map (\<lambda>b. char_of (unat b)) bs"

lemma unat_byte_of_char [simp]: "unat (word_of_nat (of_char c) :: byte) = of_char c"
proof -
  have "of_char c < (256 :: nat)" by simp
  then show ?thesis by (simp add: unat_of_nat)
qed

lemma from_as_bytes [simp, codec]: "from_bytes (as_bytes s) = s"
  by (simp add: as_bytes_def from_bytes_def comp_def)

lemma unat_byte_less [simp]: "unat (b :: byte) < 256"
proof -
  have "unat b < 2 ^ LENGTH(8)" by (rule unsigned_less)
  then show ?thesis by simp
qed

lemma as_from_bytes [simp, codec]: "as_bytes (from_bytes bs) = bs"
proof -
  show ?thesis
    by (simp add: as_bytes_def from_bytes_def comp_def of_char_of)
qed

lemma as_bytes_inject [simp, codec]: "as_bytes s = as_bytes t \<longleftrightarrow> s = t"
  by (metis from_as_bytes)

lemma as_bytes_simps [simp]:
  "as_bytes [] = []"
  "as_bytes (c # s) = word_of_nat (of_char c) # as_bytes s"
  "as_bytes (s @ t) = as_bytes s @ as_bytes t"
  by (simp_all add: as_bytes_def)

lemma length_as_bytes [simp]: "length (as_bytes s) = length s"
  by (simp add: as_bytes_def)

subsection \<open>Prefixes and suffixes: \<open>str::strip_prefix\<close>, \<open>str::strip_suffix\<close>\<close>

definition strip_prefix :: "string \<Rightarrow> string \<Rightarrow> string option" where
  "strip_prefix p s = (if take (length p) s = p then Some (drop (length p) s) else None)"

definition strip_suffix :: "string \<Rightarrow> string \<Rightarrow> string option" where
  "strip_suffix p s =
     (if length p \<le> length s \<and> drop (length s - length p) s = p
      then Some (take (length s - length p) s) else None)"

lemma strip_prefix_append [simp]: "strip_prefix p (p @ s) = Some s"
  by (simp add: strip_prefix_def)

lemma strip_suffix_append [simp]: "strip_suffix p (s @ p) = Some s"
  by (simp add: strip_suffix_def)

lemma strip_prefix_Some [dest]: "strip_prefix p s = Some r \<Longrightarrow> s = p @ r"
  by (auto simp: strip_prefix_def split: if_splits) (metis append_take_drop_id)

lemma strip_suffix_Some [dest]: "strip_suffix p s = Some r \<Longrightarrow> s = r @ p"
  by (auto simp: strip_suffix_def split: if_splits) (metis append_take_drop_id)

section \<open>Big-endian bytes: \<open>u64::to_be_bytes\<close>, \<open>i64::to_be_bytes\<close>\<close>

definition to_be_bytes :: "u64 \<Rightarrow> bytes" where
  "to_be_bytes w =
     [ucast (drop_bit 56 w), ucast (drop_bit 48 w), ucast (drop_bit 40 w), ucast (drop_bit 32 w),
      ucast (drop_bit 24 w), ucast (drop_bit 16 w), ucast (drop_bit 8 w), ucast w]"

lemma length_to_be_bytes [simp]: "length (to_be_bytes w) = 8"
  by (simp add: to_be_bytes_def)

lemma ucast_byte_eqD:
  fixes v w :: u64
  assumes "(ucast (drop_bit n v) :: byte) = ucast (drop_bit n w)" and "i < 8"
  shows "bit v (n + i) \<longleftrightarrow> bit w (n + i)"
proof -
  have "bit (ucast (drop_bit n v) :: byte) i = bit (ucast (drop_bit n w) :: byte) i"
    using assms(1) by simp
  then show ?thesis using assms(2) by (simp add: bit_ucast_iff bit_drop_bit_eq)
qed

lemma to_be_bytes_inject [simp, codec]: "to_be_bytes v = to_be_bytes w \<longleftrightarrow> v = w"
proof
  assume eq: "to_be_bytes v = to_be_bytes w"
  have each: "(ucast (drop_bit n v) :: byte) = ucast (drop_bit n w)"
    if "n \<in> {0, 8, 16, 24, 32, 40, 48, 56}" for n
    using eq that by (auto simp: to_be_bytes_def)
  show "v = w"
  proof (rule bit_word_eqI)
    fix k assume "k < LENGTH(64)"
    then have "k < 64" by simp
    then have "k div 8 < 8" by simp
    then have "k div 8 \<in> {0, 1, 2, 3, 4, 5, 6, 7}" by auto
    then have "8 * (k div 8) \<in> {0, 8, 16, 24, 32, 40, 48, 56}" by auto
    from ucast_byte_eqD [OF each [OF this], of "k mod 8"]
    show "bit v k \<longleftrightarrow> bit w k" by simp
  qed
qed simp

section \<open>UTF-8 text\<close>

text \<open>
  \<open>utf8_decode\<close> is \<open>str::from_utf8\<close> on the byte values: the well-formed sequences of the
  Unicode standard (no overlong form, no surrogate, nothing above U+10FFFF), as code points;
  \<open>None\<close> is the error \<open>BufRead::lines\<close> turns into \<open>io::ErrorKind::InvalidData\<close>.
\<close>

definition cont :: "nat \<Rightarrow> bool" where
  "cont c \<longleftrightarrow> 128 \<le> c \<and> c < 192"

fun utf8_decode :: "nat list \<Rightarrow> nat list option" where
  "utf8_decode [] = Some []"
| "utf8_decode (b # bs) =
     (if b < 128 then map_option ((#) b) (utf8_decode bs)
      else if 194 \<le> b \<and> b < 224 then
        (case bs of
           c # r \<Rightarrow> if cont c then map_option ((#) ((b - 192) * 64 + (c - 128))) (utf8_decode r)
                    else None
         | _ \<Rightarrow> None)
      else if 224 \<le> b \<and> b < 240 then
        (case bs of
           c # c' # r \<Rightarrow>
             if cont c \<and> cont c' \<and> (b = 224 \<longrightarrow> 160 \<le> c) \<and> (b = 237 \<longrightarrow> c < 160)
             then map_option ((#) (((b - 224) * 64 + (c - 128)) * 64 + (c' - 128))) (utf8_decode r)
             else None
         | _ \<Rightarrow> None)
      else if 240 \<le> b \<and> b < 245 then
        (case bs of
           c # c' # c'' # r \<Rightarrow>
             if cont c \<and> cont c' \<and> cont c'' \<and> (b = 240 \<longrightarrow> 144 \<le> c) \<and> (b = 244 \<longrightarrow> c < 144)
             then map_option
                    ((#) ((((b - 240) * 64 + (c - 128)) * 64 + (c' - 128)) * 64 + (c'' - 128)))
                    (utf8_decode r)
             else None
         | _ \<Rightarrow> None)
      else None)"

definition utf8_encode :: "nat \<Rightarrow> nat list" where
  "utf8_encode p =
     (if p < 128 then [p]
      else if p < 2048 then [192 + p div 64, 128 + p mod 64]
      else if p < 65536 then [224 + p div 4096, 128 + p div 64 mod 64, 128 + p mod 64]
      else [240 + p div 262144, 128 + p div 4096 mod 64, 128 + p div 64 mod 64, 128 + p mod 64])"

definition utf8_valid :: "bytes \<Rightarrow> bool" where
  "utf8_valid bs \<longleftrightarrow> utf8_decode (map unat bs) \<noteq> None"

lemma utf8_decode_ascii: "list_all (\<lambda>b. b < 128) bs \<Longrightarrow> utf8_decode bs = Some bs"
  by (induction bs) auto

lemma utf8_valid_ascii: "list_all (\<lambda>b. b < 128) bs \<Longrightarrow> utf8_valid bs"
  by (simp add: utf8_valid_def utf8_decode_ascii list_all_iff word_less_nat_alt)

subsection \<open>\<open>str::trim\<close>\<close>

text \<open>The code points with the Unicode property \<open>White_Space\<close>.\<close>

definition white_space :: "nat \<Rightarrow> bool" where
  "white_space p \<longleftrightarrow>
     9 \<le> p \<and> p \<le> 13 \<or> p = 32 \<or> p = 133 \<or> p = 160 \<or> p = 5760 \<or> 8192 \<le> p \<and> p \<le> 8202 \<or>
     p = 8232 \<or> p = 8233 \<or> p = 8239 \<or> p = 8287 \<or> p = 12288"

definition trim_points :: "nat list \<Rightarrow> nat list" where
  "trim_points ps = rev (dropWhile white_space (rev (dropWhile white_space ps)))"

definition trim :: "bytes \<Rightarrow> bytes" where
  "trim bs =
     (case utf8_decode (map unat bs) of
        None \<Rightarrow> bs
      | Some ps \<Rightarrow> map word_of_nat (concat (map utf8_encode (trim_points ps))))"

definition trim_str :: "string \<Rightarrow> string" where
  "trim_str s = from_bytes (trim (as_bytes s))"

lemma trim_points_id:
  assumes "ps \<noteq> []" and "\<not> white_space (hd ps)" and "\<not> white_space (last ps)"
  shows "trim_points ps = ps"
proof -
  have "dropWhile white_space ps = ps" using assms by (cases ps) auto
  moreover have "dropWhile white_space (rev ps) = rev ps"
    using assms by (cases ps rule: rev_cases) auto
  ultimately show ?thesis by (simp add: trim_points_def)
qed

lemma map_encode_ascii: "list_all (\<lambda>b. b < 128) ps \<Longrightarrow> concat (map utf8_encode ps) = ps"
  by (induction ps) (auto simp: utf8_encode_def)

lemma trim_ascii_id:
  assumes "list_all (\<lambda>b. b < 128) bs" and "bs \<noteq> []"
    and "\<not> white_space (unat (hd bs))" and "\<not> white_space (unat (last bs))"
  shows "trim bs = bs"
proof -
  have ascii: "list_all (\<lambda>b. b < 128) (map unat bs)"
    using assms(1) by (simp add: list_all_iff word_less_nat_alt)
  have "trim_points (map unat bs) = map unat bs"
    using assms by (intro trim_points_id) (simp_all add: hd_map last_map)
  then have "trim bs = map word_of_nat (map unat bs)"
    by (simp only: trim_def utf8_decode_ascii [OF ascii] map_encode_ascii [OF ascii] option.case)
  then show ?thesis by (simp add: comp_def)
qed

subsection \<open>\<open>BufRead::lines\<close>\<close>

text \<open>
  \<open>raw_lines\<close> cuts a file at its newline bytes, each line with its newline; \<open>chomp\<close> is what
  \<open>lines\<close> removes at the end of a line, a newline and a carriage return before it.
\<close>

fun raw_lines :: "bytes \<Rightarrow> bytes list" where
  "raw_lines [] = []"
| "raw_lines (b # bs) =
     (if b = 10 then [b] # raw_lines bs
      else (case raw_lines bs of [] \<Rightarrow> [[b]] | l # ls \<Rightarrow> (b # l) # ls))"

definition chomp :: "bytes \<Rightarrow> bytes" where
  "chomp l =
     (if l \<noteq> [] \<and> last l = 10
      then (let l' = butlast l in if l' \<noteq> [] \<and> last l' = 13 then butlast l' else l')
      else l)"

lemma raw_lines_line:
  "10 \<notin> set l \<Longrightarrow> raw_lines (l @ 10 # rest) = (l @ [10]) # raw_lines rest"
  by (induction l) auto

lemma concat_raw_lines: "concat (raw_lines bs) = bs"
  by (induction bs) (auto split: list.splits)

lemma chomp_line: "l \<noteq> [] \<Longrightarrow> last l \<noteq> 13 \<Longrightarrow> chomp (l @ [10]) = l"
  by (simp add: chomp_def)

lemma chomp_unterminated: "10 \<notin> set l \<Longrightarrow> chomp l = l"
  by (auto simp: chomp_def dest: last_in_set)

section \<open>Decimal text: \<open>{}\<close>, \<open>{:020}\<close> and \<open>str::parse::<u64>\<close>\<close>

fun digits :: "nat \<Rightarrow> nat list" where
  "digits n = (if n < 10 then [n] else digits (n div 10) @ [n mod 10])"

declare digits.simps [simp del]

definition digits_val :: "nat list \<Rightarrow> nat" where
  "digits_val ds = foldl (\<lambda>a d. a * 10 + d) 0 ds"

definition digit_char :: "nat \<Rightarrow> char" where
  "digit_char d = char_of (48 + d)"

definition char_digit :: "char \<Rightarrow> nat" where
  "char_digit c = of_char c - 48"

definition is_digit :: "char \<Rightarrow> bool" where
  "is_digit c \<longleftrightarrow> 48 \<le> (of_char c :: nat) \<and> (of_char c :: nat) \<le> 57"

definition show_nat :: "nat \<Rightarrow> string" where
  "show_nat n = map digit_char (digits n)"

definition show_u64 :: "u64 \<Rightarrow> string" where
  "show_u64 w = show_nat (unat w)"

definition show_u64_020 :: "u64 \<Rightarrow> string" where
  "show_u64_020 w =
     (let s = show_u64 w in replicate (20 - length s) (CHR ''0'') @ s)"

text \<open>
  \<open>u64::from_str\<close>: an optional plus sign, then at least one digit and digits only, and no
  overflow.
\<close>

definition parse_u64 :: "string \<Rightarrow> u64 option" where
  "parse_u64 s =
     (let ds = (case s of [] \<Rightarrow> [] | c # r \<Rightarrow> if c = CHR ''+'' then r else s)
      in if ds = [] \<or> \<not> list_all is_digit ds then None
         else let n = digits_val (map char_digit ds) in
              if n < 2 ^ 64 then Some (word_of_nat n) else None)"

lemma digits_nonempty [simp]: "digits n \<noteq> []"
  by (subst digits.simps) simp

lemma digits_bound: "d \<in> set (digits n) \<Longrightarrow> d < 10"
proof (induction n rule: digits.induct)
  case (1 n)
  then show ?case by (subst (asm) (2) digits.simps) (auto split: if_splits)
qed

lemma digits_val_snoc: "digits_val (ds @ [d]) = digits_val ds * 10 + d"
  by (simp add: digits_val_def)

lemma digits_val_digits [simp, codec]: "digits_val (digits n) = n"
proof (induction n rule: digits.induct)
  case (1 n)
  then show ?case
    by (subst digits.simps) (simp add: digits_val_snoc, simp add: digits_val_def)
qed

lemma digits_val_zeros: "digits_val (replicate k 0 @ ds) = digits_val ds"
  by (induction k) (simp_all add: digits_val_def)

lemma length_digits: "n < 10 ^ Suc k \<Longrightarrow> length (digits n) \<le> Suc k"
proof (induction k arbitrary: n)
  case 0
  then show ?case by (subst digits.simps) simp
next
  case (Suc k)
  then have "length (digits (n div 10)) \<le> Suc k"
    by (intro Suc.IH) (simp add: div_less_iff_less_mult algebra_simps)
  then show ?case by (subst digits.simps) simp
qed

lemma digits_val_Cons: "digits_val (d # ds) = d * 10 ^ length ds + digits_val ds"
  by (induction ds rule: rev_induct)
    (simp_all add: digits_val_snoc algebra_simps flip: append_Cons, simp_all add: digits_val_def)

lemma digits_val_bound: "\<forall>d \<in> set ds. d < 10 \<Longrightarrow> digits_val ds < 10 ^ length ds"
proof (induction ds rule: rev_induct)
  case Nil
  then show ?case by (simp add: digits_val_def)
next
  case (snoc d ds)
  then have "digits_val ds < 10 ^ length ds" and "d < 10" by simp_all
  then show ?case by (simp add: digits_val_snoc)
qed

lemma positional_less:
  fixes a b d e k :: nat
  assumes "a < k" and "b < k"
  shows "d * k + a < e * k + b \<longleftrightarrow> d < e \<or> d = e \<and> a < b"
proof (cases d e rule: linorder_cases)
  case less
  then have "Suc d * k \<le> e * k" by (intro mult_le_mono1) simp
  with less assms show ?thesis by simp
next
  case equal
  then show ?thesis by simp
next
  case greater
  then have "Suc e * k \<le> d * k" by (intro mult_le_mono1) simp
  with greater assms show ?thesis by simp
qed

text \<open>Digit lists of one length compare lexicographically as their values do.\<close>

lemma digits_val_less:
  "length ds = length es \<Longrightarrow> \<forall>d \<in> set ds. d < 10 \<Longrightarrow> \<forall>d \<in> set es. d < 10 \<Longrightarrow>
   ds < es \<longleftrightarrow> digits_val ds < digits_val es"
proof (induction ds es rule: list_induct2)
  case Nil
  then show ?case by simp
next
  case (Cons d ds e es)
  have "digits_val ds < 10 ^ length es" and "digits_val es < 10 ^ length es"
    using digits_val_bound [of ds] digits_val_bound [of es] Cons.hyps Cons.prems by simp_all
  then show ?case
    using Cons by (simp add: digits_val_Cons positional_less)
qed

lemma of_char_digit_char: "d < 10 \<Longrightarrow> of_char (digit_char d) = (48 + d :: nat)"
  by (simp add: digit_char_def)

lemma char_digit_digit_char [simp, codec]: "d < 10 \<Longrightarrow> char_digit (digit_char d) = d"
  by (simp add: char_digit_def of_char_digit_char)

lemma is_digit_digit_char [simp]: "d < 10 \<Longrightarrow> is_digit (digit_char d)"
  by (simp add: is_digit_def of_char_digit_char)

lemma digit_char_zero: "digit_char 0 = CHR ''0''"
  by (simp add: digit_char_def char_of_def bit_0)

lemma digit_char_less: "d < 10 \<Longrightarrow> e < 10 \<Longrightarrow> digit_char d < digit_char e \<longleftrightarrow> d < e"
  by (simp add: less_char_def of_char_digit_char)

lemma digit_char_eq: "d < 10 \<Longrightarrow> e < 10 \<Longrightarrow> digit_char d = digit_char e \<longleftrightarrow> d = e"
  by (metis char_digit_digit_char)

lemma map_digit_char_less:
  "length ds = length es \<Longrightarrow> \<forall>d \<in> set ds. d < 10 \<Longrightarrow> \<forall>d \<in> set es. d < 10 \<Longrightarrow>
   map digit_char ds < map digit_char es \<longleftrightarrow> ds < es"
  by (induction ds es rule: list_induct2) (auto simp: digit_char_less digit_char_eq)

definition digits_020 :: "u64 \<Rightarrow> nat list" where
  "digits_020 w = (let ds = digits (unat w) in replicate (20 - length ds) 0 @ ds)"

lemma show_u64_020_digits: "show_u64_020 w = map digit_char (digits_020 w)"
  by (simp add: show_u64_020_def show_u64_def show_nat_def digits_020_def Let_def digit_char_zero)

lemma digits_020_bound: "d \<in> set (digits_020 w) \<Longrightarrow> d < 10"
  by (auto simp: digits_020_def Let_def dest: digits_bound)

lemma digits_020_val [simp]: "digits_val (digits_020 w) = unat w"
  by (simp add: digits_020_def Let_def digits_val_zeros)

lemma unat_u64_less: "unat (w :: u64) < 18446744073709551616"
proof -
  have "unat w < 2 ^ LENGTH(64)" by (rule unsigned_less)
  then show ?thesis by simp
qed

lemma length_digits_020 [simp]: "length (digits_020 w) = 20"
proof -
  have "length (digits (unat w)) \<le> Suc 19"
    by (rule length_digits) (use unat_u64_less [of w] in simp)
  then show ?thesis by (simp add: digits_020_def Let_def)
qed

lemma length_show_u64_020 [simp]: "length (show_u64_020 w) = 20"
  by (simp add: show_u64_020_digits)

lemma show_u64_020_less: "show_u64_020 v < show_u64_020 w \<longleftrightarrow> v < w"
  by (simp add: show_u64_020_digits map_digit_char_less digits_020_bound digits_val_less
      word_less_nat_alt)

lemma parse_u64_digits:
  assumes "ds \<noteq> []" and "\<forall>d \<in> set ds. d < 10" and "digits_val ds < 2 ^ 64"
  shows "parse_u64 (map digit_char ds) = Some (word_of_nat (digits_val ds))"
proof -
  obtain d ds' where ds: "ds = d # ds'" using assms(1) by (cases ds) auto
  then have "digit_char d \<noteq> CHR ''+''"
    using is_digit_digit_char [of d] assms(2) by (auto simp: is_digit_def)
  moreover have "map char_digit (map digit_char ds) = ds"
    using assms(2) by (simp add: map_idI)
  ultimately show ?thesis
    using assms ds by (auto simp: parse_u64_def list_all_iff)
qed

lemma parse_show_u64_020 [simp, codec]: "parse_u64 (show_u64_020 w) = Some w"
proof -
  have "digits_020 w \<noteq> []" using length_digits_020 [of w] by force
  then show ?thesis
    using parse_u64_digits [of "digits_020 w"] digits_020_bound unat_u64_less [of w]
    by (simp add: show_u64_020_digits)
qed

lemma parse_show_u64 [simp, codec]: "parse_u64 (show_u64 w) = Some w"
  using parse_u64_digits [of "digits (unat w)"] digits_bound unat_u64_less [of w]
  by (simp add: show_u64_def show_nat_def)

text \<open>A \<open>usize\<close> or \<open>u128\<close> that fits in 64 bits.\<close>

lemma unat_small [simp]: "n < 2 ^ 64 \<Longrightarrow> unat (word_of_nat n :: u64) = n"
  by (simp add: unat_of_nat)

end
