(* ===== verification/Errors.thy ===== *)
theory Errors
  imports Prelude
begin

text \<open>
  The error type of the core crate (\<open>crates/core/src/error.rs\<close>). A fallible function of the
  sources returns a value of \<open>error + 'a\<close>: \<open>Inl\<close> is \<open>Err\<close>, \<open>Inr\<close> is \<open>Ok\<close>. Where a variant
  wraps an error of another crate, or a message interpolates one (\<open>format!("...: {e}")\<close>) or a
  debug-printed value (\<open>{key_id:?}\<close>), that inner text is left out; the variant and the code's
  own words are kept.
\<close>

datatype io_error = NotFound | InvalidUtf8 | OsError

datatype error =
    Io io_error
  | Serde
  | Crypto string
  | Key string
  | Base64
  | Integrity u64 string
  | WriterGone string
  | Config string

type_synonym 'a result = "error + 'a"

text \<open>The \<open>Display\<close> that \<open>thiserror\<close> derives from the \<open>#[error(...)]\<close> attributes.\<close>

fun error_to_string :: "error \<Rightarrow> string" where
  "error_to_string (Io e) = ''i/o error: ''"
| "error_to_string Serde = ''serialization error: ''"
| "error_to_string (Crypto m) = ''crypto error: '' @ m"
| "error_to_string (Key m) = ''key provider error: '' @ m"
| "error_to_string Base64 = ''base64 decode error: ''"
| "error_to_string (Integrity s r) =
     ''chain integrity violation at seq '' @ show_u64 s @ '': '' @ r"
| "error_to_string (WriterGone m) = ''audit log writer is not available: '' @ m"
| "error_to_string (Config m) = ''invalid configuration: '' @ m"

text \<open>\<open>Result::ok\<close>, and \<open>Option::ok_or\<close>.\<close>

definition result_ok :: "'a result \<Rightarrow> 'a option" where
  "result_ok r = (case r of Inl _ \<Rightarrow> None | Inr x \<Rightarrow> Some x)"

definition ok_or :: "error \<Rightarrow> 'a option \<Rightarrow> 'a result" where
  "ok_or e x = (case x of None \<Rightarrow> Inl e | Some y \<Rightarrow> Inr y)"

lemma result_ok_simps [simp]: "result_ok (Inl e) = None" "result_ok (Inr x) = Some x"
  by (simp_all add: result_ok_def)

lemma ok_or_simps [simp]: "ok_or e None = Inl e" "ok_or e (Some x) = Inr x"
  by (simp_all add: ok_or_def)

lemma ok_or_Inr [simp]: "ok_or e x = Inr y \<longleftrightarrow> x = Some y"
  by (simp add: ok_or_def split: option.splits)

text \<open>\<open>last\<close> of a slice as an \<open>Option\<close>.\<close>

definition last_opt :: "'a list \<Rightarrow> 'a option" where
  "last_opt xs = (if xs = [] then None else Some (last xs))"

lemma last_opt_simps [simp]:
  "last_opt [] = None" "last_opt (xs @ [x]) = Some x" "last_opt [x] = Some x"
  by (simp_all add: last_opt_def)

lemma last_opt_append [simp]: "ys \<noteq> [] \<Longrightarrow> last_opt (xs @ ys) = last_opt ys"
  by (simp add: last_opt_def)

lemma last_opt_None [simp]: "last_opt xs = None \<longleftrightarrow> xs = []"
  by (simp add: last_opt_def)

text \<open>
  A call that may panic. Only the decryption of a PII bundle needs it: a panic there is not an
  \<open>Err\<close> that the caller can handle.
\<close>

datatype 'a exec = Ret 'a | Panic

end
