(* ===== verification/Crates.thy ===== *)
theory Crates
  imports Errors
begin

text \<open>
  The third-party code that the sources call and that is not in the repository: the crates
  \<open>blake3\<close>, \<open>base64\<close>, \<open>chacha20poly1305\<close>, \<open>ed25519-dalek\<close> and \<open>serde_json\<close>. They are one
  parameter of the model, a record of functions that every definition using them takes. What
  the code relies on is stated by the predicates below, each a documented promise of the crate;
  a theorem that needs one names it.
\<close>

section \<open>JSON values\<close>

text \<open>
  \<open>serde_json::Value\<close>, and the data that a derived \<open>Serialize\<close> hands to the serializer: the
  members of an object are a list in writing order. A number is an unsigned or a (negative)
  signed 64-bit integer or a float, given by its bits.
\<close>

datatype num = PosInt u64 | NegInt i64 | Float u64

datatype json =
    JNull
  | JBool bool
  | JNum num
  | JStr string
  | JArr "json list"
  | JObj "(string \<times> json) list"

text \<open>
  A \<open>Value\<close> object is a \<open>BTreeMap\<close>: keys sorted, the last of two equal keys wins. \<open>value_of\<close> is
  what reading JSON text into a \<open>Value\<close> does to every object in it.
\<close>

fun map_insert :: "string \<Rightarrow> 'v \<Rightarrow> (string \<times> 'v) list \<Rightarrow> (string \<times> 'v) list" where
  "map_insert k v [] = [(k, v)]"
| "map_insert k v ((k', v') # kvs) =
     (if k < k' then (k, v) # (k', v') # kvs
      else if k = k' then (k, v) # kvs
      else (k', v') # map_insert k v kvs)"

definition to_map :: "(string \<times> 'v) list \<Rightarrow> (string \<times> 'v) list" where
  "to_map kvs = fold (\<lambda>(k, v). map_insert k v) kvs []"

primrec value_of :: "json \<Rightarrow> json" where
  "value_of JNull = JNull"
| "value_of (JBool b) = JBool b"
| "value_of (JNum n) = JNum n"
| "value_of (JStr s) = JStr s"
| "value_of (JArr vs) = JArr (map value_of vs)"
| "value_of (JObj kvs) = JObj (to_map (map (map_prod id value_of) kvs))"

text \<open>A JSON tree that is a \<open>Value\<close>: reading it back changes nothing.\<close>

definition is_value :: "json \<Rightarrow> bool" where
  "is_value v \<longleftrightarrow> value_of v = v"

lemma map_of_map_insert [simp]: "map_of (map_insert k v kvs) = (map_of kvs)(k \<mapsto> v)"
  by (induction k v kvs rule: map_insert.induct) auto

lemma map_of_to_map [simp]: "map_of (to_map kvs) = map_of (rev kvs)"
proof -
  have "map_of (fold (\<lambda>(k, v). map_insert k v) kvs acc) = map_of acc ++ map_of (rev kvs)" for acc
    by (induction kvs arbitrary: acc) (auto simp: map_add_def fun_eq_iff split: option.splits)
  from this [of "[]"] show ?thesis by (simp add: to_map_def)
qed

text \<open>An object that is a \<open>Value\<close> has its keys in order, and reading it back changes nothing.\<close>

lemma keys_map_insert: "set (map fst (map_insert k v kvs)) = insert k (set (map fst kvs))"
  by (induction k v kvs rule: map_insert.induct) auto

lemma sorted_map_insert:
  "sorted_wrt (<) (map fst kvs) \<Longrightarrow> sorted_wrt (<) (map fst (map_insert k v kvs))"
proof (induction k v kvs rule: map_insert.induct)
  case (2 k v k' v' kvs)
  then show ?case using keys_map_insert [of k v kvs] by (auto simp del: set_map)
qed simp

lemma sorted_to_map: "sorted_wrt (<) (map fst (to_map kvs))"
proof -
  have "sorted_wrt (<) (map fst acc) \<Longrightarrow>
      sorted_wrt (<) (map fst (fold (\<lambda>(k, v). map_insert k v) kvs acc))" for acc
    by (induction kvs arbitrary: acc) (auto simp: sorted_map_insert)
  then show ?thesis by (simp add: to_map_def)
qed

lemma map_insert_last:
  "\<forall>k' \<in> set (map fst kvs). k' < k \<Longrightarrow> map_insert k v kvs = kvs @ [(k, v)]"
  by (induction kvs) auto

lemma to_map_sorted: "sorted_wrt (<) (map fst kvs) \<Longrightarrow> to_map kvs = kvs"
proof -
  have "sorted_wrt (<) (map fst (acc @ kvs)) \<Longrightarrow>
      fold (\<lambda>(k, v). map_insert k v) kvs acc = acc @ kvs" for acc
  proof (induction kvs arbitrary: acc)
    case (Cons p kvs)
    obtain k v where p: "p = (k, v)" by (cases p)
    with Cons.prems have "map_insert k v acc = acc @ [p]"
      by (auto simp: sorted_wrt_append intro!: map_insert_last)
    with Cons p show ?case by simp
  qed simp
  then show "sorted_wrt (<) (map fst kvs) \<Longrightarrow> to_map kvs = kvs" by (simp add: to_map_def)
qed

lemma map_map_insert:
  "map (map_prod id f) (map_insert k v kvs) = map_insert k (f v) (map (map_prod id f) kvs)"
  by (induction k v kvs rule: map_insert.induct) auto

lemma map_to_map: "map (map_prod id f) (to_map kvs) = to_map (map (map_prod id f) kvs)"
proof -
  have "map (map_prod id f) (fold (\<lambda>(k, v). map_insert k v) kvs acc) =
      fold (\<lambda>(k, v). map_insert k v) (map (map_prod id f) kvs) (map (map_prod id f) acc)" for acc
    by (induction kvs arbitrary: acc) (auto simp: map_map_insert)
  then show ?thesis by (simp add: to_map_def)
qed

lemma value_of_idem [simp]: "value_of (value_of j) = value_of j"
proof (induction j)
  case (JObj kvs)
  have "map (map_prod id value_of) (map (map_prod id value_of) kvs) = map (map_prod id value_of) kvs"
    using JObj by (force simp: map_eq_conv)
  then show ?case
    by (simp add: map_to_map to_map_sorted sorted_to_map del: map_map)
qed simp_all

text \<open>
  Derived \<open>Deserialize\<close> of a struct: from an object, by name, with unknown members ignored and a
  repeated field an error; from an array, by position.
\<close>

definition struct_fields :: "string list \<Rightarrow> json \<Rightarrow> (string \<Rightarrow> json option) option" where
  "struct_fields names j =
     (case j of
        JObj kvs \<Rightarrow>
          if distinct (filter (\<lambda>k. k \<in> set names) (map fst kvs)) then Some (map_of kvs) else None
      | JArr vs \<Rightarrow>
          if length vs \<le> length names then Some (map_of (zip names vs)) else None
      | _ \<Rightarrow> None)"

definition json_u64 :: "u64 \<Rightarrow> json" where
  "json_u64 w = JNum (PosInt w)"

definition json_i64 :: "i64 \<Rightarrow> json" where
  "json_i64 w = (if 0 \<le> sint w then JNum (PosInt w) else JNum (NegInt w))"

fun u64_of_json :: "json \<Rightarrow> u64 option" where
  "u64_of_json (JNum (PosInt w)) = Some w"
| "u64_of_json _ = None"

fun i64_of_json :: "json \<Rightarrow> i64 option" where
  "i64_of_json (JNum (PosInt w)) = (if unat w < 2 ^ 63 then Some w else None)"
| "i64_of_json (JNum (NegInt w)) = Some w"
| "i64_of_json _ = None"

fun string_of_json :: "json \<Rightarrow> string option" where
  "string_of_json (JStr s) = Some s"
| "string_of_json _ = None"

fun bool_of_json :: "json \<Rightarrow> bool option" where
  "bool_of_json (JBool b) = Some b"
| "bool_of_json _ = None"

text \<open>An \<open>Option\<close> field: \<open>null\<close> or (with \<open>serde(default)\<close>) absent is \<open>None\<close>.\<close>

definition opt_of_json :: "(json \<Rightarrow> 'a option) \<Rightarrow> json option \<Rightarrow> 'a option option" where
  "opt_of_json f x =
     (case x of None \<Rightarrow> Some None | Some JNull \<Rightarrow> Some None | Some j \<Rightarrow> map_option Some (f j))"

lemma sint_nonneg_unat:
  fixes w :: i64
  shows "0 \<le> sint w \<longleftrightarrow> unat w < 2 ^ 63"
proof -
  have "unat w div 2 ^ 63 < 2"
    using unat_u64_less [of w] by (simp add: div_less_iff_less_mult)
  then have *: "odd (unat w div 2 ^ 63) \<longleftrightarrow> unat w div 2 ^ 63 \<noteq> 0"
    by (cases "unat w div 2 ^ 63 = 0") (auto simp: less_2_cases_iff)
  have "bit w 63 \<longleftrightarrow> bit (unat w) 63" by (simp add: bit_unsigned_iff)
  also have "\<dots> \<longleftrightarrow> unat w div 2 ^ 63 \<noteq> 0" using * by (simp only: bit_iff_odd)
  also have "\<dots> \<longleftrightarrow> \<not> unat w < 2 ^ 63" by (simp add: div_eq_0_iff)
  finally show ?thesis by (simp add: sint_uint signed_take_bit_nonnegative_iff bit_uint_iff)
qed

lemma json_ints [simp, codec]:
  "u64_of_json (json_u64 w) = Some w"
  "i64_of_json (json_i64 t) = Some t"
  by (simp_all add: json_u64_def json_i64_def sint_nonneg_unat)

section \<open>The crates\<close>

record crates =
  b3_hash :: "bytes \<Rightarrow> bytes"            \<comment> \<open>\<open>blake3::hash\<close>, \<open>Hasher::update/finalize\<close>\<close>
  b3_to_hex :: "bytes \<Rightarrow> string"         \<comment> \<open>\<open>blake3::Hash::to_hex\<close>\<close>
  b3_from_hex :: "string \<Rightarrow> bytes option" \<comment> \<open>\<open>blake3::Hash::from_hex\<close>\<close>
  b64_encode :: "bytes \<Rightarrow> string"        \<comment> \<open>\<open>STANDARD.encode\<close>\<close>
  b64_decode :: "string \<Rightarrow> bytes option"  \<comment> \<open>\<open>STANDARD.decode\<close>\<close>
  xc_encrypt :: "bytes \<Rightarrow> bytes \<Rightarrow> bytes \<Rightarrow> bytes option" \<comment> \<open>XChaCha20-Poly1305: key, nonce, text\<close>
  xc_decrypt :: "bytes \<Rightarrow> bytes \<Rightarrow> bytes \<Rightarrow> bytes option"
  ed_public :: "bytes \<Rightarrow> bytes"          \<comment> \<open>Ed25519: the public key of a seed\<close>
  ed_key_ok :: "bytes \<Rightarrow> bool"           \<comment> \<open>\<open>VerifyingKey::from_bytes\<close> accepts\<close>
  ed_sign :: "bytes \<Rightarrow> bytes \<Rightarrow> bytes"    \<comment> \<open>seed, message\<close>
  ed_verify :: "bytes \<Rightarrow> bytes \<Rightarrow> bytes \<Rightarrow> bool" \<comment> \<open>public key, message, signature\<close>
  sj_to_vec :: "json \<Rightarrow> bytes"           \<comment> \<open>\<open>serde_json::to_vec\<close>: compact text\<close>
  sj_from_slice :: "bytes \<Rightarrow> json option" \<comment> \<open>\<open>serde_json::from_slice/from_str\<close>: the syntax tree\<close>

definition blake3_ok :: "crates \<Rightarrow> bool" where
  "blake3_ok d \<longleftrightarrow> (\<forall>x. length (b3_hash d x) = 32)"

text \<open>Hex and base64 text is made of printable ASCII characters, with no white space.\<close>

definition graph_char :: "char \<Rightarrow> bool" where
  "graph_char c \<longleftrightarrow> 33 \<le> (of_char c :: nat) \<and> (of_char c :: nat) \<le> 126"

definition hex_ok :: "crates \<Rightarrow> bool" where
  "hex_ok d \<longleftrightarrow>
     (\<forall>h. length h = 32 \<longrightarrow> b3_from_hex d (b3_to_hex d h) = Some h \<and> length (b3_to_hex d h) = 64) \<and>
     (\<forall>s h. b3_from_hex d s = Some h \<longrightarrow> length h = 32) \<and>
     (\<forall>h. list_all graph_char (b3_to_hex d h))"

definition base64_ok :: "crates \<Rightarrow> bool" where
  "base64_ok d \<longleftrightarrow>
     (\<forall>bs. b64_decode d (b64_encode d bs) = Some bs) \<and>
     (\<forall>bs. list_all graph_char (b64_encode d bs))"

definition aead_ok :: "crates \<Rightarrow> bool" where
  "aead_ok d \<longleftrightarrow> (\<forall>k n m c. xc_encrypt d k n m = Some c \<longrightarrow> xc_decrypt d k n c = Some m)"

definition ed25519_ok :: "crates \<Rightarrow> bool" where
  "ed25519_ok d \<longleftrightarrow>
     (\<forall>s m. length s = 32 \<longrightarrow>
        length (ed_public d s) = 32 \<and> ed_key_ok d (ed_public d s) \<and>
        length (ed_sign d s m) = 64 \<and> ed_verify d (ed_public d s) m (ed_sign d s m))"

text \<open>
  \<open>serde_json\<close> gives back a tree that it wrote, if every string in the tree is UTF-8 (as a Rust
  string is), no number is a float (reading a float back exactly needs the feature
  \<open>float_roundtrip\<close>, which the sources do not enable), a signed number is negative (\<open>Number\<close>'s
  own invariant), and the tree is nested at most 127 deep: the parser's recursion limit is 128
  and it refuses the 128th level.
\<close>

definition utf8_string :: "string \<Rightarrow> bool" where
  "utf8_string s \<longleftrightarrow> utf8_valid (as_bytes s)"

fun plain_num :: "num \<Rightarrow> bool" where
  "plain_num (PosInt w) \<longleftrightarrow> True"
| "plain_num (NegInt w) \<longleftrightarrow> sint w < 0"
| "plain_num (Float w) \<longleftrightarrow> False"

primrec plain_json :: "json \<Rightarrow> bool" where
  "plain_json JNull \<longleftrightarrow> True"
| "plain_json (JBool b) \<longleftrightarrow> True"
| "plain_json (JNum n) \<longleftrightarrow> plain_num n"
| "plain_json (JStr s) \<longleftrightarrow> utf8_string s"
| "plain_json (JArr vs) \<longleftrightarrow> list_all id (map plain_json vs)"
| "plain_json (JObj kvs) \<longleftrightarrow>
     list_all (\<lambda>(k, p). utf8_string k \<and> p) (map (map_prod id plain_json) kvs)"

primrec json_depth :: "json \<Rightarrow> nat" where
  "json_depth JNull = 0"
| "json_depth (JBool b) = 0"
| "json_depth (JNum n) = 0"
| "json_depth (JStr s) = 0"
| "json_depth (JArr vs) = Suc (fold max (map json_depth vs) 0)"
| "json_depth (JObj kvs) = Suc (fold max (map snd (map (map_prod id json_depth) kvs)) 0)"

definition json_ok :: "crates \<Rightarrow> json \<Rightarrow> bool" where
  "json_ok d j \<longleftrightarrow> sj_from_slice d (sj_to_vec d j) = Some j"

text \<open>
  Compact text of an object: valid UTF-8 with no raw newline, from an opening to a closing brace.
\<close>

definition text_ok :: "bytes \<Rightarrow> bool" where
  "text_ok bs \<longleftrightarrow>
     bs \<noteq> [] \<and> hd bs = 123 \<and> last bs = 125 \<and> 10 \<notin> set bs \<and> utf8_valid (bs @ [10])"

definition serde_ok :: "crates \<Rightarrow> bool" where
  "serde_ok d \<longleftrightarrow>
     (\<forall>j. plain_json j \<and> json_depth j \<le> 127 \<longrightarrow> json_ok d j) \<and>
     (\<forall>kvs. plain_json (JObj kvs) \<longrightarrow> text_ok (sj_to_vec d (JObj kvs)))"

text \<open>The other side of the recursion limit: deeper text is an error.\<close>

definition serde_limit :: "crates \<Rightarrow> bool" where
  "serde_limit d \<longleftrightarrow> (\<forall>j. 127 < json_depth j \<longrightarrow> sj_from_slice d (sj_to_vec d j) = None)"

lemma blake3_length [simp]: "blake3_ok d \<Longrightarrow> length (b3_hash d x) = 32"
  by (simp add: blake3_ok_def)

lemma hex_decode: "hex_ok d \<Longrightarrow> length h = 32 \<Longrightarrow> b3_from_hex d (b3_to_hex d h) = Some h"
  by (simp add: hex_ok_def)

lemma hex_length: "hex_ok d \<Longrightarrow> b3_from_hex d s = Some h \<Longrightarrow> length h = 32"
  by (simp add: hex_ok_def)

lemma hex_inject:
  "hex_ok d \<Longrightarrow> length h = 32 \<Longrightarrow> length h' = 32 \<Longrightarrow>
   b3_to_hex d h = b3_to_hex d h' \<longleftrightarrow> h = h'"
  by (metis hex_decode option.inject)

lemma base64_decode_encode: "base64_ok d \<Longrightarrow> b64_decode d (b64_encode d bs) = Some bs"
  by (simp add: base64_ok_def)

lemma graph_trim_str:
  assumes "list_all graph_char s"
  shows "trim_str s = s" and "utf8_valid (as_bytes s)"
proof -
  have ascii: "list_all (\<lambda>b. b < 128) (as_bytes s)"
    using assms by (auto simp: as_bytes_def list_all_iff graph_char_def word_less_nat_alt)
  then show "utf8_valid (as_bytes s)" by (rule utf8_valid_ascii)
  have graph: "\<not> white_space (of_char c)" if "graph_char c" for c
    using that by (auto simp: graph_char_def white_space_def)
  show "trim_str s = s"
  proof (cases "s = []")
    case True
    then show ?thesis by (simp add: trim_str_def trim_def trim_points_def from_bytes_def)
  next
    case False
    then have "trim (as_bytes s) = as_bytes s"
      using assms ascii
      by (intro trim_ascii_id)
        (auto simp: as_bytes_def hd_map last_map list_all_iff intro!: graph)
    then show ?thesis by (simp add: trim_str_def)
  qed
qed

lemma hex_utf8: "hex_ok d \<Longrightarrow> utf8_string (b3_to_hex d h)"
  by (simp add: hex_ok_def graph_trim_str utf8_string_def)

lemma base64_trim: "base64_ok d \<Longrightarrow> trim_str (b64_encode d bs) = b64_encode d bs"
  by (simp add: base64_ok_def graph_trim_str)

lemma base64_utf8_string: "base64_ok d \<Longrightarrow> utf8_string (b64_encode d bs)"
  by (simp add: base64_ok_def graph_trim_str utf8_string_def)

lemma base64_utf8: "base64_ok d \<Longrightarrow> utf8_valid (as_bytes (b64_encode d bs))"
  by (simp add: base64_ok_def graph_trim_str)

lemma aead_decrypt: "aead_ok d \<Longrightarrow> xc_encrypt d k n m = Some c \<Longrightarrow> xc_decrypt d k n c = Some m"
  by (simp add: aead_ok_def)

section \<open>The environment of a call\<close>

text \<open>
  What the operating system decides while a call runs: the outcomes of the successive
  \<open>getrandom\<close> calls (\<open>None\<close> is a failure; past the end of the list they fail), the clock, the
  fault of the store's next write (none; the segment file cannot be opened; \<open>write_all\<close> fails
  after \<open>n\<close> bytes have reached the file; all bytes are written but \<open>sync_all\<close> fails) and the
  fault of the keyring's next write of a key file.
\<close>

datatype fault = NoFault | OpenFault | WriteFault nat | SyncFault

record env =
  env_rng :: "bytes option list"
  env_clock :: "nat option"
  env_fault :: fault
  env_key_fault :: "nat option"

text \<open>The buffer of \<open>n\<close> zero bytes, overwritten by what the system returns.\<close>

definition fill :: "nat \<Rightarrow> bytes \<Rightarrow> bytes" where
  "fill n bs = take n (bs @ replicate n 0)"

definition getrandom :: "nat \<Rightarrow> env \<Rightarrow> bytes option \<times> env" where
  "getrandom n v =
     (case env_rng v of
        [] \<Rightarrow> (None, v)
      | x # xs \<Rightarrow> (map_option (fill n) x, v\<lparr>env_rng := xs\<rparr>))"

lemma length_fill [simp]: "length (fill n bs) = n"
  by (simp add: fill_def)

lemma getrandom_length: "getrandom n v = (Some bs, v') \<Longrightarrow> length bs = n"
  by (auto simp: getrandom_def split: list.splits)

text \<open>A directory: its files, in the order \<open>read_dir\<close> lists them.\<close>

type_synonym dir = "(string \<times> bytes) list"

end
