(* ===== verification/Entry.thy ===== *)
theory Entry
  imports Crates
begin

text \<open>
  The data model of the log (\<open>crates/core/src/entry.rs\<close>) and the helpers of
  \<open>crates/core/src/util.rs\<close>: records as callers submit them, sealed entries, receipts, and the
  JSON form that the derived \<open>Serialize\<close> and \<open>Deserialize\<close> of the entry types give them.
\<close>

section \<open>util.rs\<close>

text \<open>
  \<open>now_ms\<close>: the argument is the time since the epoch in milliseconds, \<open>None\<close> when the clock is
  before the epoch. \<open>as_millis\<close> is a \<open>u128\<close>, and \<open>as i64\<close> keeps its low 64 bits.
\<close>

definition now_ms :: "nat option \<Rightarrow> i64" where
  "now_ms clock = (case clock of None \<Rightarrow> 0 | Some ms \<Rightarrow> word_of_nat ms)"

definition push_field :: "bytes \<Rightarrow> bytes \<Rightarrow> bytes" where
  "push_field buf bs = buf @ to_be_bytes (word_of_nat (length bs)) @ bs"

text \<open>A byte string whose length a \<open>u64\<close> can hold, as that of every Rust value does.\<close>

definition fits :: "'a list \<Rightarrow> bool" where
  "fits bs \<longleftrightarrow> length bs < 2 ^ 64"

lemma fits_as_bytes [simp]: "fits (as_bytes s) \<longleftrightarrow> fits s"
  by (simp add: fits_def)

lemma fits_to_be_bytes [simp]: "fits (to_be_bytes w)"
  by (simp add: fits_def)

lemma word_of_length_inject:
  "fits a \<Longrightarrow> fits b \<Longrightarrow>
   (word_of_nat (length a) :: u64) = word_of_nat (length b) \<longleftrightarrow> length a = length b"
  by (auto simp: fits_def word_of_nat_eq_iff take_bit_nat_eq_self)

text \<open>
  Length prefixes make the encoding unambiguous: a field that is read off two equal strings is
  the same in both, and so is what follows it.
\<close>

lemma push_field_inject [codec]:
  assumes "fits a" and "fits b"
  shows "push_field [] a @ r = push_field [] b @ r' \<longleftrightarrow> a = b \<and> r = r'"
proof
  assume "push_field [] a @ r = push_field [] b @ r'"
  then have eq: "to_be_bytes (word_of_nat (length a)) @ a @ r =
      to_be_bytes (word_of_nat (length b)) @ b @ r'"
    by (simp add: push_field_def)
  then have "to_be_bytes (word_of_nat (length a)) = to_be_bytes (word_of_nat (length b))"
    and rest: "a @ r = b @ r'"
    by (simp_all add: append_eq_append_conv)
  then have "length a = length b"
    using assms by (simp add: word_of_length_inject)
  with rest show "a = b \<and> r = r'" by simp
qed simp

lemma push_field_inject_last [codec]:
  "fits a \<Longrightarrow> fits b \<Longrightarrow> push_field [] a = push_field [] b \<longleftrightarrow> a = b"
  using push_field_inject [of a b "[]" "[]"] by simp

lemma push_field_append: "push_field buf bs = buf @ push_field [] bs"
  by (simp add: push_field_def)

section \<open>entry.rs: records, entries, receipts\<close>

datatype outcome = Success | Failure | Denied

fun as_str :: "outcome \<Rightarrow> string" where
  "as_str Success = ''success''"
| "as_str Failure = ''failure''"
| "as_str Denied = ''denied''"

lemma as_str_inject [simp]: "as_str o1 = as_str o2 \<longleftrightarrow> o1 = o2"
  by (cases o1; cases o2) simp_all

record encrypted_pii =
  key_id :: string
  wrapped_dek :: string
  pii_nonce :: string
  ciphertext :: string

record payload =
  p_data :: json
  p_pii :: "encrypted_pii option"

record log_record =
  r_event_type :: string
  r_outcome :: outcome
  r_actor :: string
  r_instruction_id :: "string option"
  r_data :: json
  r_pii :: "json option"
  r_key_id :: string

record audit_entry =
  e_seq :: u64
  e_timestamp :: i64
  e_event_type :: string
  e_outcome :: outcome
  e_actor :: string
  e_instruction_id :: "string option"
  e_payload :: payload
  e_prev_hash :: string
  e_entry_hash :: string

record receipt =
  rc_seq :: u64
  rc_timestamp :: i64
  rc_entry_hash :: string
  rc_prev_hash :: string

definition GENESIS_PREV_HASH :: string where
  "GENESIS_PREV_HASH =
     ''0000000000000000000000000000000000000000000000000000000000000000''"

text \<open>The \<open>Record\<close> constructor and its chained setters.\<close>

definition record_new :: "string \<Rightarrow> outcome \<Rightarrow> string \<Rightarrow> log_record" where
  "record_new event_type outcome actor =
     \<lparr>r_event_type = event_type, r_outcome = outcome, r_actor = actor, r_instruction_id = None,
      r_data = JNull, r_pii = None, r_key_id = ''master''\<rparr>"

definition record_instruction_id :: "string \<Rightarrow> log_record \<Rightarrow> log_record" where
  "record_instruction_id i r = r\<lparr>r_instruction_id := Some i\<rparr>"

definition record_data :: "json \<Rightarrow> log_record \<Rightarrow> log_record" where
  "record_data j r = r\<lparr>r_data := j\<rparr>"

definition record_pii :: "json \<Rightarrow> log_record \<Rightarrow> log_record" where
  "record_pii j r = r\<lparr>r_pii := Some j\<rparr>"

definition record_key_id :: "string \<Rightarrow> log_record \<Rightarrow> log_record" where
  "record_key_id k r = r\<lparr>r_key_id := k\<rparr>"

section \<open>Derived (de)serialization\<close>

text \<open>\<open>#[serde(rename_all = "snake_case")]\<close>: a string, or the externally tagged object.\<close>

definition outcome_json :: "outcome \<Rightarrow> json" where
  "outcome_json out = JStr (as_str out)"

fun outcome_of_name :: "string \<Rightarrow> outcome option" where
  "outcome_of_name s =
     (if s = ''success'' then Some Success
      else if s = ''failure'' then Some Failure
      else if s = ''denied'' then Some Denied else None)"

fun outcome_of_json :: "json \<Rightarrow> outcome option" where
  "outcome_of_json (JStr s) = outcome_of_name s"
| "outcome_of_json (JObj [(s, JNull)]) = outcome_of_name s"
| "outcome_of_json _ = None"

lemma outcome_roundtrip [simp, codec]: "outcome_of_json (outcome_json out) = Some out"
  by (cases out) (simp_all add: outcome_json_def)

definition pii_json :: "encrypted_pii \<Rightarrow> json" where
  "pii_json p =
     JObj [(''key_id'', JStr (key_id p)), (''wrapped_dek'', JStr (wrapped_dek p)),
           (''nonce'', JStr (pii_nonce p)), (''ciphertext'', JStr (ciphertext p))]"

definition pii_of_json :: "json \<Rightarrow> encrypted_pii option" where
  "pii_of_json j =
     (case struct_fields [''key_id'', ''wrapped_dek'', ''nonce'', ''ciphertext''] j of
        None \<Rightarrow> None
      | Some f \<Rightarrow>
          (case (Option.bind (f ''key_id'') string_of_json,
                 Option.bind (f ''wrapped_dek'') string_of_json,
                 Option.bind (f ''nonce'') string_of_json,
                 Option.bind (f ''ciphertext'') string_of_json) of
             (Some k, Some w, Some n, Some c) \<Rightarrow>
               Some \<lparr>key_id = k, wrapped_dek = w, pii_nonce = n, ciphertext = c\<rparr>
           | _ \<Rightarrow> None))"

text \<open>\<open>Payload\<close>: \<open>pii\<close> is skipped when it is \<open>None\<close>; both fields have a default.\<close>

definition payload_json :: "payload \<Rightarrow> json" where
  "payload_json p =
     JObj ((''data'', p_data p) #
           (case p_pii p of None \<Rightarrow> [] | Some x \<Rightarrow> [(''pii'', pii_json x)]))"

definition payload_of_json :: "json \<Rightarrow> payload option" where
  "payload_of_json j =
     (case struct_fields [''data'', ''pii''] j of
        None \<Rightarrow> None
      | Some f \<Rightarrow>
          (case opt_of_json pii_of_json (f ''pii'') of
             None \<Rightarrow> None
           | Some x \<Rightarrow>
               Some \<lparr>p_data = (case f ''data'' of None \<Rightarrow> JNull | Some v \<Rightarrow> value_of v),
                     p_pii = x\<rparr>))"

definition entry_json :: "audit_entry \<Rightarrow> json" where
  "entry_json e =
     JObj ([(''seq'', json_u64 (e_seq e)), (''timestamp'', json_i64 (e_timestamp e)),
            (''event_type'', JStr (e_event_type e)), (''outcome'', outcome_json (e_outcome e)),
            (''actor'', JStr (e_actor e))] @
           (case e_instruction_id e of None \<Rightarrow> [] | Some i \<Rightarrow> [(''instruction_id'', JStr i)]) @
           [(''payload'', payload_json (e_payload e)), (''prev_hash'', JStr (e_prev_hash e)),
            (''entry_hash'', JStr (e_entry_hash e))])"

definition entry_fields :: "string list" where
  "entry_fields = [''seq'', ''timestamp'', ''event_type'', ''outcome'', ''actor'',
     ''instruction_id'', ''payload'', ''prev_hash'', ''entry_hash'']"

definition entry_of_json :: "json \<Rightarrow> audit_entry option" where
  "entry_of_json j =
     (case struct_fields entry_fields j of
        None \<Rightarrow> None
      | Some f \<Rightarrow>
          (case (Option.bind (f ''seq'') u64_of_json, Option.bind (f ''timestamp'') i64_of_json,
                 Option.bind (f ''event_type'') string_of_json,
                 Option.bind (f ''outcome'') outcome_of_json,
                 Option.bind (f ''actor'') string_of_json,
                 opt_of_json string_of_json (f ''instruction_id''),
                 Option.bind (f ''payload'') payload_of_json,
                 Option.bind (f ''prev_hash'') string_of_json,
                 Option.bind (f ''entry_hash'') string_of_json) of
             (Some s, Some t, Some ev, Some oc, Some a, Some i, Some p, Some ph, Some eh) \<Rightarrow>
               Some \<lparr>e_seq = s, e_timestamp = t, e_event_type = ev, e_outcome = oc, e_actor = a,
                     e_instruction_id = i, e_payload = p, e_prev_hash = ph, e_entry_hash = eh\<rparr>
           | _ \<Rightarrow> None))"

lemma pii_roundtrip [simp, codec]: "pii_of_json (pii_json p) = Some p"
  by (simp add: pii_of_json_def pii_json_def struct_fields_def)

lemma pii_json_neq [simp]: "pii_json p \<noteq> JNull"
  by (simp add: pii_json_def)

lemma payload_roundtrip [codec]:
  "is_value (p_data p) \<Longrightarrow> payload_of_json (payload_json p) = Some p"
  by (cases "p_pii p")
    (simp_all add: payload_of_json_def payload_json_def struct_fields_def opt_of_json_def
      is_value_def pii_json_def [abs_def] split: json.splits, simp_all flip: pii_json_def)

lemma payload_json_inject [simp, codec]: "payload_json p = payload_json q \<longleftrightarrow> p = q"
proof
  assume eq: "payload_json p = payload_json q"
  then have "p_data p = p_data q" by (simp add: payload_json_def)
  moreover have "p_pii p = p_pii q"
    using eq by (auto simp: payload_json_def split: option.splits) (metis option.inject pii_roundtrip)
  ultimately show "p = q" by simp
qed simp

lemma entry_roundtrip:
  assumes "is_value (p_data (e_payload e))"
  shows "entry_of_json (entry_json e) = Some e"
  using payload_roundtrip [OF assms]
  by (cases "e_instruction_id e")
    (simp_all add: entry_of_json_def entry_json_def struct_fields_def opt_of_json_def
      entry_fields_def)

section \<open>Entries that \<open>serde_json\<close> writes and reads back\<close>

definition entry_text :: "crates \<Rightarrow> audit_entry \<Rightarrow> bytes" where
  "entry_text d e = sj_to_vec d (entry_json e)"

text \<open>\<open>serde_json::from_str::<AuditEntry>\<close>.\<close>

definition entry_from_str :: "crates \<Rightarrow> bytes \<Rightarrow> audit_entry option" where
  "entry_from_str d line = Option.bind (sj_from_slice d line) entry_of_json"

definition entry_ok :: "crates \<Rightarrow> audit_entry \<Rightarrow> bool" where
  "entry_ok d e \<longleftrightarrow> text_ok (entry_text d e) \<and> entry_from_str d (entry_text d e) = Some e"

definition plain_data :: "json \<Rightarrow> bool" where
  "plain_data j \<longleftrightarrow> is_value j \<and> plain_json j \<and> json_depth j \<le> 125"

definition plain_opt :: "string option \<Rightarrow> bool" where
  "plain_opt x \<longleftrightarrow> (case x of None \<Rightarrow> True | Some s \<Rightarrow> utf8_string s)"

definition plain_pii :: "encrypted_pii option \<Rightarrow> bool" where
  "plain_pii x \<longleftrightarrow>
     (case x of
        None \<Rightarrow> True
      | Some p \<Rightarrow> utf8_string (key_id p) \<and> utf8_string (wrapped_dek p) \<and>
          utf8_string (pii_nonce p) \<and> utf8_string (ciphertext p))"

definition plain_entry :: "audit_entry \<Rightarrow> bool" where
  "plain_entry e \<longleftrightarrow>
     utf8_string (e_event_type e) \<and> utf8_string (e_actor e) \<and> plain_opt (e_instruction_id e) \<and>
     plain_data (p_data (e_payload e)) \<and> plain_pii (p_pii (e_payload e)) \<and>
     utf8_string (e_prev_hash e) \<and> utf8_string (e_entry_hash e)"

lemma utf8_ascii_string: "list_all (\<lambda>c. of_char c < (128 :: nat)) s \<Longrightarrow> utf8_string s"
  unfolding utf8_string_def
  by (rule utf8_valid_ascii) (auto simp: as_bytes_def list_all_iff word_less_nat_alt)

lemma utf8_as_str [simp]: "utf8_string (as_str out)"
  by (cases out) (simp_all add: utf8_ascii_string)

lemma plain_ints [simp]: "plain_json (json_u64 w)" "plain_json (json_i64 t)"
  by (simp_all add: json_u64_def json_i64_def)

lemma depth_ints [simp]: "json_depth (json_u64 w) = 0" "json_depth (json_i64 t) = 0"
  by (simp_all add: json_u64_def json_i64_def)

lemma plain_pii_json: "plain_pii (Some p) \<Longrightarrow> plain_json (pii_json p)"
  by (simp add: plain_pii_def pii_json_def utf8_ascii_string)

lemma plain_payload_json:
  "plain_data (p_data p) \<Longrightarrow> plain_pii (p_pii p) \<Longrightarrow> plain_json (payload_json p)"
  by (cases "p_pii p")
    (simp_all add: payload_json_def plain_data_def plain_pii_json utf8_ascii_string)

lemma plain_entry_json: "plain_entry e \<Longrightarrow> plain_json (entry_json e)"
  by (cases "e_instruction_id e")
    (simp_all add: plain_entry_def plain_opt_def entry_json_def plain_payload_json
      outcome_json_def utf8_ascii_string)

lemma depth_payload_json: "json_depth (payload_json p) = Suc (max (json_depth (p_data p)) (if p_pii p = None then 0 else 1))"
  by (cases "p_pii p") (simp_all add: payload_json_def pii_json_def max_def)

lemma depth_entry_json: "json_depth (entry_json e) = Suc (json_depth (payload_json (e_payload e)))"
  by (cases "e_instruction_id e") (simp_all add: entry_json_def outcome_json_def)

lemma plain_entry_ok:
  assumes "serde_ok d" and "plain_entry e"
  shows "entry_ok d e"
proof -
  have "json_depth (entry_json e) \<le> 127"
    using assms(2) by (simp add: depth_entry_json depth_payload_json plain_entry_def plain_data_def)
  then have "json_ok d (entry_json e)"
    using assms plain_entry_json by (simp add: serde_ok_def)
  moreover have "text_ok (entry_text d e)"
    using assms plain_entry_json [OF assms(2)]
    by (simp add: serde_ok_def entry_text_def entry_json_def)
  moreover have "entry_of_json (entry_json e) = Some e"
    using assms(2) by (intro entry_roundtrip) (simp add: plain_entry_def plain_data_def)
  ultimately show ?thesis
    by (simp add: entry_ok_def entry_from_str_def entry_text_def json_ok_def)
qed

end
