(* ===== verification/Store.thy ===== *)
theory Store
  imports Entry
begin

text \<open>
  Append-only storage (\<open>crates/core/src/store.rs\<close>): the trait \<open>Store\<close> as a record of its two
  operations over the backend's state, the locale \<open>chain_store\<close> of the laws its users rely on,
  the JSONL \<open>FileStore\<close>, the \<open>MemoryStore\<close> and \<open>read_all\<close>. A file is its bytes; the state of a
  file-backed store includes the file that its handle appends to.
\<close>

section \<open>The trait \<open>Store\<close>\<close>

record 's store_ops =
  st_tail :: "'s \<Rightarrow> (u64 \<times> string) option result"
  st_append :: "audit_entry \<Rightarrow> env \<Rightarrow> 's \<Rightarrow> unit result \<times> 's"

definition entry_key :: "audit_entry \<Rightarrow> u64 \<times> string" where
  "entry_key e = (e_seq e, e_entry_hash e)"

definition tail_of :: "audit_entry list \<Rightarrow> (u64 \<times> string) option" where
  "tail_of es = map_option entry_key (last_opt es)"

lemma tail_of_simps [simp]: "tail_of [] = None" "tail_of (es @ [e]) = Some (entry_key e)"
  by (simp_all add: tail_of_def)

lemma tail_of_fold: "map_option (\<lambda>e. (e_seq e, e_entry_hash e)) (last_opt es) = tail_of es"
  by (simp add: tail_of_def entry_key_def [abs_def])

text \<open>An error that has left nothing behind in the file.\<close>

definition clean_fault :: "fault \<Rightarrow> bool" where
  "clean_fault f \<longleftrightarrow> f = NoFault \<or> f = OpenFault \<or> f = WriteFault 0"

text \<open>
  The entry that comes next: it has the next sequence number, which is above all those present
  (it has not wrapped around).
\<close>

definition next_seq :: "audit_entry list \<Rightarrow> u64" where
  "next_seq es = (case last_opt es of None \<Rightarrow> 1 | Some e \<Rightarrow> e_seq e + 1)"

definition follows :: "audit_entry list \<Rightarrow> audit_entry \<Rightarrow> bool" where
  "follows es e \<longleftrightarrow> e_seq e = next_seq es \<and> (\<forall>x \<in> set es. e_seq x < e_seq e)"

lemma followsD:
  assumes "follows es e"
  shows "e_seq e = next_seq es" and "\<forall>x \<in> set es. e_seq x < e_seq e"
  using assms unfolding follows_def by blast+

text \<open>
  The laws: \<open>entries\<close> is what a reader of the store finds. An append that succeeds adds its entry
  at the end, if the entry follows those present and the store can represent it; one that fails
  cleanly changes nothing; without a fault it succeeds.
\<close>

locale chain_store =
  fixes ops :: "'s store_ops" and inv :: "'s \<Rightarrow> bool"
    and entries :: "'s \<Rightarrow> audit_entry list" and ok :: "audit_entry \<Rightarrow> bool"
  assumes tail_law: "inv s \<Longrightarrow> st_tail ops s = Inr (tail_of (entries s))"
    and append_ok:
      "inv s \<Longrightarrow> ok e \<Longrightarrow> follows (entries s) e \<Longrightarrow>
       st_append ops e v s = (Inr (), s') \<Longrightarrow> inv s' \<and> entries s' = entries s @ [e]"
    and append_clean:
      "inv s \<Longrightarrow> follows (entries s) e \<Longrightarrow> clean_fault (env_fault v) \<Longrightarrow>
       st_append ops e v s = (Inl er, s') \<Longrightarrow> inv s' \<and> entries s' = entries s"
    and append_succeeds:
      "inv s \<Longrightarrow> env_fault v = NoFault \<Longrightarrow> fst (st_append ops e v s) = Inr ()"
begin

text \<open>One append under a clean environment, whatever its outcome.\<close>

lemma append_step:
  assumes "inv s" and "ok e" and "follows (entries s) e"
    and "clean_fault (env_fault v)" and "st_append ops e v s = (r, s')"
  shows "inv s' \<and> entries s' = entries s @ (if r = Inr () then [e] else [])"
proof (cases r)
  case (Inl er)
  with append_clean [OF assms(1,3,4)] assms(5) show ?thesis by simp
next
  case (Inr u)
  with append_ok [OF assms(1,2,3)] assms(5) show ?thesis by simp
qed

end

section \<open>\<open>read_all\<close>\<close>

text \<open>The loop over \<open>reader.lines()\<close>; a line that is not UTF-8 ends it with an I/O error.\<close>

fun read_lines :: "crates \<Rightarrow> bytes list \<Rightarrow> audit_entry list result" where
  "read_lines d [] = Inr []"
| "read_lines d (l # ls) =
     (if \<not> utf8_valid l then Inl (Io InvalidUtf8)
      else
        let line = chomp l in
        if trim line = [] then read_lines d ls
        else
          (case entry_from_str d line of
             None \<Rightarrow> Inl Serde
           | Some e \<Rightarrow>
               (case read_lines d ls of Inl er \<Rightarrow> Inl er | Inr es \<Rightarrow> Inr (e # es))))"

definition read_content :: "crates \<Rightarrow> bytes \<Rightarrow> audit_entry list result" where
  "read_content d content = read_lines d (raw_lines content)"

text \<open>The argument is the file at the path, \<open>None\<close> if there is none.\<close>

definition read_all :: "crates \<Rightarrow> bytes option \<Rightarrow> audit_entry list result" where
  "read_all d file =
     (case file of None \<Rightarrow> Inl (Io NotFound) | Some content \<Rightarrow> read_content d content)"

section \<open>\<open>FileStore\<close>\<close>

record file_store =
  fs_file :: bytes
  fs_tail :: "(u64 \<times> string) option"

text \<open>\<open>write_all\<close>, \<open>flush\<close> (nothing to do for a \<open>File\<close>) and \<open>sync_all\<close>.\<close>

definition write_line :: "bytes \<Rightarrow> bytes \<Rightarrow> env \<Rightarrow> unit result \<times> bytes" where
  "write_line file line v =
     (case env_fault v of
        WriteFault n \<Rightarrow> (Inl (Io OsError), file @ take n line)
      | SyncFault \<Rightarrow> (Inl (Io OsError), file @ line)
      | _ \<Rightarrow> (Inr (), file @ line))"

definition read_tail :: "crates \<Rightarrow> bytes option \<Rightarrow> (u64 \<times> string) option result" where
  "read_tail d file =
     (case file of
        None \<Rightarrow> Inr None
      | Some _ \<Rightarrow>
          (case read_all d file of
             Inl e \<Rightarrow> Inl e
           | Inr es \<Rightarrow> Inr (map_option (\<lambda>e. (e_seq e, e_entry_hash e)) (last_opt es))))"

definition file_open :: "crates \<Rightarrow> bytes option \<Rightarrow> env \<Rightarrow> file_store result" where
  "file_open d file v =
     (case read_tail d file of
        Inl e \<Rightarrow> Inl e
      | Inr tail \<Rightarrow>
          if env_fault v = OpenFault then Inl (Io OsError)
          else Inr \<lparr>fs_file = (case file of None \<Rightarrow> [] | Some content \<Rightarrow> content), fs_tail = tail\<rparr>)"

definition file_append ::
  "crates \<Rightarrow> audit_entry \<Rightarrow> env \<Rightarrow> file_store \<Rightarrow> unit result \<times> file_store" where
  "file_append d e v s =
     (let line = sj_to_vec d (entry_json e) @ [10] in
      case write_line (fs_file s) line v of
        (Inl er, file) \<Rightarrow> (Inl er, s\<lparr>fs_file := file\<rparr>)
      | (Inr _, file) \<Rightarrow>
          (Inr (), s\<lparr>fs_file := file, fs_tail := Some (e_seq e, e_entry_hash e)\<rparr>))"

definition file_ops :: "crates \<Rightarrow> file_store store_ops" where
  "file_ops d = \<lparr>st_tail = (\<lambda>s. Inr (fs_tail s)), st_append = file_append d\<rparr>"

section \<open>\<open>MemoryStore\<close>\<close>

record memory_store =
  ms_entries :: "audit_entry list"

definition memory_new :: memory_store where
  "memory_new = \<lparr>ms_entries = []\<rparr>"

definition memory_append ::
  "audit_entry \<Rightarrow> env \<Rightarrow> memory_store \<Rightarrow> unit result \<times> memory_store" where
  "memory_append e v s = (Inr (), s\<lparr>ms_entries := ms_entries s @ [e]\<rparr>)"

definition memory_ops :: "memory_store store_ops" where
  "memory_ops =
     \<lparr>st_tail = (\<lambda>s. Inr (map_option (\<lambda>e. (e_seq e, e_entry_hash e)) (last_opt (ms_entries s)))),
      st_append = memory_append\<rparr>"

section \<open>Files of entries\<close>

definition entry_line :: "crates \<Rightarrow> audit_entry \<Rightarrow> bytes" where
  "entry_line d e = entry_text d e @ [10]"

definition file_of :: "crates \<Rightarrow> audit_entry list \<Rightarrow> bytes" where
  "file_of d es = concat (map (entry_line d) es)"

lemma file_of_simps [simp]:
  "file_of d [] = []"
  "file_of d (e # es) = entry_line d e @ file_of d es"
  "file_of d (es @ fs) = file_of d es @ file_of d fs"
  by (simp_all add: file_of_def)

lemma utf8_decode_ascii_Cons:
  "b < 128 \<Longrightarrow> utf8_decode (b # bs) = map_option ((#) b) (utf8_decode bs)"
  by simp

lemma utf8_encode_nonempty [simp]: "utf8_encode p \<noteq> []"
  by (simp add: utf8_encode_def)

text \<open>A line that starts with a brace is not blank.\<close>

lemma trim_object: "bs \<noteq> [] \<Longrightarrow> hd bs = 123 \<Longrightarrow> trim bs \<noteq> []"
proof -
  assume "bs \<noteq> []" and "hd bs = 123"
  then obtain r where bs: "bs = 123 # r" by (cases bs) auto
  show "trim bs \<noteq> []"
  proof (cases "utf8_decode (map unat bs)")
    case None
    with bs show ?thesis by (simp add: trim_def)
  next
    case (Some ps)
    with bs obtain qs where ps: "ps = 123 # qs" by auto
    have brace: "\<not> white_space 123" by (simp add: white_space_def)
    then have "dropWhile white_space ps = ps" using ps by simp
    moreover have "dropWhile white_space (rev qs @ [123]) \<noteq> []"
      using brace by (simp add: dropWhile_eq_Nil_conv)
    ultimately have "trim_points ps \<noteq> []" using ps by (simp add: trim_points_def)
    then show ?thesis
      using Some by (cases "trim_points ps") (simp_all add: trim_def)
  qed
qed

lemma read_lines_entry:
  assumes "entry_ok d e"
  shows "read_lines d (raw_lines (entry_line d e @ rest)) =
    (case read_lines d (raw_lines rest) of Inl er \<Rightarrow> Inl er | Inr es \<Rightarrow> Inr (e # es))"
proof -
  let ?l = "entry_text d e"
  have t: "?l \<noteq> []" "hd ?l = 123" "last ?l = 125" "10 \<notin> set ?l" "utf8_valid (?l @ [10])"
    and e: "entry_from_str d ?l = Some e"
    using assms by (simp_all add: entry_ok_def text_ok_def)
  have "raw_lines (entry_line d e @ rest) = (?l @ [10]) # raw_lines rest"
    using raw_lines_line [OF t(4)] by (simp add: entry_line_def)
  moreover have "chomp (?l @ [10]) = ?l" using t(1,3) by (simp add: chomp_line)
  ultimately show ?thesis
    using t e trim_object [OF t(1,2)] by (simp add: Let_def)
qed

lemma read_content_file_of [simp]:
  "list_all (entry_ok d) es \<Longrightarrow> read_content d (file_of d es) = Inr es"
  by (induction es) (simp_all add: read_content_def read_lines_entry)

section \<open>The stores satisfy the laws\<close>

definition memory_inv :: "memory_store \<Rightarrow> bool" where
  "memory_inv s \<longleftrightarrow> True"

interpretation memory_st: chain_store memory_ops memory_inv ms_entries "\<lambda>_. True"
  by unfold_locales
    (auto simp: memory_ops_def memory_inv_def memory_append_def tail_of_fold)

text \<open>
  The file holds the lines of entries that can be read back, and nothing else; the cached tail is
  the last of them. \<open>file_entries\<close> is what \<open>read_all\<close> returns.
\<close>

definition file_entries :: "crates \<Rightarrow> file_store \<Rightarrow> audit_entry list" where
  "file_entries d s = (case read_content d (fs_file s) of Inl _ \<Rightarrow> [] | Inr es \<Rightarrow> es)"

definition file_inv :: "crates \<Rightarrow> file_store \<Rightarrow> bool" where
  "file_inv d s \<longleftrightarrow>
     list_all (entry_ok d) (file_entries d s) \<and> fs_file s = file_of d (file_entries d s) \<and>
     fs_tail s = tail_of (file_entries d s)"

lemma file_invI:
  "list_all (entry_ok d) es \<Longrightarrow> fs_file s = file_of d es \<Longrightarrow> fs_tail s = tail_of es \<Longrightarrow>
   file_inv d s \<and> file_entries d s = es"
  by (simp add: file_inv_def file_entries_def)

lemma file_inv_read: "file_inv d s \<Longrightarrow> read_all d (Some (fs_file s)) = Inr (file_entries d s)"
  unfolding file_inv_def read_all_def by (metis option.case(2) read_content_file_of)

lemma file_append_Inr:
  "file_append d e v s = (Inr (), s') \<longleftrightarrow>
     (env_fault v = NoFault \<or> env_fault v = OpenFault) \<and>
     s' = s\<lparr>fs_file := fs_file s @ entry_line d e, fs_tail := Some (entry_key e)\<rparr>"
  by (auto simp: file_append_def write_line_def entry_line_def entry_text_def entry_key_def Let_def
      split: fault.splits)

lemma file_append_Inl:
  "file_append d e v s = (Inl er, s') \<longleftrightarrow>
     er = Io OsError \<and>
     (case env_fault v of
        WriteFault n \<Rightarrow> s' = s\<lparr>fs_file := fs_file s @ take n (entry_line d e)\<rparr>
      | SyncFault \<Rightarrow> s' = s\<lparr>fs_file := fs_file s @ entry_line d e\<rparr>
      | _ \<Rightarrow> False)"
  by (auto simp: file_append_def write_line_def entry_line_def entry_text_def Let_def
      split: fault.splits)

interpretation file_st: chain_store "file_ops d" "file_inv d" "file_entries d" "entry_ok d" for d
proof unfold_locales
  fix s assume "file_inv d s"
  then show "st_tail (file_ops d) s = Inr (tail_of (file_entries d s))"
    by (simp add: file_ops_def file_inv_def)
next
  fix s e v s'
  assume "file_inv d s" and "entry_ok d e" and "st_append (file_ops d) e v s = (Inr (), s')"
  then show "file_inv d s' \<and> file_entries d s' = file_entries d s @ [e]"
    by (intro file_invI) (auto simp: file_ops_def file_append_Inr file_inv_def)
next
  fix s e v er s'
  assume "file_inv d s" and "clean_fault (env_fault v)"
    and "st_append (file_ops d) e v s = (Inl er, s')"
  then have "s' = s"
    by (auto simp: file_ops_def file_append_Inl clean_fault_def split: fault.splits)
  with \<open>file_inv d s\<close> show "file_inv d s' \<and> file_entries d s' = file_entries d s" by simp
next
  fix s e and v :: env
  assume "env_fault v = NoFault"
  then show "fst (st_append (file_ops d) e v s) = Inr ()"
    by (simp add: file_ops_def file_append_def write_line_def Let_def)
qed

text \<open>Opening a file that a store has left.\<close>

lemma file_open_file_of:
  assumes "list_all (entry_ok d) es" and "env_fault v \<noteq> OpenFault"
  shows "\<exists>s. file_open d (Some (file_of d es)) v = Inr s \<and> file_inv d s \<and> file_entries d s = es"
  using assms file_invI [of d es "\<lparr>fs_file = file_of d es, fs_tail = tail_of es\<rparr>"]
  by (simp add: file_open_def read_tail_def read_all_def tail_of_fold)

lemma file_open_new:
  "env_fault v \<noteq> OpenFault \<Longrightarrow>
   file_open d None v = Inr \<lparr>fs_file = [], fs_tail = None\<rparr> \<and>
   file_inv d \<lparr>fs_file = [], fs_tail = None\<rparr> \<and> file_entries d \<lparr>fs_file = [], fs_tail = None\<rparr> = []"
  by (simp add: file_open_def read_tail_def file_inv_def file_entries_def read_content_def)

end
