(* ===== verification/Hash.thy ===== *)
theory Hash
  imports Entry
begin

text \<open>
  Canonical hashing of entries (\<open>crates/core/src/hash.rs\<close>). The canonical bytes determine every
  hashed field, with one exception that the encoding itself makes: an absent \<open>instruction_id\<close>
  and an empty one are encoded alike.
\<close>

definition canonical_bytes :: "crates \<Rightarrow> audit_entry \<Rightarrow> bytes" where
  "canonical_bytes d e =
     (let buf = [];
          buf = push_field buf (to_be_bytes (e_seq e));
          buf = push_field buf (to_be_bytes (e_timestamp e));
          buf = push_field buf (as_bytes (e_event_type e));
          buf = push_field buf (as_bytes (as_str (e_outcome e)));
          buf = push_field buf (as_bytes (e_actor e));
          buf = push_field buf
                  (as_bytes (case e_instruction_id e of None \<Rightarrow> '''' | Some i \<Rightarrow> i));
          pl = sj_to_vec d (payload_json (e_payload e));
          buf = push_field buf pl;
          buf = push_field buf (as_bytes (e_prev_hash e))
      in buf)"

definition entry_hash :: "crates \<Rightarrow> audit_entry \<Rightarrow> string" where
  "entry_hash d e = b3_to_hex d (b3_hash d (canonical_bytes d e))"

text \<open>\<open>AuditEntry::recompute_hash\<close>.\<close>

definition recompute_hash :: "crates \<Rightarrow> audit_entry \<Rightarrow> string" where
  "recompute_hash d e = entry_hash d e"

section \<open>What the hash covers\<close>

text \<open>The hash does not look at the stored \<open>entry_hash\<close>.\<close>

lemma canonical_bytes_entry_hash [simp]:
  "canonical_bytes d (e\<lparr>e_entry_hash := h\<rparr>) = canonical_bytes d e"
  by (simp add: canonical_bytes_def Let_def)

lemma entry_hash_update [simp]: "entry_hash d (e\<lparr>e_entry_hash := h\<rparr>) = entry_hash d e"
  by (simp add: entry_hash_def)

definition instruction_text :: "audit_entry \<Rightarrow> string" where
  "instruction_text e = (case e_instruction_id e of None \<Rightarrow> '''' | Some i \<Rightarrow> i)"

text \<open>The content of an entry as the canonical bytes see it.\<close>

definition hashed_content :: "crates \<Rightarrow> audit_entry \<Rightarrow>
  u64 \<times> i64 \<times> string \<times> outcome \<times> string \<times> string \<times> bytes \<times> string" where
  "hashed_content d e =
     (e_seq e, e_timestamp e, e_event_type e, e_outcome e, e_actor e, instruction_text e,
      sj_to_vec d (payload_json (e_payload e)), e_prev_hash e)"

definition entry_fits :: "crates \<Rightarrow> audit_entry \<Rightarrow> bool" where
  "entry_fits d e \<longleftrightarrow>
     fits (e_event_type e) \<and> fits (e_actor e) \<and> fits (instruction_text e) \<and>
     fits (sj_to_vec d (payload_json (e_payload e))) \<and> fits (e_prev_hash e)"

lemma canonical_bytes_fields:
  "canonical_bytes d e =
     push_field [] (to_be_bytes (e_seq e)) @ push_field [] (to_be_bytes (e_timestamp e)) @
     push_field [] (as_bytes (e_event_type e)) @ push_field [] (as_bytes (as_str (e_outcome e))) @
     push_field [] (as_bytes (e_actor e)) @ push_field [] (as_bytes (instruction_text e)) @
     push_field [] (sj_to_vec d (payload_json (e_payload e))) @
     push_field [] (as_bytes (e_prev_hash e))"
  by (simp add: canonical_bytes_def instruction_text_def push_field_def Let_def)

lemma fits_as_str [simp]: "fits (as_str out)"
  by (cases out) (simp_all add: fits_def)

text \<open>Injectivity: equal canonical bytes exactly when the hashed content is equal.\<close>

lemma canonical_bytes_eq_iff [codec]:
  assumes "entry_fits d e" and "entry_fits d e'"
  shows "canonical_bytes d e = canonical_bytes d e' \<longleftrightarrow> hashed_content d e = hashed_content d e'"
  using assms
  by (simp add: canonical_bytes_fields push_field_inject push_field_inject_last entry_fits_def
      hashed_content_def)

text \<open>Two entries that the verifier cannot tell apart by their contents.\<close>

definition same_entry :: "audit_entry \<Rightarrow> audit_entry \<Rightarrow> bool" where
  "same_entry e e' \<longleftrightarrow>
     e_seq e = e_seq e' \<and> e_timestamp e = e_timestamp e' \<and> e_event_type e = e_event_type e' \<and>
     e_outcome e = e_outcome e' \<and> e_actor e = e_actor e' \<and>
     instruction_text e = instruction_text e' \<and> e_payload e = e_payload e' \<and>
     e_prev_hash e = e_prev_hash e' \<and> e_entry_hash e = e_entry_hash e'"

lemma hashed_content_payload:
  assumes "hashed_content d e = hashed_content d e'"
    and "json_ok d (payload_json (e_payload e))" and "json_ok d (payload_json (e_payload e'))"
  shows "e_payload e = e_payload e'"
proof -
  have "sj_to_vec d (payload_json (e_payload e)) = sj_to_vec d (payload_json (e_payload e'))"
    using assms(1) by (simp add: hashed_content_def)
  then have "payload_json (e_payload e) = payload_json (e_payload e')"
    using assms(2,3) by (simp add: json_ok_def)
  then show ?thesis by simp
qed

text \<open>
  A collision between the canonical bytes of two given entries: what a forger of the chain has
  to find.
\<close>

definition hash_collision :: "crates \<Rightarrow> audit_entry \<Rightarrow> audit_entry \<Rightarrow> bool" where
  "hash_collision d e e' \<longleftrightarrow>
     canonical_bytes d e \<noteq> canonical_bytes d e' \<and>
     b3_hash d (canonical_bytes d e) = b3_hash d (canonical_bytes d e')"

lemma entry_hash_eqD:
  assumes "blake3_ok d" and "hex_ok d"
    and "entry_hash d e = entry_hash d e'" and "\<not> hash_collision d e e'"
  shows "canonical_bytes d e = canonical_bytes d e'"
  using assms by (auto simp: entry_hash_def hash_collision_def hex_inject)

end
