(* ===== verification/Verify.thy ===== *)
theory Verify
  imports Hash
begin

text \<open>
  Chain verification (\<open>crates/core/src/verify.rs\<close>): the walk over the entries with its
  violations, and the abstract specification of a chain that it decides. \<open>u64\<close> additions wrap,
  as they do in a release build.
\<close>

record anchor =
  a_seq :: u64
  a_hash :: string

datatype violation_kind = BadHash | BrokenLink | SequenceGap | BadGenesis

record violation =
  v_seq :: u64
  v_kind :: violation_kind
  v_detail :: string

record verify_report =
  entries_checked :: u64
  violations :: "violation list"
  report_head :: "(u64 \<times> string) option"

definition is_valid :: "verify_report \<Rightarrow> bool" where
  "is_valid r \<longleftrightarrow> violations r = []"

section \<open>The walk\<close>

text \<open>The local variables of the loop.\<close>

record walk =
  w_violations :: "violation list"
  w_count :: u64
  w_prev :: "audit_entry option"
  w_head :: "(u64 \<times> string) option"

definition viol :: "u64 \<Rightarrow> violation_kind \<Rightarrow> string \<Rightarrow> violation" where
  "viol s k m = \<lparr>v_seq = s, v_kind = k, v_detail = m\<rparr>"

text \<open>1. Content integrity: does the stored hash match the contents?\<close>

definition check_content :: "crates \<Rightarrow> audit_entry \<Rightarrow> violation list" where
  "check_content d e =
     (let recomputed = recompute_hash d e in
      if recomputed \<noteq> e_entry_hash e
      then [viol (e_seq e) BadHash
              (''stored entry_hash '' @ e_entry_hash e @ '' != recomputed '' @ recomputed)]
      else [])"

text \<open>2a. The first entry, after a trusted anchor or from genesis.\<close>

definition check_anchored :: "anchor \<Rightarrow> audit_entry \<Rightarrow> violation list" where
  "check_anchored a e =
     (if e_prev_hash e \<noteq> a_hash a
      then [viol (e_seq e) BrokenLink
              (''first entry prev_hash '' @ e_prev_hash e @ '' != anchor hash '' @ a_hash a)]
      else []) @
     (if e_seq e \<noteq> a_seq a + 1
      then [viol (e_seq e) SequenceGap
              (''first entry seq '' @ show_u64 (e_seq e) @ '' does not follow anchor seq '' @
               show_u64 (a_seq a))]
      else [])"

definition check_genesis :: "audit_entry \<Rightarrow> violation list" where
  "check_genesis e =
     (if e_prev_hash e \<noteq> GENESIS_PREV_HASH
      then [viol (e_seq e) BadGenesis
              (''first entry prev_hash '' @ e_prev_hash e @ '' != genesis '' @ GENESIS_PREV_HASH)]
      else []) @
     (if e_seq e \<noteq> 1
      then [viol (e_seq e) SequenceGap
              (''first entry seq is '' @ show_u64 (e_seq e) @ '', expected 1'')]
      else [])"

text \<open>2b. Linkage and 3. contiguity with the previous entry.\<close>

definition check_link :: "audit_entry \<Rightarrow> audit_entry \<Rightarrow> violation list" where
  "check_link p e =
     (if e_prev_hash e \<noteq> e_entry_hash p
      then [viol (e_seq e) BrokenLink
              (''prev_hash '' @ e_prev_hash e @ '' != previous entry_hash '' @ e_entry_hash p)]
      else []) @
     (if e_seq e \<noteq> e_seq p + 1
      then [viol (e_seq e) SequenceGap
              (''seq '' @ show_u64 (e_seq e) @ '' does not follow previous seq '' @
               show_u64 (e_seq p))]
      else [])"

definition verify_step :: "crates \<Rightarrow> anchor option \<Rightarrow> audit_entry \<Rightarrow> walk \<Rightarrow> walk" where
  "verify_step d anc e w =
     \<lparr>w_violations = w_violations w @ check_content d e @
        (case w_prev w of
           None \<Rightarrow> (case anc of Some a \<Rightarrow> check_anchored a e | None \<Rightarrow> check_genesis e)
         | Some p \<Rightarrow> check_link p e),
      w_count = w_count w + 1,
      w_prev = Some e,
      w_head = Some (e_seq e, e_entry_hash e)\<rparr>"

definition verify_entries_from ::
  "crates \<Rightarrow> anchor option \<Rightarrow> audit_entry list \<Rightarrow> verify_report" where
  "verify_entries_from d anc es =
     (let w = fold (verify_step d anc) es
                \<lparr>w_violations = [], w_count = 0, w_prev = None, w_head = None\<rparr>
      in \<lparr>entries_checked = w_count w, violations = w_violations w, report_head = w_head w\<rparr>)"

definition verify_entries :: "crates \<Rightarrow> audit_entry list \<Rightarrow> verify_report" where
  "verify_entries d es = verify_entries_from d None es"

section \<open>The specification: a chain from a base\<close>

text \<open>
  A base is the sequence number and hash that the next entry must follow. An entry is sealed
  when it carries its own hash.
\<close>

definition sealed :: "crates \<Rightarrow> audit_entry \<Rightarrow> bool" where
  "sealed d e \<longleftrightarrow> e_entry_hash e = entry_hash d e"

fun chain_from :: "crates \<Rightarrow> u64 \<times> string \<Rightarrow> audit_entry list \<Rightarrow> bool" where
  "chain_from d b [] \<longleftrightarrow> True"
| "chain_from d b (e # es) \<longleftrightarrow>
     sealed d e \<and> e_seq e = fst b + 1 \<and> e_prev_hash e = snd b \<and>
     chain_from d (e_seq e, e_entry_hash e) es"

definition genesis :: "u64 \<times> string" where
  "genesis = (0, GENESIS_PREV_HASH)"

definition base_of :: "anchor option \<Rightarrow> u64 \<times> string" where
  "base_of anc = (case anc of None \<Rightarrow> genesis | Some a \<Rightarrow> (a_seq a, a_hash a))"

definition head_of :: "u64 \<times> string \<Rightarrow> audit_entry list \<Rightarrow> u64 \<times> string" where
  "head_of b es = (if es = [] then b else (e_seq (last es), e_entry_hash (last es)))"

lemma head_of_simps [simp]:
  "head_of b [] = b"
  "head_of b (es @ [e]) = (e_seq e, e_entry_hash e)"
  by (simp_all add: head_of_def)

lemma head_of_Cons [simp]: "head_of b (e # es) = head_of (e_seq e, e_entry_hash e) es"
  by (simp add: head_of_def)

lemma head_of_append: "head_of b (es @ fs) = head_of (head_of b es) fs"
  by (induction es arbitrary: b) simp_all

lemma chain_from_append [simp]:
  "chain_from d b (es @ fs) \<longleftrightarrow> chain_from d b es \<and> chain_from d (head_of b es) fs"
  by (induction es arbitrary: b) simp_all

lemma chain_from_sealed: "chain_from d b es \<Longrightarrow> e \<in> set es \<Longrightarrow> sealed d e"
  by (induction es arbitrary: b) auto

text \<open>Position \<open>i\<close> of a chain from \<open>b\<close> has sequence number \<open>fst b + i + 1\<close>.\<close>

lemma chain_from_seq:
  "chain_from d b es \<Longrightarrow> i < length es \<Longrightarrow> e_seq (es ! i) = fst b + word_of_nat i + 1"
proof (induction es arbitrary: b i)
  case Nil
  then show ?case by simp
next
  case (Cons e es)
  then show ?case by (cases i) (auto simp: algebra_simps)
qed

lemma chain_from_head: "chain_from d b es \<Longrightarrow> fst (head_of b es) = fst b + word_of_nat (length es)"
  by (induction es arbitrary: b) (auto simp: algebra_simps)

section \<open>The walk decides the specification\<close>

lemma check_content_Nil [simp]: "check_content d e = [] \<longleftrightarrow> sealed d e"
  by (auto simp: check_content_def sealed_def recompute_hash_def Let_def)

lemma check_link_Nil [simp]:
  "check_link p e = [] \<longleftrightarrow> e_prev_hash e = e_entry_hash p \<and> e_seq e = e_seq p + 1"
  by (simp add: check_link_def)

lemma check_anchored_Nil [simp]:
  "check_anchored a e = [] \<longleftrightarrow> e_prev_hash e = a_hash a \<and> e_seq e = a_seq a + 1"
  by (simp add: check_anchored_def)

lemma check_genesis_Nil [simp]:
  "check_genesis e = [] \<longleftrightarrow> e_prev_hash e = GENESIS_PREV_HASH \<and> e_seq e = 1"
  by (simp add: check_genesis_def)

lemma walk_rest:
  "w_prev w = Some p \<Longrightarrow>
   w_violations (fold (verify_step d anc) es w) = [] \<longleftrightarrow>
   w_violations w = [] \<and> chain_from d (e_seq p, e_entry_hash p) es"
  by (induction es arbitrary: w p) (auto simp: verify_step_def)

lemma walk_start:
  "w_prev w = None \<Longrightarrow>
   w_violations (fold (verify_step d anc) es w) = [] \<longleftrightarrow>
   w_violations w = [] \<and> chain_from d (base_of anc) es"
proof (cases es)
  case (Cons e es')
  assume "w_prev w = None"
  with Cons show ?thesis
    by (auto simp: walk_rest [where p = e] verify_step_def base_of_def genesis_def
        split: option.splits)
qed simp

lemma walk_count: "w_count (fold (verify_step d anc) es w) = w_count w + word_of_nat (length es)"
  by (induction es arbitrary: w) (simp_all add: verify_step_def algebra_simps)

lemma walk_head:
  "w_head (fold (verify_step d anc) es w) =
     (if es = [] then w_head w else Some (e_seq (last es), e_entry_hash (last es)))"
  by (induction es arbitrary: w) (simp_all add: verify_step_def)

lemma verify_valid_iff [simp]:
  "is_valid (verify_entries_from d anc es) \<longleftrightarrow> chain_from d (base_of anc) es"
  by (simp add: is_valid_def verify_entries_from_def Let_def walk_start)

lemma verify_entries_valid_iff [simp]:
  "is_valid (verify_entries d es) \<longleftrightarrow> chain_from d genesis es"
  by (simp add: verify_entries_def base_of_def)

text \<open>The violations are those of the entries, each against its predecessor, in order.\<close>

fun walk_violations :: "crates \<Rightarrow> audit_entry \<Rightarrow> audit_entry list \<Rightarrow> violation list" where
  "walk_violations d p [] = []"
| "walk_violations d p (e # es) = check_content d e @ check_link p e @ walk_violations d e es"

lemma walk_violations_fold:
  "w_prev w = Some p \<Longrightarrow>
   w_violations (fold (verify_step d anc) es w) = w_violations w @ walk_violations d p es"
  by (induction es arbitrary: w p) (auto simp: verify_step_def)

lemma verify_violations_Cons:
  "violations (verify_entries_from d anc (e # es)) =
     check_content d e @
     (case anc of Some a \<Rightarrow> check_anchored a e | None \<Rightarrow> check_genesis e) @
     walk_violations d e es"
  by (simp add: verify_entries_from_def Let_def walk_violations_fold [where p = e] verify_step_def)

lemma walk_violations_append:
  "walk_violations d p (es @ fs) =
     walk_violations d p es @ walk_violations d (last (p # es)) fs"
  by (induction es arbitrary: p) auto

end
