(* ===== verification/Segment.thy ===== *)
theory Segment
  imports Store Verify
begin

text \<open>
  Segmented storage with retention pruning (\<open>crates/core/src/segment.rs\<close>): segment names, the
  listing of a directory, the rotating store, and pruning with its anchor.
\<close>

section \<open>Segment files\<close>

abbreviation SEG_PREFIX :: string where "SEG_PREFIX \<equiv> ''seg-''"
abbreviation SEG_SUFFIX :: string where "SEG_SUFFIX \<equiv> ''.jsonl''"

definition segment_name :: "u64 \<Rightarrow> string" where
  "segment_name first_seq = SEG_PREFIX @ show_u64_020 first_seq @ SEG_SUFFIX"

definition parse_segment_first_seq :: "string \<Rightarrow> u64 option" where
  "parse_segment_first_seq name =
     (case strip_prefix SEG_PREFIX name of
        None \<Rightarrow> None
      | Some s \<Rightarrow>
          (case strip_suffix SEG_SUFFIX s of
             None \<Rightarrow> None
           | Some s' \<Rightarrow> parse_u64 s'))"

definition segments_of_names :: "string list \<Rightarrow> (u64 \<times> string) list" where
  "segments_of_names names =
     sort_key fst
       (List.map_filter (\<lambda>n. map_option (\<lambda>f. (f, n)) (parse_segment_first_seq n)) names)"

definition list_segments :: "dir option \<Rightarrow> (u64 \<times> string) list" where
  "list_segments dir =
     (case dir of None \<Rightarrow> [] | Some files \<Rightarrow> segments_of_names (map fst files))"

text \<open>\<open>read_all\<close> on a path in the directory.\<close>

definition read_path :: "crates \<Rightarrow> dir \<Rightarrow> string \<Rightarrow> audit_entry list result" where
  "read_path d files p = read_all d (map_of files p)"

section \<open>The store\<close>

record seg_store =
  sg_dir :: dir
  sg_max_entries :: u64
  sg_file :: string  \<comment> \<open>the name of the segment file that is open\<close>
  sg_cur_first :: u64
  sg_cur_count :: u64
  sg_tail :: "(u64 \<times> string) option"

fun find_map :: "('a \<Rightarrow> 'b option) \<Rightarrow> 'a list \<Rightarrow> 'b option" where
  "find_map f [] = None"
| "find_map f (x # xs) = (case f x of None \<Rightarrow> find_map f xs | Some y \<Rightarrow> Some y)"

text \<open>\<open>OpenOptions::new().create(true).append(true).open(..)\<close>.\<close>

definition touch :: "string \<Rightarrow> dir \<Rightarrow> dir" where
  "touch p files = (if map_of files p = None then AList.update p [] files else files)"

definition seg_open :: "crates \<Rightarrow> dir option \<Rightarrow> u64 \<Rightarrow> env \<Rightarrow> seg_store result" where
  "seg_open d dir max_entries v =
     (if max_entries = 0 then Inl (Config ''max_entries must be >= 1'')
      else
        let files = (case dir of None \<Rightarrow> [] | Some fs \<Rightarrow> fs);
            segs = list_segments (Some files);
            entry_tail = (\<lambda>es. map_option (\<lambda>e. (e_seq e, e_entry_hash e)) (last_opt es));
            cur =
              (case last_opt segs of
                 None \<Rightarrow> Inr (1, 0, None)
               | Some (first, p) \<Rightarrow>
                   (case read_path d files p of
                      Inl e \<Rightarrow> Inl e
                    | Inr es \<Rightarrow>
                        let tail =
                          (case entry_tail es of
                             Some t \<Rightarrow> Some t
                           | None \<Rightarrow>
                               find_map
                                 (\<lambda>(_, p). case result_ok (read_path d files p) of
                                    None \<Rightarrow> None | Some es' \<Rightarrow> entry_tail es')
                                 (rev segs))
                        in Inr (first, word_of_nat (length es), tail)))
        in
          (case cur of
             Inl e \<Rightarrow> Inl e
           | Inr (cur_first, cur_count, tail) \<Rightarrow>
               if env_fault v = OpenFault then Inl (Io OsError)
               else Inr \<lparr>sg_dir = touch (segment_name cur_first) files,
                         sg_max_entries = max_entries, sg_file = segment_name cur_first,
                         sg_cur_first = cur_first, sg_cur_count = cur_count, sg_tail = tail\<rparr>))"

definition rotate_to :: "u64 \<Rightarrow> env \<Rightarrow> seg_store \<Rightarrow> unit result \<times> seg_store" where
  "rotate_to first_seq v s =
     (if env_fault v = OpenFault then (Inl (Io OsError), s)
      else
        let p = segment_name first_seq in
        (Inr (), s\<lparr>sg_dir := touch p (sg_dir s), sg_file := p, sg_cur_first := first_seq,
                   sg_cur_count := 0\<rparr>))"

definition seg_append ::
  "crates \<Rightarrow> audit_entry \<Rightarrow> env \<Rightarrow> seg_store \<Rightarrow> unit result \<times> seg_store" where
  "seg_append d e v s =
     (case (if sg_cur_count s \<ge> sg_max_entries s then rotate_to (e_seq e) v s else (Inr (), s)) of
        (Inl er, s1) \<Rightarrow> (Inl er, s1)
      | (Inr _, s1) \<Rightarrow>
          let line = sj_to_vec d (entry_json e) @ [10];
              content = (case map_of (sg_dir s1) (sg_file s1) of None \<Rightarrow> [] | Some c \<Rightarrow> c)
          in
          (case write_line content line v of
             (Inl er, c) \<Rightarrow> (Inl er, s1\<lparr>sg_dir := AList.update (sg_file s1) c (sg_dir s1)\<rparr>)
           | (Inr _, c) \<Rightarrow>
               (Inr (), s1\<lparr>sg_dir := AList.update (sg_file s1) c (sg_dir s1),
                           sg_cur_count := sg_cur_count s1 + 1,
                           sg_tail := Some (e_seq e, e_entry_hash e)\<rparr>)))"

definition seg_ops :: "crates \<Rightarrow> seg_store store_ops" where
  "seg_ops d = \<lparr>st_tail = (\<lambda>s. Inr (sg_tail s)), st_append = seg_append d\<rparr>"

fun read_segments :: "crates \<Rightarrow> dir \<Rightarrow> (u64 \<times> string) list \<Rightarrow> audit_entry list result" where
  "read_segments d files [] = Inr []"
| "read_segments d files ((_, p) # segs) =
     (case read_path d files p of
        Inl e \<Rightarrow> Inl e
      | Inr es \<Rightarrow>
          (case read_segments d files segs of Inl e \<Rightarrow> Inl e | Inr fs \<Rightarrow> Inr (es @ fs)))"

definition read_all_segmented :: "crates \<Rightarrow> dir option \<Rightarrow> audit_entry list result" where
  "read_all_segmented d dir =
     (case dir of None \<Rightarrow> Inr [] | Some files \<Rightarrow> read_segments d files (list_segments dir))"

section \<open>Pruning\<close>

text \<open>
  The loop over the segments but the last. \<open>rm_fails\<close> names the paths whose removal the system
  refuses; the loop then ends with that error and the directory as it is.
\<close>

fun prune_loop ::
  "(string \<Rightarrow> bool) \<Rightarrow> u64 \<Rightarrow> (u64 \<times> string) list \<Rightarrow> dir \<Rightarrow> bool \<Rightarrow> bool result \<times> dir" where
  "prune_loop rm_fails boundary ((f, p) # (f', p') # segs) files deleted_any =
     (if f' \<le> boundary
      then if rm_fails p then (Inl (Io OsError), files)
           else prune_loop rm_fails boundary ((f', p') # segs) (AList.delete p files) True
      else (Inr deleted_any, files))"
| "prune_loop rm_fails boundary _ files deleted_any = (Inr deleted_any, files)"

definition prune_before ::
  "crates \<Rightarrow> dir option \<Rightarrow> u64 \<Rightarrow> (string \<Rightarrow> bool) \<Rightarrow> anchor option result \<times> dir option" where
  "prune_before d dir boundary rm_fails =
     (let segs = list_segments dir in
      if length segs \<le> 1 then (Inr None, dir)
      else
        (case prune_loop rm_fails boundary segs (case dir of None \<Rightarrow> [] | Some fs \<Rightarrow> fs) False of
           (Inl e, files) \<Rightarrow> (Inl e, Some files)
         | (Inr False, files) \<Rightarrow> (Inr None, Some files)
         | (Inr True, files) \<Rightarrow>
             let first_entry =
               (case list_segments (Some files) of
                  [] \<Rightarrow> None
                | (_, p) # _ \<Rightarrow>
                    (case result_ok (read_path d files p) of
                       None \<Rightarrow> None
                     | Some es \<Rightarrow> (case es of [] \<Rightarrow> None | e # _ \<Rightarrow> Some e)))
             in
             (Inr (case first_entry of
                     Some e \<Rightarrow>
                       if e_seq e > 1 then Some \<lparr>a_seq = e_seq e - 1, a_hash = e_prev_hash e\<rparr>
                       else None
                   | None \<Rightarrow> None),
              Some files)))"

definition prune_before_timestamp ::
  "crates \<Rightarrow> dir option \<Rightarrow> i64 \<Rightarrow> (string \<Rightarrow> bool) \<Rightarrow> anchor option result \<times> dir option" where
  "prune_before_timestamp d dir cutoff_ms rm_fails =
     (case read_all_segmented d dir of
        Inl e \<Rightarrow> (Inl e, dir)
      | Inr es \<Rightarrow>
          (case find (\<lambda>e. sint (e_timestamp e) \<ge> sint cutoff_ms) es of
             Some e \<Rightarrow> prune_before d dir (e_seq e) rm_fails
           | None \<Rightarrow> (Inr None, dir)))"

section \<open>Names and listings\<close>

lemma parse_segment_name [simp, codec]: "parse_segment_first_seq (segment_name f) = Some f"
  unfolding parse_segment_first_seq_def segment_name_def
  by (simp only: strip_prefix_append strip_suffix_append option.case parse_show_u64_020)

lemma segment_name_inject [simp]: "segment_name f = segment_name g \<longleftrightarrow> f = g"
  by (metis parse_segment_name option.inject)

lemma list_less_append_same: "length xs = length ys \<Longrightarrow> xs @ zs < ys @ zs \<longleftrightarrow> xs < ys"
  for xs ys :: "'a :: linorder list"
  by (induction xs ys rule: list_induct2) auto

lemma segment_name_less: "segment_name f < segment_name g \<longleftrightarrow> f < g"
proof -
  have "SEG_PREFIX @ xs < SEG_PREFIX @ ys \<longleftrightarrow> xs < ys" for xs ys :: string by simp
  then show ?thesis
    unfolding segment_name_def by (simp only: list_less_append_same show_u64_020_less
        length_show_u64_020)
qed

lemma map_snd_listing:
  "map snd (List.map_filter (\<lambda>n. map_option (\<lambda>f. (f, n)) (p n)) names) =
   filter (\<lambda>n. p n \<noteq> None) names"
  by (induction names) (auto simp: List.map_filter_simps split: option.splits)

lemma set_listing:
  "set (List.map_filter (\<lambda>n. map_option (\<lambda>f. (f, n)) (p n)) names) =
   {(f, n). n \<in> set names \<and> p n = Some f}"
  by (induction names) (auto simp: List.map_filter_simps split: option.splits)

text \<open>
  A directory whose segment files are those of the first sequence numbers \<open>fs\<close>, under their
  canonical names: its listing is \<open>fs\<close> in order, whatever the order of \<open>read_dir\<close>.
\<close>

definition names_segments :: "string list \<Rightarrow> u64 set \<Rightarrow> bool" where
  "names_segments names fs \<longleftrightarrow>
     distinct names \<and>
     (\<forall>n f. n \<in> set names \<and> parse_segment_first_seq n = Some f \<longrightarrow> n = segment_name f \<and> f \<in> fs) \<and>
     segment_name ` fs \<subseteq> set names"

lemma names_segmentsI:
  "distinct names \<Longrightarrow>
   (\<And>n f. n \<in> set names \<Longrightarrow> parse_segment_first_seq n = Some f \<Longrightarrow> n = segment_name f \<and> f \<in> fs) \<Longrightarrow>
   (\<And>f. f \<in> fs \<Longrightarrow> segment_name f \<in> set names) \<Longrightarrow> names_segments names fs"
  unfolding names_segments_def by blast

lemma names_segmentsD:
  assumes "names_segments names fs"
  shows "distinct names"
    and "n \<in> set names \<Longrightarrow> parse_segment_first_seq n = Some f \<Longrightarrow> n = segment_name f \<and> f \<in> fs"
    and "f \<in> fs \<Longrightarrow> segment_name f \<in> set names"
  using assms unfolding names_segments_def by blast+

lemma segments_of_names_eq:
  assumes "names_segments names (set fs)" and "sorted_wrt (<) fs"
  shows "segments_of_names names = map (\<lambda>f. (f, segment_name f)) fs"
proof -
  let ?l = "List.map_filter (\<lambda>n. map_option (\<lambda>f. (f, n)) (parse_segment_first_seq n)) names"
  let ?r = "map (\<lambda>f. (f, segment_name f)) fs"
  have set: "set ?l = set ?r"
    using assms(1) by (auto simp: set_listing names_segments_def)
  have "distinct (map snd ?l)"
    using assms(1) by (simp only: map_snd_listing) (simp add: names_segments_def)
  then have "distinct ?l" by (simp add: distinct_map)
  moreover have inj: "inj_on fst (set ?r)" by (auto intro: inj_onI)
  ultimately have "distinct (map fst ?l)" using set by (simp add: distinct_map)
  then have dl: "distinct (map fst (sort_key fst ?l))" using set inj by (simp add: distinct_map)
  have "map fst ?r = fs" by (simp add: comp_def)
  then have r: "sorted (map fst ?r)" "distinct (map fst ?r)"
    using assms(2) by (simp_all add: strict_sorted_iff)
  show ?thesis
    unfolding segments_of_names_def
    by (rule map_sorted_distinct_set_unique [of fst]) (use set inj dl r in \<open>simp_all add: Un_absorb\<close>)
qed

section \<open>Segmented directories\<close>

text \<open>
  A segmented log as a list of pieces, each a first sequence number and the entries of its file.
  \<open>holds\<close> says that a directory stores exactly these pieces; \<open>pieces_ok\<close> that they are in order.
\<close>

type_synonym pieces = "(u64 \<times> audit_entry list) list"

definition all_entries :: "pieces \<Rightarrow> audit_entry list" where
  "all_entries ps = concat (map snd ps)"

definition holds :: "crates \<Rightarrow> dir \<Rightarrow> pieces \<Rightarrow> bool" where
  "holds d files ps \<longleftrightarrow>
     names_segments (map fst files) (fst ` set ps) \<and>
     (\<forall>(f, es) \<in> set ps. map_of files (segment_name f) = Some (file_of d es) \<and>
        list_all (entry_ok d) es)"

fun pieces_ok :: "pieces \<Rightarrow> bool" where
  "pieces_ok [] \<longleftrightarrow> True"
| "pieces_ok ((f, es) # ps) \<longleftrightarrow>
     (\<forall>e \<in> set es. f \<le> e_seq e) \<and> (ps \<noteq> [] \<longrightarrow> es \<noteq> []) \<and>
     (\<forall>(f', _) \<in> set ps. f < f' \<and> (\<forall>e \<in> set es. e_seq e < f')) \<and> pieces_ok ps"

lemma all_entries_simps [simp]:
  "all_entries [] = []"
  "all_entries ((f, es) # ps) = es @ all_entries ps"
  "all_entries (ps @ qs) = all_entries ps @ all_entries qs"
  by (simp_all add: all_entries_def)

lemma pieces_ok_sorted: "pieces_ok ps \<Longrightarrow> sorted_wrt (<) (map fst ps)"
  by (induction ps rule: pieces_ok.induct) auto

lemma holds_listing:
  "holds d files ps \<Longrightarrow> pieces_ok ps \<Longrightarrow>
   list_segments (Some files) = map (\<lambda>(f, _). (f, segment_name f)) ps"
  using segments_of_names_eq [of "map fst files" "map fst ps"] pieces_ok_sorted [of ps]
  by (simp add: holds_def list_segments_def comp_def case_prod_unfold)

lemma holds_read:
  "holds d files ps \<Longrightarrow> (f, es) \<in> set ps \<Longrightarrow> read_path d files (segment_name f) = Inr es"
  by (auto simp: holds_def read_path_def read_all_def)

lemma read_segments_pieces:
  "\<forall>(f, es) \<in> set ps. read_path d files (segment_name f) = Inr es \<Longrightarrow>
   read_segments d files (map (\<lambda>(f, _). (f, segment_name f)) ps) = Inr (all_entries ps)"
  by (induction ps) auto

lemma holds_read_all:
  assumes "holds d files ps" and "pieces_ok ps"
  shows "read_all_segmented d (Some files) = Inr (all_entries ps)"
  using read_segments_pieces [of ps d files] holds_read [OF assms(1)]
  by (auto simp: read_all_segmented_def holds_listing [OF assms])

section \<open>Changing a segmented directory\<close>

lemma map_fst_update_existing:
  "k \<in> set (map fst al) \<Longrightarrow> map fst (AList.update k v al) = map fst al"
  by (simp add: update_keys)

lemma holdsI:
  "names_segments (map fst files) (fst ` set ps) \<Longrightarrow>
   (\<And>f es. (f, es) \<in> set ps \<Longrightarrow>
      map_of files (segment_name f) = Some (file_of d es) \<and> list_all (entry_ok d) es) \<Longrightarrow>
   holds d files ps"
  by (auto simp: holds_def)

lemma holdsD:
  assumes "holds d files ps"
  shows "names_segments (map fst files) (fst ` set ps)"
    and "(f, es) \<in> set ps \<Longrightarrow> map_of files (segment_name f) = Some (file_of d es)"
    and "(f, es) \<in> set ps \<Longrightarrow> list_all (entry_ok d) es"
  using assms by (auto simp: holds_def)

lemma holds_piece_in:
  assumes "holds d files ps" and "(f, es) \<in> set ps"
  shows "segment_name f \<in> set (map fst files)"
  using map_of_SomeD [OF holdsD(2) [OF assms]] by (metis fst_conv image_eqI set_map)

lemma not_first: "f \<notin> fst ` set ps \<Longrightarrow> (g, b) \<in> set ps \<Longrightarrow> g \<noteq> f"
  by force

text \<open>Writing the file of the last piece.\<close>

lemma holds_update_last:
  assumes "holds d files (ps @ [(f, es)])" and "pieces_ok (ps @ [(f, es)])"
    and "list_all (entry_ok d) es'"
  shows "holds d (AList.update (segment_name f) (file_of d es') files) (ps @ [(f, es')])"
proof -
  have "segment_name f \<in> set (map fst files)"
    using holds_piece_in [OF assms(1), of f es] by simp
  then have names: "map fst (AList.update (segment_name f) (file_of d es') files) = map fst files"
    by (rule map_fst_update_existing)
  have "f \<notin> fst ` set ps"
    using pieces_ok_sorted [OF assms(2)] by (auto simp: sorted_wrt_append)
  show ?thesis
  proof (rule holdsI)
    show "names_segments (map fst (AList.update (segment_name f) (file_of d es') files))
        (fst ` set (ps @ [(f, es')]))"
      using holdsD(1) [OF assms(1)] unfolding names by simp
  next
    fix g gs assume g: "(g, gs) \<in> set (ps @ [(f, es')])"
    show "map_of (AList.update (segment_name f) (file_of d es') files) (segment_name g) =
        Some (file_of d gs) \<and> list_all (entry_ok d) gs"
    proof (cases "g = f")
      case True
      with g not_first [OF \<open>f \<notin> fst ` set ps\<close>] assms(3) show ?thesis
        by (auto simp: update_conv')
    next
      case False
      with g holdsD(2,3) [OF assms(1), of g gs] show ?thesis by (auto simp: update_conv')
    qed
  qed
qed

text \<open>A new, empty last piece.\<close>

lemma names_segments_new:
  assumes "names_segments names fs" and "segment_name f \<notin> set names"
  shows "names_segments (names @ [segment_name f]) (insert f fs)"
  using assms by (auto simp: names_segments_def)

lemma holds_touch_new:
  assumes "holds d files ps" and "f \<notin> fst ` set ps"
  shows "holds d (touch (segment_name f) files) (ps @ [(f, [])])"
proof -
  have new: "segment_name f \<notin> set (map fst files)"
    using holdsD(1) [OF assms(1)] assms(2) parse_segment_name [of f]
    unfolding names_segments_def by blast
  then have "map_of files (segment_name f) = None" by (simp add: map_of_eq_None_iff)
  then have t: "touch (segment_name f) files = AList.update (segment_name f) [] files"
    by (simp add: touch_def)
  have names: "map fst (AList.update (segment_name f) [] files) = map fst files @ [segment_name f]"
    using new by (simp add: update_keys)
  show ?thesis unfolding t
  proof (rule holdsI)
    show "names_segments (map fst (AList.update (segment_name f) [] files))
        (fst ` set (ps @ [(f, [])]))"
      using names_segments_new [OF holdsD(1) [OF assms(1)] new] unfolding names by simp
  next
    fix g gs assume g: "(g, gs) \<in> set (ps @ [(f, [])])"
    show "map_of (AList.update (segment_name f) [] files) (segment_name g) =
        Some (file_of d gs) \<and> list_all (entry_ok d) gs"
    proof (cases "g = f")
      case True
      with g not_first [OF assms(2)] show ?thesis by (auto simp: update_conv')
    next
      case False
      with g holdsD(2,3) [OF assms(1), of g gs] show ?thesis by (auto simp: update_conv')
    qed
  qed
qed

lemma touch_existing: "map_of files p = Some c \<Longrightarrow> touch p files = files"
  by (simp add: touch_def)

text \<open>Deleting the file of the first piece.\<close>

lemma names_segments_delete:
  "names_segments names (insert f fs) \<Longrightarrow> f \<notin> fs \<Longrightarrow>
   names_segments (removeAll (segment_name f) names) fs"
proof (rule names_segmentsI)
  assume n: "names_segments names (insert f fs)" and f: "f \<notin> fs"
  show "distinct (removeAll (segment_name f) names)"
    by (rule distinct_removeAll) (rule names_segmentsD(1) [OF n])
  show "m = segment_name g \<and> g \<in> fs"
    if "m \<in> set (removeAll (segment_name f) names)" "parse_segment_first_seq m = Some g" for m g
    using names_segmentsD(2) [OF n _ that(2)] that(1) by auto
  show "segment_name g \<in> set (removeAll (segment_name f) names)" if "g \<in> fs" for g
    using names_segmentsD(3) [OF n, of g] that f by auto
qed

lemma holds_delete_first:
  assumes "holds d files ((f, es) # ps)" and "pieces_ok ((f, es) # ps)"
  shows "holds d (AList.delete (segment_name f) files) ps"
proof (rule holdsI)
  have f: "f \<notin> fst ` set ps" using assms(2) by auto
  then show "names_segments (map fst (AList.delete (segment_name f) files)) (fst ` set ps)"
    using names_segments_delete [of "map fst files" f] holdsD(1) [OF assms(1)]
    by (simp add: delete_keys)
  fix g gs assume g: "(g, gs) \<in> set ps"
  then show "map_of (AList.delete (segment_name f) files) (segment_name g) =
      Some (file_of d gs) \<and> list_all (entry_ok d) gs"
    using holdsD(2,3) [OF assms(1), of g gs] not_first [OF f g] by (auto simp: delete_conv')
qed

lemma pieces_ok_append_entry:
  "pieces_ok (ps @ [(f, es)]) \<Longrightarrow> f \<le> e_seq e \<Longrightarrow> pieces_ok (ps @ [(f, es @ [e])])"
  by (induction ps rule: pieces_ok.induct) auto

lemma pieces_ok_last_first: "pieces_ok (ps @ [(f, es)]) \<Longrightarrow> e \<in> set es \<Longrightarrow> f \<le> e_seq e"
  by (induction ps rule: pieces_ok.induct) auto

lemma pieces_ok_append_piece:
  "pieces_ok (ps @ [(g, es)]) \<Longrightarrow> es \<noteq> [] \<Longrightarrow> \<forall>x \<in> set (all_entries (ps @ [(g, es)])). e_seq x < f \<Longrightarrow>
   pieces_ok (ps @ [(g, es), (f, [])])"
proof (induction ps)
  case Nil
  then obtain e where "e \<in> set es" by (cases es) auto
  with Nil have "g < f" by (auto intro: le_less_trans)
  with Nil show ?case by auto
next
  case (Cons p ps)
  obtain h hs where p: "p = (h, hs)" by (cases p)
  with Cons.prems have "hs \<noteq> []" by auto
  then obtain e where "e \<in> set hs" by (cases hs) auto
  with Cons.prems p have "h < f" by (auto intro: le_less_trans)
  with Cons p show ?case by auto
qed

section \<open>The segmented store satisfies the laws\<close>

text \<open>
  \<open>seg_rep d s ps\<close>: the store \<open>s\<close> stands for the pieces \<open>ps\<close>. The last of them is the open file; if
  it is empty (a fresh store, or a rotation whose first write failed), it is named after the
  entry that comes next.
\<close>

definition last_ok :: "pieces \<Rightarrow> bool" where
  "last_ok ps \<longleftrightarrow> (snd (last ps) = [] \<longrightarrow> fst (last ps) = next_seq (all_entries ps))"

definition seg_rep :: "crates \<Rightarrow> seg_store \<Rightarrow> pieces \<Rightarrow> bool" where
  "seg_rep d s ps \<longleftrightarrow>
     holds d (sg_dir s) ps \<and> pieces_ok ps \<and> last_ok ps \<and> ps \<noteq> [] \<and>
     fst (last ps) = sg_cur_first s \<and> sg_file s = segment_name (sg_cur_first s) \<and>
     unat (sg_cur_count s) = length (snd (last ps)) \<and>
     sg_tail s = tail_of (all_entries ps) \<and> 0 < sg_max_entries s"

definition seg_inv :: "crates \<Rightarrow> seg_store \<Rightarrow> bool" where
  "seg_inv d s \<longleftrightarrow> (\<exists>ps. seg_rep d s ps)"

definition seg_entries :: "crates \<Rightarrow> seg_store \<Rightarrow> audit_entry list" where
  "seg_entries d s =
     (case read_all_segmented d (Some (sg_dir s)) of Inl _ \<Rightarrow> [] | Inr es \<Rightarrow> es)"

lemma seg_repI:
  "holds d (sg_dir s) (qs @ [(g, es)]) \<Longrightarrow> pieces_ok (qs @ [(g, es)]) \<Longrightarrow>
   (es = [] \<Longrightarrow> g = next_seq (all_entries qs)) \<Longrightarrow> sg_cur_first s = g \<Longrightarrow>
   sg_file s = segment_name g \<Longrightarrow> unat (sg_cur_count s) = length es \<Longrightarrow>
   sg_tail s = tail_of (all_entries qs @ es) \<Longrightarrow> 0 < sg_max_entries s \<Longrightarrow>
   seg_rep d s (qs @ [(g, es)])"
  by (auto simp: seg_rep_def last_ok_def)

lemma seg_repE:
  assumes "seg_rep d s ps"
  obtains qs g es where "ps = qs @ [(g, es)]" and "holds d (sg_dir s) (qs @ [(g, es)])"
    and "pieces_ok (qs @ [(g, es)])" and "es = [] \<Longrightarrow> g = next_seq (all_entries qs)"
    and "sg_cur_first s = g" and "sg_file s = segment_name g"
    and "unat (sg_cur_count s) = length es" and "sg_tail s = tail_of (all_entries qs @ es)"
    and "0 < sg_max_entries s"
proof -
  have "ps \<noteq> []" using assms by (simp add: seg_rep_def)
  then obtain qs p where "ps = qs @ [p]" by (cases ps rule: rev_cases) blast
  moreover obtain g es where "p = (g, es)" by (cases p)
  ultimately have ps: "ps = qs @ [(g, es)]" by simp
  have "seg_rep d s (qs @ [(g, es)])" using assms ps by simp
  then have "holds d (sg_dir s) (qs @ [(g, es)])" "pieces_ok (qs @ [(g, es)])"
    "es = [] \<longrightarrow> g = next_seq (all_entries qs)" "sg_cur_first s = g"
    "sg_file s = segment_name g" "unat (sg_cur_count s) = length es"
    "sg_tail s = tail_of (all_entries qs @ es)" "0 < sg_max_entries s"
    unfolding seg_rep_def last_ok_def by auto
  with ps that show thesis by blast
qed

lemma seg_rep_entries: "seg_rep d s ps \<Longrightarrow> seg_entries d s = all_entries ps"
  using holds_read_all [of d "sg_dir s" ps] by (simp add: seg_rep_def seg_entries_def)

lemma seg_rep_inv: "seg_rep d s ps \<Longrightarrow> seg_inv d s \<and> seg_entries d s = all_entries ps"
  by (auto simp: seg_inv_def seg_rep_entries)

text \<open>
  All pieces but the last hold exactly \<open>m\<close> entries and the last at most \<open>m\<close>; what an append does to
  a store keeps this, for the store's own bound.
\<close>

definition filled :: "nat \<Rightarrow> pieces \<Rightarrow> bool" where
  "filled m ps \<longleftrightarrow>
     (\<forall>p \<in> set (butlast ps). length (snd p) = m) \<and> (\<forall>p \<in> set ps. length (snd p) \<le> m)"

definition grows :: "seg_store \<Rightarrow> pieces \<Rightarrow> seg_store \<Rightarrow> pieces \<Rightarrow> bool" where
  "grows s ps s' ps' \<longleftrightarrow> sg_max_entries s' = sg_max_entries s \<and>
     (filled (unat (sg_max_entries s)) ps \<longrightarrow> filled (unat (sg_max_entries s)) ps')"

lemma grows_refl: "sg_max_entries s' = sg_max_entries s \<Longrightarrow> grows s ps s' ps"
  by (simp add: grows_def)

lemma grows_trans: "grows s ps s' ps' \<Longrightarrow> grows s' ps' s'' ps'' \<Longrightarrow> grows s ps s'' ps''"
  by (simp add: grows_def)

lemma rotate_rep:
  assumes "seg_rep d s ps" and "follows (all_entries ps) e"
    and "sg_cur_count s \<ge> sg_max_entries s" and "rotate_to (e_seq e) v s = (r, s1)"
  shows "\<exists>ps1. seg_rep d s1 ps1 \<and> all_entries ps1 = all_entries ps \<and>
    grows s ps s1 ps1 \<and> (r = Inr () \<longrightarrow> sg_cur_count s1 < sg_max_entries s1)"
proof (cases "env_fault v = OpenFault")
  case True
  with assms(1,4) show ?thesis by (auto simp: rotate_to_def intro: grows_refl)
next
  case False
  from assms(1) obtain qs g es where ps: "ps = qs @ [(g, es)]"
    and holds: "holds d (sg_dir s) ps" and ok: "pieces_ok ps"
    and count: "unat (sg_cur_count s) = length es" and tail: "sg_tail s = tail_of (all_entries ps)"
    and max: "0 < sg_max_entries s"
    by (elim seg_repE) auto
  have s1: "s1 = s\<lparr>sg_dir := touch (segment_name (e_seq e)) (sg_dir s),
      sg_file := segment_name (e_seq e), sg_cur_first := e_seq e, sg_cur_count := 0\<rparr>"
    using assms(4) False by (simp add: rotate_to_def Let_def)
  have "0 < unat (sg_cur_count s)"
    using max assms(3) by (metis order_less_le_trans unat_gt_0 word_gt_0)
  with count have ne: "es \<noteq> []" by auto
  have ok1: "pieces_ok (ps @ [(e_seq e, [])])"
    using pieces_ok_append_piece [of qs g es "e_seq e"] ok ne followsD(2) [OF assms(2)]
    by (simp add: ps)
  then have "e_seq e \<notin> fst ` set ps"
    using pieces_ok_sorted [OF ok1] by (auto simp: sorted_wrt_append)
  then have "holds d (sg_dir s1) (ps @ [(e_seq e, [])])"
    using holds_touch_new [OF holds] s1 by simp
  moreover note followsD(1) [OF assms(2)]
  ultimately have "seg_rep d s1 (ps @ [(e_seq e, [])])"
    using ok1 tail max s1 by (intro seg_repI) simp_all
  moreover have "sg_cur_count s1 < sg_max_entries s1" using s1 max by simp
  moreover have "grows s ps s1 (ps @ [(e_seq e, [])])"
    using assms(3) count s1 ps unfolding grows_def filled_def word_le_nat_alt by (auto simp: butlast_append)
  ultimately show ?thesis by (intro exI [of _ "ps @ [(e_seq e, [])]"]) simp
qed

lemma count_append:
  assumes "unat (c :: u64) = length es" and "c < m"
  shows "unat (c + 1) = length (es @ [e])"
proof -
  have "unat m < 2 ^ LENGTH(64)" by (rule unsigned_less)
  then have "unat c + 1 < 2 ^ 64" using assms(2) unfolding word_less_nat_alt by simp
  then show ?thesis using assms(1) by (simp add: unat_word_ariths(1))
qed

lemma write_rep:
  assumes "seg_rep d s ps" and "follows (all_entries ps) e"
    and "sg_cur_count s < sg_max_entries s" and "seg_append d e v s = (r, s')"
  shows "r = Inr () \<Longrightarrow> entry_ok d e \<Longrightarrow> \<exists>ps'. seg_rep d s' ps' \<and>
      grows s ps s' ps' \<and> all_entries ps' = all_entries ps @ [e]"
    and "r = Inl er \<Longrightarrow> clean_fault (env_fault v) \<Longrightarrow>
      \<exists>ps'. seg_rep d s' ps' \<and> grows s ps s' ps' \<and> all_entries ps' = all_entries ps"
proof -
  from assms(1) obtain qs g es where ps: "ps = qs @ [(g, es)]"
    and rep: "holds d (sg_dir s) (qs @ [(g, es)])" "pieces_ok (qs @ [(g, es)])"
      "es = [] \<Longrightarrow> g = next_seq (all_entries qs)" "sg_cur_first s = g"
      "sg_file s = segment_name g" "unat (sg_cur_count s) = length es"
      "sg_tail s = tail_of (all_entries qs @ es)" "0 < sg_max_entries s"
    by (elim seg_repE) auto
  have content: "map_of (sg_dir s) (segment_name g) = Some (file_of d es)"
    and es: "list_all (entry_ok d) es"
    using holdsD(2,3) [OF rep(1), of g es] by simp_all
  have first: "g \<le> e_seq e"
  proof (cases es)
    case Nil
    with rep(3) ps followsD(1) [OF assms(2)] show ?thesis by simp
  next
    case (Cons x xs)
    with pieces_ok_last_first [OF rep(2)] have "g \<le> e_seq x" by simp
    also have "e_seq x < e_seq e" using followsD(2) [OF assms(2)] ps Cons by simp
    finally show ?thesis by simp
  qed
  have full: "\<not> sg_max_entries s \<le> sg_cur_count s" using assms(3) by simp
  have append: "(case write_line (file_of d es) (entry_line d e) v of
       (Inl er, c) \<Rightarrow> (Inl er, s\<lparr>sg_dir := AList.update (segment_name g) c (sg_dir s)\<rparr>)
     | (Inr _, c) \<Rightarrow>
         (Inr (), s\<lparr>sg_dir := AList.update (segment_name g) c (sg_dir s),
                    sg_cur_count := sg_cur_count s + 1, sg_tail := Some (entry_key e)\<rparr>)) = (r, s')"
    using assms(4) rep(5) content full
    by (auto simp: seg_append_def Let_def entry_key_def entry_line_def entry_text_def
        split: prod.splits sum.splits)
  show "\<exists>ps'. seg_rep d s' ps' \<and> grows s ps s' ps' \<and> all_entries ps' = all_entries ps @ [e]"
    if "r = Inr ()" "entry_ok d e"
  proof -
    have s': "s' = s\<lparr>sg_dir := AList.update (segment_name g) (file_of d (es @ [e])) (sg_dir s),
        sg_cur_count := sg_cur_count s + 1, sg_tail := Some (entry_key e)\<rparr>"
      using append that(1)
      by (auto simp: write_line_def split: fault.splits)
    moreover have "holds d (AList.update (segment_name g) (file_of d (es @ [e])) (sg_dir s))
        (qs @ [(g, es @ [e])])"
      using holds_update_last [OF rep(1,2), of "es @ [e]"] es that(2) by simp
    moreover have "pieces_ok (qs @ [(g, es @ [e])])"
      using pieces_ok_append_entry [OF rep(2) first] .
    ultimately have "seg_rep d s' (qs @ [(g, es @ [e])])"
      using rep(4,5,8) count_append [OF rep(6) assms(3), of e] 
      by (intro seg_repI) (simp_all flip: append_assoc)
    moreover have "grows s ps s' (qs @ [(g, es @ [e])])"
      using s' ps assms(3) rep(6) unfolding grows_def filled_def word_less_nat_alt by auto
    ultimately show ?thesis by (intro exI [of _ "qs @ [(g, es @ [e])]"]) (simp add: ps)
  qed
  show "\<exists>ps'. seg_rep d s' ps' \<and> grows s ps s' ps' \<and> all_entries ps' = all_entries ps"
    if "r = Inl er" "clean_fault (env_fault v)"
  proof -
    have s': "s' = s\<lparr>sg_dir := AList.update (segment_name g) (file_of d es) (sg_dir s)\<rparr>"
      using append that
      by (auto simp: write_line_def clean_fault_def split: fault.splits)
    moreover have "holds d (AList.update (segment_name g) (file_of d es) (sg_dir s)) ps"
      using holds_update_last [OF rep(1,2) es] ps by simp
    ultimately have "seg_rep d s' ps" using assms(1) by (simp add: seg_rep_def)
    moreover have "grows s ps s' ps" using s' by (intro grows_refl) simp
    ultimately show ?thesis by blast
  qed
qed

text \<open>An append is a rotation, when the open segment is full, and a write.\<close>

lemma seg_append_rotate:
  "sg_max_entries s \<le> sg_cur_count s \<Longrightarrow> rotate_to (e_seq e) v s = (Inr (), s1) \<Longrightarrow>
   sg_cur_count s1 < sg_max_entries s1 \<Longrightarrow> seg_append d e v s = seg_append d e v s1"
  using leD [of "sg_max_entries s1" "sg_cur_count s1"] by (auto simp: seg_append_def)

lemma seg_append_cases:
  assumes "seg_rep d s ps" and "follows (all_entries ps) e" and "seg_append d e v s = (r, s')"
  obtains ps1 s1 where "seg_rep d s1 ps1" and "all_entries ps1 = all_entries ps"
      and "sg_cur_count s1 < sg_max_entries s1" and "seg_append d e v s1 = (r, s')"
      and "grows s ps s1 ps1"
    | ps1 er where "r = Inl er" and "seg_rep d s' ps1" and "all_entries ps1 = all_entries ps"
      and "grows s ps s' ps1"
proof (cases "sg_max_entries s \<le> sg_cur_count s")
  case False
  with assms that(1) [of s ps] show thesis by (simp add: not_le grows_refl)
next
  case True
  obtain r1 s1 where rot: "rotate_to (e_seq e) v s = (r1, s1)" by (cases "rotate_to (e_seq e) v s")
  obtain ps1 where ps1: "seg_rep d s1 ps1" "all_entries ps1 = all_entries ps"
      "r1 = Inr () \<longrightarrow> sg_cur_count s1 < sg_max_entries s1" "grows s ps s1 ps1"
    using rotate_rep [OF assms(1,2) True rot] by blast
  show thesis
  proof (cases r1)
    case (Inl er)
    with True rot assms(3) have "r = Inl er" "s' = s1" by (simp_all add: seg_append_def)
    with ps1 that(2) show thesis by blast
  next
    case (Inr u)
    with ps1 rot assms(3) that(1) seg_append_rotate [OF True, of e v s1 d] show thesis by auto
  qed
qed

lemma seg_append_rep:
  assumes "seg_rep d s ps" and "follows (all_entries ps) e" and "seg_append d e v s = (r, s')"
  shows "r = Inr () \<Longrightarrow> entry_ok d e \<Longrightarrow> \<exists>ps'. seg_rep d s' ps' \<and> grows s ps s' ps' \<and>
      all_entries ps' = all_entries ps @ [e]"
    and "r = Inl er \<Longrightarrow> clean_fault (env_fault v) \<Longrightarrow> \<exists>ps'. seg_rep d s' ps' \<and>
      grows s ps s' ps' \<and> all_entries ps' = all_entries ps"
proof -
  show "\<exists>ps'. seg_rep d s' ps' \<and> grows s ps s' ps' \<and> all_entries ps' = all_entries ps @ [e]"
    if "r = Inr ()" "entry_ok d e"
    using assms
  proof (cases rule: seg_append_cases)
    case (1 ps1 s1)
    with write_rep(1) [OF 1(1) _ 1(3,4) that] assms(2) show ?thesis by (metis grows_trans)
  qed (use that(1) in simp)
  show "\<exists>ps'. seg_rep d s' ps' \<and> grows s ps s' ps' \<and> all_entries ps' = all_entries ps"
    if "r = Inl er" "clean_fault (env_fault v)"
    using assms
  proof (cases rule: seg_append_cases)
    case (1 ps1 s1)
    with write_rep(2) [OF 1(1) _ 1(3,4) that] assms(2) show ?thesis by (metis grows_trans)
  qed blast
qed

lemma seg_append_inv:
  assumes "seg_inv d s" and "follows (seg_entries d s) e" and "seg_append d e v s = (r, s')"
  shows "r = Inr () \<Longrightarrow> entry_ok d e \<Longrightarrow> seg_inv d s' \<and> seg_entries d s' = seg_entries d s @ [e]"
    and "r = Inl er \<Longrightarrow> clean_fault (env_fault v) \<Longrightarrow>
      seg_inv d s' \<and> seg_entries d s' = seg_entries d s"
proof -
  from assms(1) obtain ps where ps: "seg_rep d s ps" by (auto simp: seg_inv_def)
  with assms(2) seg_rep_entries have fol: "follows (all_entries ps) e" by simp
  show "r = Inr () \<Longrightarrow> entry_ok d e \<Longrightarrow> seg_inv d s' \<and> seg_entries d s' = seg_entries d s @ [e]"
    using seg_append_rep(1) [OF ps fol assms(3)] seg_rep_inv seg_rep_entries [OF ps] by metis
  show "r = Inl er \<Longrightarrow> clean_fault (env_fault v) \<Longrightarrow> seg_inv d s' \<and> seg_entries d s' = seg_entries d s"
    using seg_append_rep(2) [OF ps fol assms(3)] seg_rep_inv seg_rep_entries [OF ps] by metis
qed

interpretation seg_st: chain_store "seg_ops d" "seg_inv d" "seg_entries d" "entry_ok d" for d
proof unfold_locales
  fix s assume "seg_inv d s"
  then obtain ps where "seg_rep d s ps" by (auto simp: seg_inv_def)
  then show "st_tail (seg_ops d) s = Inr (tail_of (seg_entries d s))"
    by (simp add: seg_ops_def seg_rep_entries) (simp add: seg_rep_def)
next
  fix s e v s'
  assume "seg_inv d s" and e: "entry_ok d e" "follows (seg_entries d s) e"
    and "st_append (seg_ops d) e v s = (Inr (), s')"
  then show "seg_inv d s' \<and> seg_entries d s' = seg_entries d s @ [e]"
    using seg_append_inv(1) [of d s e v "Inr ()" s'] by (simp add: seg_ops_def)
next
  fix s e v er s'
  assume "seg_inv d s" and "follows (seg_entries d s) e" and "clean_fault (env_fault v)"
    and "st_append (seg_ops d) e v s = (Inl er, s')"
  then show "seg_inv d s' \<and> seg_entries d s' = seg_entries d s"
    using seg_append_inv(2) [of d s e v "Inl er" s'] by (simp add: seg_ops_def)
next
  fix s e and v :: env
  assume "env_fault v = NoFault"
  then show "fst (st_append (seg_ops d) e v s) = Inr ()"
    by (simp add: seg_ops_def seg_append_def rotate_to_def write_line_def Let_def)
qed

lemma seg_inv_read:
  assumes "seg_inv d s"
  shows "read_all_segmented d (Some (sg_dir s)) = Inr (seg_entries d s)"
proof -
  obtain ps where ps: "seg_rep d s ps" using assms by (auto simp: seg_inv_def)
  then have "holds d (sg_dir s) ps" "pieces_ok ps" by (simp_all add: seg_rep_def)
  with ps seg_rep_entries show ?thesis by (simp add: holds_read_all)
qed

section \<open>How full the segments are\<close>

text \<open>
  The same laws for a stronger invariant: a store that holds \<open>m\<close> entries per segment has filled every
  segment but the last.
\<close>

definition seg_filled :: "crates \<Rightarrow> u64 \<Rightarrow> seg_store \<Rightarrow> bool" where
  "seg_filled d m s \<longleftrightarrow>
     sg_max_entries s = m \<and> (\<exists>ps. seg_rep d s ps \<and> filled (unat m) ps)"

lemma seg_filled_inv [intro]: "seg_filled d m s \<Longrightarrow> seg_inv d s"
  by (auto simp: seg_filled_def seg_inv_def)

lemma seg_filledI:
  "seg_rep d s ps \<Longrightarrow> filled (unat (sg_max_entries s)) ps \<Longrightarrow> grows s ps s' ps' \<Longrightarrow>
   seg_rep d s' ps' \<Longrightarrow> seg_filled d (sg_max_entries s) s'"
  by (auto simp: seg_filled_def grows_def)

lemma seg_append_filled:
  assumes "seg_filled d m s" and "follows (seg_entries d s) e" and "seg_append d e v s = (r, s')"
  shows "r = Inr () \<Longrightarrow> entry_ok d e \<Longrightarrow> seg_filled d m s'"
    and "r = Inl er \<Longrightarrow> clean_fault (env_fault v) \<Longrightarrow> seg_filled d m s'"
proof -
  from assms(1) obtain ps where ps: "seg_rep d s ps" and m: "sg_max_entries s = m"
    and filled: "filled (unat (sg_max_entries s)) ps"
    by (auto simp: seg_filled_def)
  have fol: "follows (all_entries ps) e" using assms(2) seg_rep_entries [OF ps] by simp
  show "seg_filled d m s'" if "r = Inr ()" "entry_ok d e"
    using seg_append_rep(1) [OF ps fol assms(3) that] seg_filledI [OF ps filled] m by metis
  show "seg_filled d m s'" if "r = Inl er" "clean_fault (env_fault v)"
    using seg_append_rep(2) [OF ps fol assms(3) that] seg_filledI [OF ps filled] m by metis
qed

interpretation seg_full: chain_store "seg_ops d" "seg_filled d m" "seg_entries d" "entry_ok d"
  for d m
proof unfold_locales
  fix s assume "seg_filled d m s"
  then show "st_tail (seg_ops d) s = Inr (tail_of (seg_entries d s))"
    using seg_st.tail_law by blast
next
  fix s e v s'
  assume "seg_filled d m s" and "entry_ok d e" and "follows (seg_entries d s) e"
    and "st_append (seg_ops d) e v s = (Inr (), s')"
  then show "seg_filled d m s' \<and> seg_entries d s' = seg_entries d s @ [e]"
    using seg_append_filled(1) [of d m s e v "Inr ()" s'] seg_append_inv(1) [of d s e v "Inr ()" s']
    by (auto simp: seg_ops_def)
next
  fix s e v er s'
  assume "seg_filled d m s" and "follows (seg_entries d s) e" and "clean_fault (env_fault v)"
    and "st_append (seg_ops d) e v s = (Inl er, s')"
  then show "seg_filled d m s' \<and> seg_entries d s' = seg_entries d s"
    using seg_append_filled(2) [of d m s e v "Inl er" s'] seg_append_inv(2) [of d s e v "Inl er" s']
    by (auto simp: seg_ops_def)
next
  fix s e and v :: env
  assume "seg_filled d m s" and "env_fault v = NoFault"
  then show "fst (st_append (seg_ops d) e v s) = Inr ()"
    using seg_st.append_succeeds by blast
qed

text \<open>What that means for the files that a listing finds.\<close>

lemma filled_sizes:
  assumes "filled m ps" and "ps \<noteq> []"
  obtains full rest where "map (length \<circ> snd) ps = replicate full m @ [rest]" and "rest \<le> m"
    and "full * m + rest = length (all_entries ps)"
proof -
  obtain qs g es where ps: "ps = qs @ [(g, es)]"
    using assms(2) by (metis rev_exhaust surj_pair)
  with assms(1) have full: "\<forall>q \<in> set qs. length (snd q) = m" "length es \<le> m"
    by (simp_all add: filled_def)
  from full(1) have "map (length \<circ> snd) qs = replicate (length qs) m"
      "length (all_entries qs) = length qs * m"
    by (induction qs) auto
  with ps full(2) that [of "length qs" "length es"] show thesis by simp
qed

lemma seg_filled_sizes:
  assumes "seg_filled d m s"
  shows "\<exists>full rest. map (\<lambda>(_, p). map_sum id length (read_path d (sg_dir s) p))
        (list_segments (Some (sg_dir s))) = map Inr (replicate full (unat m) @ [rest]) \<and>
    rest \<le> unat m \<and> full * unat m + rest = length (seg_entries d s)"
proof -
  from assms obtain ps where rep: "seg_rep d s ps" and filled: "filled (unat m) ps"
    by (auto simp: seg_filled_def)
  from rep have ps: "holds d (sg_dir s) ps" "pieces_ok ps" "ps \<noteq> []" by (simp_all add: seg_rep_def)
  have "map (\<lambda>(_, p). map_sum id length (read_path d (sg_dir s) p))
      (list_segments (Some (sg_dir s))) = map Inr (map (length \<circ> snd) ps)"
    unfolding holds_listing [OF ps(1,2)] using holds_read [OF ps(1)] by auto
  with filled_sizes [OF filled ps(3)] seg_rep_entries [OF rep] show ?thesis by metis
qed

end
