(* ===== verification/Crypto.thy ===== *)
theory Crypto
  imports Entry
begin

text \<open>
  Envelope encryption of PII (\<open>crates/core/src/crypto.rs\<close>): wrapping of data keys, the trait
  \<open>KeyProvider\<close> (a record of its two operations over the provider's state, and the locale
  \<open>key_provider\<close> of the laws its users rely on), \<open>LocalKeyProvider\<close>, and \<open>seal\<close> and \<open>open\<close>.
\<close>

abbreviation KEY_LEN :: nat where "KEY_LEN \<equiv> 32"
abbreviation NONCE_LEN :: nat where "NONCE_LEN \<equiv> 24"

definition random_bytes :: "nat \<Rightarrow> env \<Rightarrow> bytes result \<times> env" where
  "random_bytes n v =
     (case getrandom n v of
        (None, v') \<Rightarrow> (Inl (Crypto ''rng failure: ''), v')
      | (Some bs, v') \<Rightarrow> (Inr bs, v'))"

definition wrap_with_key :: "crates \<Rightarrow> bytes \<Rightarrow> bytes \<Rightarrow> env \<Rightarrow> bytes result \<times> env" where
  "wrap_with_key d key dek v =
     (case random_bytes NONCE_LEN v of
        (Inl e, v') \<Rightarrow> (Inl e, v')
      | (Inr nonce, v') \<Rightarrow>
          (case xc_encrypt d key nonce dek of
             None \<Rightarrow> (Inl (Crypto ''wrap dek: ''), v')
           | Some ct \<Rightarrow> (Inr (nonce @ ct), v')))"

definition unwrap_with_key :: "crates \<Rightarrow> bytes \<Rightarrow> bytes \<Rightarrow> bytes result" where
  "unwrap_with_key d key wrapped =
     (if length wrapped < NONCE_LEN then Inl (Crypto ''wrapped dek too short'')
      else let nonce = take NONCE_LEN wrapped; ct = drop NONCE_LEN wrapped in
           ok_or (Crypto ''unwrap dek (wrong key or tampered?): '') (xc_decrypt d key nonce ct))"

section \<open>The trait \<open>KeyProvider\<close>\<close>

record 'k key_ops =
  wrap_dek :: "'k \<Rightarrow> string \<Rightarrow> bytes \<Rightarrow> env \<Rightarrow> bytes result \<times> 'k \<times> env"
  unwrap_dek :: "'k \<Rightarrow> string \<Rightarrow> bytes \<Rightarrow> bytes result"

section \<open>Sealing and opening\<close>

definition seal ::
  "crates \<Rightarrow> 'k key_ops \<Rightarrow> 'k \<Rightarrow> string \<Rightarrow> json \<Rightarrow> env \<Rightarrow> encrypted_pii result \<times> 'k \<times> env" where
  "seal d ops provider kid pii v =
     (case random_bytes KEY_LEN v of
        (Inl e, v1) \<Rightarrow> (Inl e, provider, v1)
      | (Inr dek, v1) \<Rightarrow>
     (case random_bytes NONCE_LEN v1 of
        (Inl e, v2) \<Rightarrow> (Inl e, provider, v2)
      | (Inr nonce, v2) \<Rightarrow>
          let plaintext = sj_to_vec d pii in
     (case xc_encrypt d dek nonce plaintext of
        None \<Rightarrow> (Inl (Crypto ''seal pii: ''), provider, v2)
      | Some ct \<Rightarrow>
     (case wrap_dek ops provider kid dek v2 of
        (Inl e, provider', v3) \<Rightarrow> (Inl e, provider', v3)
      | (Inr wrapped, provider', v3) \<Rightarrow>
          (Inr \<lparr>key_id = kid, wrapped_dek = b64_encode d wrapped,
                pii_nonce = b64_encode d nonce, ciphertext = b64_encode d ct\<rparr>, provider', v3)))))"

text \<open>
  \<open>XNonce::from_slice\<close> panics when the slice is not 24 bytes long, and \<open>open\<close> does not check the
  length of the decoded nonce.
\<close>

definition open_pii :: "crates \<Rightarrow> 'k key_ops \<Rightarrow> 'k \<Rightarrow> encrypted_pii \<Rightarrow> json result exec" where
  "open_pii d ops provider sealed_pii =
     (case b64_decode d (wrapped_dek sealed_pii) of
        None \<Rightarrow> Ret (Inl Base64)
      | Some wrapped \<Rightarrow>
     (case b64_decode d (pii_nonce sealed_pii) of
        None \<Rightarrow> Ret (Inl Base64)
      | Some nonce \<Rightarrow>
     (case b64_decode d (ciphertext sealed_pii) of
        None \<Rightarrow> Ret (Inl Base64)
      | Some ct \<Rightarrow>
     (case unwrap_dek ops provider (key_id sealed_pii) wrapped of
        Inl e \<Rightarrow> Ret (Inl e)
      | Inr dek \<Rightarrow>
          if length dek \<noteq> KEY_LEN then Ret (Inl (Crypto ''unwrapped dek has wrong length''))
          else if length nonce \<noteq> NONCE_LEN then Panic
          else
     (case xc_decrypt d dek nonce ct of
        None \<Rightarrow> Ret (Inl (Crypto ''open pii (wrong key or tampered?): ''))
      | Some plaintext \<Rightarrow>
     (case sj_from_slice d plaintext of
        None \<Rightarrow> Ret (Inl Serde)
      | Some j \<Rightarrow> Ret (Inr (value_of j))))))))"

lemma open_pii_Inr:
  "open_pii d ops k s = Ret (Inr x) \<longleftrightarrow>
     (\<exists>w n ct dek pt j. b64_decode d (wrapped_dek s) = Some w \<and> b64_decode d (pii_nonce s) = Some n \<and>
        b64_decode d (ciphertext s) = Some ct \<and> unwrap_dek ops k (key_id s) w = Inr dek \<and>
        length dek = KEY_LEN \<and> length n = NONCE_LEN \<and> xc_decrypt d dek n ct = Some pt \<and>
        sj_from_slice d pt = Some j \<and> x = value_of j)"
  by (auto simp: open_pii_def split: option.splits sum.splits if_splits)

section \<open>\<open>LocalKeyProvider\<close>\<close>

record local_key_provider =
  master :: bytes

definition local_new :: "bytes \<Rightarrow> local_key_provider" where
  "local_new m = \<lparr>master = m\<rparr>"

definition local_generate :: "env \<Rightarrow> local_key_provider result" where
  "local_generate v =
     (case fst (random_bytes KEY_LEN v) of Inl e \<Rightarrow> Inl e | Inr m \<Rightarrow> Inr \<lparr>master = m\<rparr>)"

definition local_from_base64 :: "crates \<Rightarrow> string \<Rightarrow> local_key_provider result" where
  "local_from_base64 d s =
     (case b64_decode d (trim_str s) of
        None \<Rightarrow> Inl Base64
      | Some raw \<Rightarrow>
          if length raw \<noteq> KEY_LEN
          then Inl (Key (''master key must be '' @ show_nat KEY_LEN @ '' bytes, got '' @
                         show_nat (length raw)))
          else Inr \<lparr>master = raw\<rparr>)"

definition local_to_base64 :: "crates \<Rightarrow> local_key_provider \<Rightarrow> string" where
  "local_to_base64 d p = b64_encode d (master p)"

definition local_ops :: "crates \<Rightarrow> local_key_provider key_ops" where
  "local_ops d =
     \<lparr>wrap_dek = (\<lambda>p kid dek v. case wrap_with_key d (master p) dek v of (r, v') \<Rightarrow> (r, p, v')),
      unwrap_dek = (\<lambda>p kid wrapped. unwrap_with_key d (master p) wrapped)\<rparr>"

section \<open>The laws of a key provider\<close>

text \<open>
  What the engine and the readers rely on: a wrapped key can be unwrapped under the same
  \<open>key_id\<close>, and later wraps (which may mint keys) never take that away.
\<close>

locale key_provider =
  fixes ops :: "'k key_ops" and inv :: "'k \<Rightarrow> bool"
  assumes wrap_inv: "inv k \<Longrightarrow> wrap_dek ops k i dek v = (r, k', v') \<Longrightarrow> inv k'"
    and wrap_unwrap:
      "inv k \<Longrightarrow> wrap_dek ops k i dek v = (Inr w, k', v') \<Longrightarrow> unwrap_dek ops k' i w = Inr dek"
    and wrap_keeps:
      "inv k \<Longrightarrow> wrap_dek ops k i dek v = (r, k', v') \<Longrightarrow> unwrap_dek ops k j w = Inr x \<Longrightarrow>
       unwrap_dek ops k' j w = Inr x"
begin

lemma seal_inv: "inv k \<Longrightarrow> seal d ops k i p v = (r, k', v') \<Longrightarrow> inv k'"
  by (auto simp: seal_def Let_def split: prod.splits sum.splits option.splits dest: wrap_inv)

text \<open>What was opened before a seal is still opened, with the same result, after it.\<close>

lemma seal_keeps_open:
  assumes "inv k" and "seal d ops k i p v = (r, k', v')"
    and "open_pii d ops k s = Ret (Inr x)"
  shows "open_pii d ops k' s = Ret (Inr x)"
proof -
  have "k' = k \<or> (\<exists>i dek v r v'. wrap_dek ops k i dek v = (r, k', v'))"
    using assms(2)
    by (auto simp: seal_def Let_def split: prod.splits sum.splits option.splits)
  then have "unwrap_dek ops k' j w = Inr dek" if "unwrap_dek ops k j w = Inr dek" for j w dek
    using wrap_keeps [OF assms(1)] that by blast
  with assms(3) show ?thesis unfolding open_pii_Inr by blast
qed

lemma seal_open:
  assumes "inv k" and "aead_ok d" and "base64_ok d" and "json_ok d p" and "is_value p"
    and "seal d ops k i p v = (Inr s, k', v')"
  shows "open_pii d ops k' s = Ret (Inr p)"
proof -
  obtain dek v1 n v2 ct w where
    r: "random_bytes KEY_LEN v = (Inr dek, v1)" "random_bytes NONCE_LEN v1 = (Inr n, v2)"
    and ct: "xc_encrypt d dek n (sj_to_vec d p) = Some ct"
    and w: "wrap_dek ops k i dek v2 = (Inr w, k', v')"
    and s: "s = \<lparr>key_id = i, wrapped_dek = b64_encode d w, pii_nonce = b64_encode d n,
                 ciphertext = b64_encode d ct\<rparr>"
    using assms(6) by (auto simp: seal_def Let_def split: prod.splits sum.splits option.splits)
  have "length dek = KEY_LEN" "length n = NONCE_LEN"
    using r by (auto simp: random_bytes_def split: prod.splits option.splits dest: getrandom_length)
  moreover have "unwrap_dek ops k' i w = Inr dek"
    using wrap_unwrap [OF assms(1) w] .
  moreover have "xc_decrypt d dek n ct = Some (sj_to_vec d p)"
    using aead_decrypt [OF assms(2) ct] .
  ultimately show ?thesis
    using assms(3-5) s
    by (simp add: open_pii_def base64_decode_encode json_ok_def is_value_def)
qed

lemma seal_key_id: "seal d ops k i p v = (Inr s, k', v') \<Longrightarrow> key_id s = i"
  by (auto simp: seal_def Let_def split: prod.splits sum.splits option.splits)

end

lemma random_bytes_length: "random_bytes n v = (Inr bs, v') \<Longrightarrow> length bs = n"
  by (auto simp: random_bytes_def split: prod.splits option.splits dest: getrandom_length)

lemma unwrap_wrap_with_key:
  assumes "aead_ok d" and "wrap_with_key d key dek v = (Inr w, v')"
  shows "unwrap_with_key d key w = Inr dek"
proof -
  obtain n ct where "length n = NONCE_LEN" "xc_encrypt d key n dek = Some ct" "w = n @ ct"
    using assms(2)
    by (auto simp: wrap_with_key_def split: prod.splits sum.splits option.splits
        dest: random_bytes_length)
  with assms(1) show ?thesis by (simp add: unwrap_with_key_def Let_def aead_decrypt)
qed

text \<open>Both providers of the program rest on the cipher alone, in any of their states.\<close>

definition cipher_ok :: "crates \<Rightarrow> 'k \<Rightarrow> bool" where
  "cipher_ok d k \<longleftrightarrow> aead_ok d"

interpretation local_kp: key_provider "local_ops d" "cipher_ok d" for d
  by unfold_locales
    (auto simp: local_ops_def cipher_ok_def unwrap_wrap_with_key split: prod.splits)

text \<open>When a panic happens: everything decodes and unwraps, but the nonce has a wrong length.\<close>

lemma open_pii_Panic:
  "open_pii d ops k s = Panic \<longleftrightarrow>
     (\<exists>w n ct dek. b64_decode d (wrapped_dek s) = Some w \<and> b64_decode d (pii_nonce s) = Some n \<and>
        b64_decode d (ciphertext s) = Some ct \<and> unwrap_dek ops k (key_id s) w = Inr dek \<and>
        length dek = KEY_LEN \<and> length n \<noteq> NONCE_LEN)"
  by (auto simp: open_pii_def split: option.splits sum.splits if_splits)

lemma open_pii_unwrap_error:
  assumes "b64_decode d (wrapped_dek s) = Some w" and "b64_decode d (pii_nonce s) = Some n"
    and "b64_decode d (ciphertext s) = Some ct" and "unwrap_dek ops k (key_id s) w = Inl e"
  shows "open_pii d ops k s = Ret (Inl e)"
  using assms by (simp add: open_pii_def)

end
