(* ===== verification/Keyring.thy ===== *)
theory Keyring
  imports Crypto
begin

text \<open>
  The per-subject key provider with crypto-shredding (\<open>crates/core/src/keyring.rs\<close>). A directory
  is the association list of its files; the cache (a \<open>HashMap\<close> behind an \<open>RwLock\<close>) is an
  association list of keys. \<open>kr_poisoned\<close> is the lock's poison flag, which only a panic under the
  lock would set.
\<close>

record keyring =
  kr_dir :: dir
  kr_cache :: "(string \<times> bytes) list"
  kr_poisoned :: bool
  kr_auto_create :: bool

abbreviation KEY_FILE_PREFIX :: string where "KEY_FILE_PREFIX \<equiv> ''key-''"
abbreviation KEY_FILE_SUFFIX :: string where "KEY_FILE_SUFFIX \<equiv> ''.b64''"

definition is_ascii_alphanumeric :: "char \<Rightarrow> bool" where
  "is_ascii_alphanumeric c \<longleftrightarrow>
     (let n = of_char c :: nat in
      48 \<le> n \<and> n \<le> 57 \<or> 65 \<le> n \<and> n \<le> 90 \<or> 97 \<le> n \<and> n \<le> 122)"

definition valid_key_id :: "string \<Rightarrow> bool" where
  "valid_key_id i \<longleftrightarrow>
     i \<noteq> [] \<and> length i \<le> 128 \<and>
     list_all (\<lambda>b. is_ascii_alphanumeric b \<or> b = CHR ''-'' \<or> b = CHR ''_'' \<or> b = CHR ''.'') i"

definition key_path :: "string \<Rightarrow> string" where
  "key_path i = KEY_FILE_PREFIX @ i @ KEY_FILE_SUFFIX"

definition key_file_id :: "string \<Rightarrow> string option" where
  "key_file_id name =
     (case strip_prefix KEY_FILE_PREFIX name of
        None \<Rightarrow> None
      | Some s \<Rightarrow> strip_suffix KEY_FILE_SUFFIX s)"

definition read_key_file :: "crates \<Rightarrow> bytes \<Rightarrow> bytes result" where
  "read_key_file d content =
     (if \<not> utf8_valid content then Inl (Io InvalidUtf8)
      else
        (case b64_decode d (trim_str (from_bytes content)) of
           None \<Rightarrow> Inl Base64
         | Some bs \<Rightarrow>
             if length bs = KEY_LEN then Inr bs else Inl (Key ''key file has wrong length'')))"

text \<open>\<open>KeyringProvider::open\<close>: the loop over the directory's files.\<close>

fun load_keys :: "crates \<Rightarrow> dir \<Rightarrow> (string \<times> bytes) list \<Rightarrow> (string \<times> bytes) list" where
  "load_keys d [] cache = cache"
| "load_keys d ((name, content) # files) cache =
     (case key_file_id name of
        None \<Rightarrow> load_keys d files cache
      | Some i \<Rightarrow>
          (case read_key_file d content of
             Inl _ \<Rightarrow> load_keys d files cache
           | Inr key \<Rightarrow> load_keys d files (AList.update i key cache)))"

definition keyring_open :: "crates \<Rightarrow> dir option \<Rightarrow> bool \<Rightarrow> keyring" where
  "keyring_open d dir auto_create =
     (let files = (case dir of None \<Rightarrow> [] | Some fs \<Rightarrow> fs) in
      \<lparr>kr_dir = files, kr_cache = load_keys d files [], kr_poisoned = False,
       kr_auto_create = auto_create\<rparr>)"

text \<open>\<open>KeyringProvider::open\<close>, where creating or listing the directory can fail.\<close>

definition keyring_open_at :: "crates \<Rightarrow> dir option \<Rightarrow> bool \<Rightarrow> env \<Rightarrow> keyring result" where
  "keyring_open_at d dir auto_create v =
     (if env_fault v = OpenFault then Inl (Io OsError) else Inr (keyring_open d dir auto_create))"

definition lock_err :: error where
  "lock_err = Key ''keyring lock poisoned''"

text \<open>
  \<open>ensure\<close>. The key file is written before the cache; \<open>env_key_fault = Some n\<close> is a \<open>fs::write\<close>
  that fails after \<open>n\<close> bytes.
\<close>

definition keyring_ensure :: "crates \<Rightarrow> keyring \<Rightarrow> string \<Rightarrow> env \<Rightarrow> bool result \<times> keyring \<times> env" where
  "keyring_ensure d k i v =
     (if \<not> valid_key_id i then (Inl (Key ''invalid key_id ''), k, v)
      else if kr_poisoned k then (Inl lock_err, k, v)
      else if map_of (kr_cache k) i \<noteq> None then (Inr False, k, v)
      else
        (case random_bytes KEY_LEN v of
           (Inl e, v') \<Rightarrow> (Inl e, k, v')
         | (Inr key, v') \<Rightarrow>
             let text = as_bytes (b64_encode d key) in
             (case env_key_fault v' of
                Some n \<Rightarrow>
                  (Inl (Io OsError),
                   k\<lparr>kr_dir := AList.update (key_path i) (take n text) (kr_dir k)\<rparr>, v')
              | None \<Rightarrow>
                  (Inr True,
                   k\<lparr>kr_dir := AList.update (key_path i) text (kr_dir k),
                     kr_cache := AList.update i key (kr_cache k)\<rparr>, v'))))"

definition keyring_get :: "keyring \<Rightarrow> string \<Rightarrow> bytes result" where
  "keyring_get k i =
     (if kr_poisoned k then Inl lock_err
      else ok_or (Key ''no key for key_id (shredded or never created)'') (map_of (kr_cache k) i))"

text \<open>
  \<open>shred\<close>: the cache entry goes first; \<open>rm_fails\<close> says that \<open>fs::remove_file\<close> returns an error.
\<close>

definition keyring_shred :: "keyring \<Rightarrow> string \<Rightarrow> bool \<Rightarrow> bool result \<times> keyring" where
  "keyring_shred k i rm_fails =
     (if \<not> valid_key_id i then (Inl (Key ''invalid key_id ''), k)
      else if kr_poisoned k then (Inl lock_err, k)
      else
        let had = (map_of (kr_cache k) i \<noteq> None);
            k' = k\<lparr>kr_cache := AList.delete i (kr_cache k)\<rparr>;
            file_existed = (map_of (kr_dir k) (key_path i) \<noteq> None)
        in if file_existed \<and> rm_fails then (Inl (Io OsError), k')
           else (Inr (had \<or> file_existed),
                 if file_existed then k'\<lparr>kr_dir := AList.delete (key_path i) (kr_dir k)\<rparr> else k'))"

definition keyring_list :: "keyring \<Rightarrow> string list result" where
  "keyring_list k =
     (if kr_poisoned k then Inl lock_err else Inr (sort (map fst (kr_cache k))))"

text \<open>\<open>impl KeyProvider for KeyringProvider\<close>.\<close>

definition keyring_wrap ::
  "crates \<Rightarrow> keyring \<Rightarrow> string \<Rightarrow> bytes \<Rightarrow> env \<Rightarrow> bytes result \<times> keyring \<times> env" where
  "keyring_wrap d k i dek v =
     (case (if kr_auto_create k then keyring_ensure d k i v else (Inr False, k, v)) of
        (Inl e, k', v') \<Rightarrow> (Inl e, k', v')
      | (Inr _, k', v') \<Rightarrow>
          (case keyring_get k' i of
             Inl e \<Rightarrow> (Inl e, k', v')
           | Inr key \<Rightarrow> (case wrap_with_key d key dek v' of (r, v'') \<Rightarrow> (r, k', v''))))"

definition keyring_unwrap :: "crates \<Rightarrow> keyring \<Rightarrow> string \<Rightarrow> bytes \<Rightarrow> bytes result" where
  "keyring_unwrap d k i wrapped =
     (case keyring_get k i of Inl e \<Rightarrow> Inl e | Inr key \<Rightarrow> unwrap_with_key d key wrapped)"

definition keyring_ops :: "crates \<Rightarrow> keyring key_ops" where
  "keyring_ops d = \<lparr>wrap_dek = keyring_wrap d, unwrap_dek = keyring_unwrap d\<rparr>"

section \<open>The keyring is a key provider\<close>

lemma keyring_get_Inr:
  "keyring_get k i = Inr key \<longleftrightarrow> \<not> kr_poisoned k \<and> map_of (kr_cache k) i = Some key"
  by (auto simp: keyring_get_def)

lemma keyring_ensure_cases:
  assumes "keyring_ensure d k i v = (r, k', v')"
  obtains (same) "kr_cache k' = kr_cache k" "kr_poisoned k' = kr_poisoned k"
  | (minted) key where "map_of (kr_cache k) i = None" "r = Inr True" "valid_key_id i"
      "\<not> kr_poisoned k"
      "k' = k\<lparr>kr_dir := AList.update (key_path i) (as_bytes (b64_encode d key)) (kr_dir k),
              kr_cache := AList.update i key (kr_cache k)\<rparr>"
      "length key = KEY_LEN"
  using assms
  by (auto simp: keyring_ensure_def Let_def split: if_splits prod.splits sum.splits option.splits
      dest: random_bytes_length)

lemma keyring_ensure_get:
  assumes "keyring_ensure d k i v = (r, k', v')" and "keyring_get k j = Inr key"
  shows "keyring_get k' j = Inr key"
  using assms(1)
proof (cases rule: keyring_ensure_cases)
  case same
  with assms(2) show ?thesis by (simp add: keyring_get_Inr)
next
  case (minted key')
  with assms(2) have "j \<noteq> i" by (auto simp: keyring_get_Inr)
  with minted assms(2) show ?thesis by (simp add: keyring_get_Inr update_conv')
qed

lemma keyring_wrap_cases:
  assumes "keyring_wrap d k i dek v = (r, k', v')"
  obtains "k' = k" | r' v'' where "keyring_ensure d k i v = (r', k', v'')"
  using assms
  by (auto simp: keyring_wrap_def split: if_splits prod.splits sum.splits)

lemma keyring_wrap_Inr:
  "keyring_wrap d k i dek v = (Inr w, k', v') \<Longrightarrow>
   \<exists>key u u'. keyring_get k' i = Inr key \<and> wrap_with_key d key dek u = (Inr w, u')"
  by (auto simp: keyring_wrap_def split: if_splits prod.splits sum.splits)

interpretation keyring_kp: key_provider "keyring_ops d" "cipher_ok d" for d
proof unfold_locales
  fix k :: keyring and i dek v w k' v'
  assume "cipher_ok d k" and "wrap_dek (keyring_ops d) k i dek v = (Inr w, k', v')"
  then show "unwrap_dek (keyring_ops d) k' i w = Inr dek"
    by (auto simp: keyring_ops_def keyring_unwrap_def cipher_ok_def unwrap_wrap_with_key
        dest!: keyring_wrap_Inr)
next
  fix k i dek v r k' v' j w x
  assume "wrap_dek (keyring_ops d) k i dek v = (r, k', v')"
    and un: "unwrap_dek (keyring_ops d) k j w = Inr x"
  then have "keyring_wrap d k i dek v = (r, k', v')" by (simp add: keyring_ops_def)
  then show "unwrap_dek (keyring_ops d) k' j w = Inr x"
  proof (cases rule: keyring_wrap_cases)
    case 1
    with un show ?thesis by simp
  next
    case (2 r' v'')
    with un show ?thesis
      by (auto simp: keyring_ops_def keyring_unwrap_def dest: keyring_ensure_get
          split: sum.splits)
  qed
qed (simp add: cipher_ok_def)

section \<open>The cache mirrors the directory\<close>

text \<open>
  The key that the directory holds for a \<open>key_id\<close>, and the invariant that reopening the keyring
  finds what the cache holds.
\<close>

definition disk_key :: "crates \<Rightarrow> dir \<Rightarrow> string \<Rightarrow> bytes option" where
  "disk_key d files i =
     (case map_of files (key_path i) of
        None \<Rightarrow> None
      | Some content \<Rightarrow> result_ok (read_key_file d content))"

definition keyring_inv :: "crates \<Rightarrow> keyring \<Rightarrow> bool" where
  "keyring_inv d k \<longleftrightarrow>
     base64_ok d \<and> \<not> kr_poisoned k \<and> distinct (map fst (kr_dir k)) \<and>
     distinct (map fst (kr_cache k)) \<and>
     (\<forall>i. map_of (kr_cache k) i = disk_key d (kr_dir k) i)"

lemma key_file_id_path [simp]: "key_file_id (key_path i) = Some i"
  by (simp only: key_file_id_def key_path_def strip_prefix_append strip_suffix_append option.case)

lemma key_file_id_Some: "key_file_id name = Some i \<longleftrightarrow> name = key_path i"
proof
  assume "key_file_id name = Some i"
  then show "name = key_path i"
    unfolding key_file_id_def key_path_def
    by (auto split: option.splits dest!: strip_prefix_Some strip_suffix_Some)
qed simp

lemma key_path_inject [simp]: "key_path i = key_path j \<longleftrightarrow> i = j"
  by (metis key_file_id_path option.inject)

lemma read_key_file_encode [simp]:
  "base64_ok d \<Longrightarrow> length key = KEY_LEN \<Longrightarrow>
   read_key_file d (as_bytes (b64_encode d key)) = Inr key"
  by (simp add: read_key_file_def base64_utf8 base64_trim base64_decode_encode)

lemma load_keys_distinct:
  "distinct (map fst cache) \<Longrightarrow> distinct (map fst (load_keys d files cache))"
  by (induction d files cache rule: load_keys.induct)
    (auto split: option.splits sum.splits simp: distinct_update)

lemma load_keys_map_of:
  "distinct (map fst files) \<Longrightarrow>
   map_of (load_keys d files cache) i =
     (case disk_key d files i of None \<Rightarrow> map_of cache i | Some key \<Rightarrow> Some key)"
proof (induction files arbitrary: cache)
  case Nil
  then show ?case by (simp add: disk_key_def)
next
  case (Cons f files)
  obtain name content where f: "f = (name, content)" by (cases f)
  have fresh: "map_of files name = None"
    using Cons.prems f by (auto simp: map_of_eq_None_iff)
  show ?case
  proof (cases "name = key_path i")
    case True
    with fresh have "disk_key d files i = None" by (simp add: disk_key_def)
    with True f Cons show ?thesis
      by (auto simp: disk_key_def update_conv' split: sum.splits)
  next
    case False
    then have "disk_key d (f # files) i = disk_key d files i" using f by (simp add: disk_key_def)
    with False f Cons show ?thesis
      by (auto simp: update_conv' key_file_id_Some split: option.splits sum.splits)
  qed
qed

lemma keyring_open_inv:
  "base64_ok d \<Longrightarrow> distinct (map fst files) \<Longrightarrow> keyring_inv d (keyring_open d (Some files) auto)"
  by (auto simp: keyring_inv_def keyring_open_def load_keys_distinct load_keys_map_of
      split: option.splits)

lemma disk_key_update:
  "disk_key d (AList.update name content files) i =
     (if name = key_path i then result_ok (read_key_file d content) else disk_key d files i)"
  by (simp add: disk_key_def update_conv')

lemma disk_key_delete:
  "disk_key d (AList.delete name files) i =
     (if name = key_path i then None else disk_key d files i)"
  by (simp add: disk_key_def delete_conv')

lemma keyring_ensure_inv:
  assumes "keyring_inv d k" and "keyring_ensure d k i v = (r, k', v')"
    and "env_key_fault v = None"
  shows "keyring_inv d k'"
proof -
  have "env_key_fault v'' = None" if "random_bytes n v = (x, v'')" for n x v''
    using that assms(3)
    by (auto simp: random_bytes_def getrandom_def split: list.splits option.splits prod.splits)
  then show ?thesis
    using assms
    by (auto simp: keyring_ensure_def Let_def keyring_inv_def distinct_update update_conv'
        disk_key_update random_bytes_length
        split: if_splits prod.splits sum.splits option.splits)
qed

lemma keyring_shred_inv:
  assumes "keyring_inv d k" and "keyring_shred k i False = (r, k')"
  shows "keyring_inv d k'"
  using assms
  by (auto simp: keyring_shred_def Let_def keyring_inv_def distinct_delete delete_conv'
      disk_key_delete split: if_splits)
    (auto simp: disk_key_def split: option.splits dest: map_of_SomeD)

text \<open>After a shred the key is gone from the cache and from the directory.\<close>

lemma keyring_shred_gone:
  assumes "keyring_inv d k" and "keyring_shred k i False = (Inr b, k')"
  shows "keyring_get k' i = Inl (Key ''no key for key_id (shredded or never created)'')"
    and "disk_key d (kr_dir k') i = None"
    and "b \<longleftrightarrow> map_of (kr_cache k) i \<noteq> None \<or> map_of (kr_dir k) (key_path i) \<noteq> None"
    and "j \<noteq> i \<Longrightarrow> keyring_get k' j = keyring_get k j"
proof -
  have "keyring_inv d k'" by (rule keyring_shred_inv) (use assms in auto)
  show "keyring_get k' i = Inl (Key ''no key for key_id (shredded or never created)'')"
    using assms
    by (auto simp: keyring_shred_def Let_def keyring_inv_def keyring_get_def delete_conv'
        split: if_splits)
  then show "disk_key d (kr_dir k') i = None"
    using \<open>keyring_inv d k'\<close> by (auto simp: keyring_get_def keyring_inv_def ok_or_def
        split: if_splits option.splits)
  show "b \<longleftrightarrow> map_of (kr_cache k) i \<noteq> None \<or> map_of (kr_dir k) (key_path i) \<noteq> None"
    using assms by (auto simp: keyring_shred_def Let_def split: if_splits)
  show "j \<noteq> i \<Longrightarrow> keyring_get k' j = keyring_get k j"
    using assms
    by (auto simp: keyring_shred_def Let_def keyring_get_def delete_conv' split: if_splits)
qed

end
