(* ===== verification/Log.thy ===== *)
theory Log
  imports Segment Keyring
begin

text \<open>
  The engine (\<open>crates/core/src/log.rs\<close>): the writer's state and its step, the loop over the
  commands of the channel, the builder that resumes a chain, and the handle. The locale
  \<open>audit_engine\<close> puts a store and a key provider together and proves, once for all backends, that
  the writer keeps a chain and that receipts describe the entries stored.
\<close>

section \<open>The writer\<close>

record ('s, 'k) writer_state =
  wr_store :: 's
  wr_provider :: 'k
  wr_seq :: u64
  wr_prev_hash :: string

text \<open>The entry that \<open>process\<close> builds, hash included, and the receipt for it.\<close>

definition made_entry ::
  "crates \<Rightarrow> log_record \<Rightarrow> encrypted_pii option \<Rightarrow> i64 \<Rightarrow> u64 \<Rightarrow> string \<Rightarrow> audit_entry" where
  "made_entry d r pii timestamp new_seq prev =
     (let e = \<lparr>e_seq = new_seq, e_timestamp = timestamp, e_event_type = r_event_type r,
               e_outcome = r_outcome r, e_actor = r_actor r,
               e_instruction_id = r_instruction_id r,
               e_payload = \<lparr>p_data = r_data r, p_pii = pii\<rparr>, e_prev_hash = prev,
               e_entry_hash = ''''\<rparr>
      in e\<lparr>e_entry_hash := entry_hash d e\<rparr>)"

definition receipt_of :: "audit_entry \<Rightarrow> receipt" where
  "receipt_of e =
     \<lparr>rc_seq = e_seq e, rc_timestamp = e_timestamp e, rc_entry_hash = e_entry_hash e,
      rc_prev_hash = e_prev_hash e\<rparr>"

definition seal_record ::
  "crates \<Rightarrow> 'k key_ops \<Rightarrow> 'k \<Rightarrow> log_record \<Rightarrow> env \<Rightarrow> encrypted_pii option result \<times> 'k" where
  "seal_record d kops provider r v =
     (case r_pii r of
        None \<Rightarrow> (Inr None, provider)
      | Some p \<Rightarrow>
          (case seal d kops provider (r_key_id r) p v of
             (Inl er, provider', _) \<Rightarrow> (Inl er, provider')
           | (Inr s, provider', _) \<Rightarrow> (Inr (Some s), provider')))"

definition process ::
  "crates \<Rightarrow> 's store_ops \<Rightarrow> 'k key_ops \<Rightarrow> log_record \<Rightarrow> env \<Rightarrow> ('s, 'k) writer_state \<Rightarrow>
   receipt result \<times> ('s, 'k) writer_state" where
  "process d sops kops r v w =
     (case seal_record d kops (wr_provider w) r v of
        (Inl er, provider') \<Rightarrow> (Inl er, w\<lparr>wr_provider := provider'\<rparr>)
      | (Inr pii, provider') \<Rightarrow>
          let new_seq = wr_seq w + 1;
              timestamp = now_ms (env_clock v);
              e = made_entry d r pii timestamp new_seq (wr_prev_hash w)
          in
          (case st_append sops e v (wr_store w) of
             (Inl er, store') \<Rightarrow> (Inl er, w\<lparr>wr_store := store', wr_provider := provider'\<rparr>)
           | (Inr _, store') \<Rightarrow>
               (Inr (receipt_of e),
                \<lparr>wr_store = store', wr_provider = provider', wr_seq = new_seq,
                 wr_prev_hash = e_entry_hash e\<rparr>)))"

section \<open>The commands and the writer's loop\<close>

datatype cmd = CmdWrite log_record | CmdHead

datatype reply = WriteReply "receipt result" | HeadReply "u64 \<times> string"

fun handle_cmd ::
  "crates \<Rightarrow> 's store_ops \<Rightarrow> 'k key_ops \<Rightarrow> cmd \<Rightarrow> env \<Rightarrow> ('s, 'k) writer_state \<Rightarrow>
   reply \<times> ('s, 'k) writer_state" where
  "handle_cmd d sops kops (CmdWrite r) v w =
     (case process d sops kops r v w of (res, w') \<Rightarrow> (WriteReply res, w'))"
| "handle_cmd d sops kops CmdHead v w = (HeadReply (wr_seq w, wr_prev_hash w), w)"

text \<open>
  The loop over everything that the channel delivers before it closes, each command with the
  environment of its turn.
\<close>

fun writer_loop ::
  "crates \<Rightarrow> 's store_ops \<Rightarrow> 'k key_ops \<Rightarrow> (cmd \<times> env) list \<Rightarrow> ('s, 'k) writer_state \<Rightarrow>
   reply list \<times> ('s, 'k) writer_state" where
  "writer_loop d sops kops [] w = ([], w)"
| "writer_loop d sops kops ((c, v) # cs) w =
     (case handle_cmd d sops kops c v w of
        (rep, w') \<Rightarrow>
          (case writer_loop d sops kops cs w' of (reps, w'') \<Rightarrow> (rep # reps, w'')))"

section \<open>The handle and the builder\<close>

text \<open>
  \<open>Inner\<close>: whether the sender is still there, and the writer with the thread's state, \<open>None\<close> once
  the thread has stopped. A call of the handle sends one command and waits for its reply.
\<close>

record ('s, 'k) log_handle =
  lh_tx :: bool
  lh_writer :: "('s, 'k) writer_state option"

definition audit_record ::
  "crates \<Rightarrow> 's store_ops \<Rightarrow> 'k key_ops \<Rightarrow> log_record \<Rightarrow> env \<Rightarrow> ('s, 'k) log_handle \<Rightarrow>
   receipt result \<times> ('s, 'k) log_handle" where
  "audit_record d sops kops r v l =
     (if \<not> lh_tx l then (Inl (WriterGone ''log is closed''), l)
      else
        (case lh_writer l of
           None \<Rightarrow> (Inl (WriterGone ''writer thread has stopped''), l)
         | Some w \<Rightarrow>
             (case process d sops kops r v w of
                (res, w') \<Rightarrow> (res, l\<lparr>lh_writer := Some w'\<rparr>))))"

definition audit_head :: "('s, 'k) log_handle \<Rightarrow> (u64 \<times> string) result" where
  "audit_head l =
     (if \<not> lh_tx l then Inl (WriterGone ''log is closed'')
      else
        (case lh_writer l of
           None \<Rightarrow> Inl (WriterGone ''writer thread has stopped'')
         | Some w \<Rightarrow> Inr (wr_seq w, wr_prev_hash w)))"

record ('s, 'k) builder =
  b_store :: "'s option"
  b_provider :: "'k option"

definition builder_new :: "('s, 'k) builder" where
  "builder_new = \<lparr>b_store = None, b_provider = None\<rparr>"

definition builder_store :: "'s \<Rightarrow> ('s, 'k) builder \<Rightarrow> ('s, 'k) builder" where
  "builder_store s b = b\<lparr>b_store := Some s\<rparr>"

definition builder_key_provider :: "'k \<Rightarrow> ('s, 'k) builder \<Rightarrow> ('s, 'k) builder" where
  "builder_key_provider k b = b\<lparr>b_provider := Some k\<rparr>"

text \<open>The same for a provider that is shared with others; here the provider is its state.\<close>

definition builder_key_provider_arc :: "'k \<Rightarrow> ('s, 'k) builder \<Rightarrow> ('s, 'k) builder" where
  "builder_key_provider_arc k b = b\<lparr>b_provider := Some k\<rparr>"

lemma builder_arc [simp]: "builder_key_provider_arc = builder_key_provider"
  by (simp add: fun_eq_iff builder_key_provider_arc_def builder_key_provider_def)

definition log_build :: "'s store_ops \<Rightarrow> ('s, 'k) builder \<Rightarrow> bool \<Rightarrow> ('s, 'k) log_handle result" where
  "log_build sops b spawn_ok =
     (case b_store b of
        None \<Rightarrow> Inl (Config ''no store configured'')
      | Some store \<Rightarrow>
     (case b_provider b of
        None \<Rightarrow> Inl (Config ''no key provider configured'')
      | Some provider \<Rightarrow>
     (case st_tail sops store of
        Inl e \<Rightarrow> Inl e
      | Inr t \<Rightarrow>
          let (s, h) = (case t of Some (s, h) \<Rightarrow> (s, h) | None \<Rightarrow> (0, GENESIS_PREV_HASH)) in
          if \<not> spawn_ok then Inl (Config ''failed to spawn writer thread: '')
          else Inr \<lparr>lh_tx = True,
                    lh_writer = Some \<lparr>wr_store = store, wr_provider = provider, wr_seq = s,
                                      wr_prev_hash = h\<rparr>\<rparr>)))"

section \<open>Concurrent callers\<close>

text \<open>
  Many threads hold the handle. Each call puts its command on the channel and blocks until its
  reply arrives; the writer thread takes the commands in the order of the channel. \<open>sy_waiting\<close> are
  the callers that are blocked, \<open>sy_replies\<close> the replies delivered so far. The handle is dropped
  only when no call is under way. \<open>P\<close> bounds the commands and environments that occur.
\<close>

record ('s, 'k) system =
  sy_queue :: "(nat \<times> cmd) list"
  sy_waiting :: "nat set"
  sy_replies :: "(nat \<times> reply) list"
  sy_writer :: "('s, 'k) writer_state"
  sy_open :: bool

inductive log_step ::
  "crates \<Rightarrow> 's store_ops \<Rightarrow> 'k key_ops \<Rightarrow> (cmd \<Rightarrow> env \<Rightarrow> bool) \<Rightarrow>
   ('s, 'k) system \<Rightarrow> ('s, 'k) system \<Rightarrow> bool"
  for d sops kops P where
  send: "sy_open y \<Longrightarrow> c \<notin> sy_waiting y \<Longrightarrow>
    log_step d sops kops P y
      (y\<lparr>sy_queue := sy_queue y @ [(c, m)], sy_waiting := insert c (sy_waiting y)\<rparr>)"
| serve: "sy_queue y = (c, m) # q \<Longrightarrow> P m v \<Longrightarrow>
    handle_cmd d sops kops m v (sy_writer y) = (rep, w') \<Longrightarrow>
    log_step d sops kops P y
      (y\<lparr>sy_queue := q, sy_waiting := sy_waiting y - {c}, sy_replies := sy_replies y @ [(c, rep)],
         sy_writer := w'\<rparr>)"
| close: "sy_open y \<Longrightarrow> sy_waiting y = {} \<Longrightarrow>
    log_step d sops kops P y (y\<lparr>sy_open := False\<rparr>)"

inductive_cases log_stepE: "log_step d sops kops P y y'"

inductive log_reachable ::
  "crates \<Rightarrow> 's store_ops \<Rightarrow> 'k key_ops \<Rightarrow> (cmd \<Rightarrow> env \<Rightarrow> bool) \<Rightarrow> ('s, 'k) writer_state \<Rightarrow>
   ('s, 'k) system \<Rightarrow> bool"
  for d sops kops P w0 where
  start: "log_reachable d sops kops P w0
    \<lparr>sy_queue = [], sy_waiting = {}, sy_replies = [], sy_writer = w0, sy_open = True\<rparr>"
| step: "log_reachable d sops kops P w0 y \<Longrightarrow> log_step d sops kops P y y' \<Longrightarrow>
    log_reachable d sops kops P w0 y'"

text \<open>The receipts among the replies.\<close>

definition receipts :: "reply list \<Rightarrow> receipt list" where
  "receipts reps =
     List.map_filter (\<lambda>rep. case rep of WriteReply (Inr rc) \<Rightarrow> Some rc | _ \<Rightarrow> None) reps"

lemma receipts_simps [simp]:
  "receipts [] = []"
  "receipts (WriteReply (Inr rc) # reps) = rc # receipts reps"
  "receipts (WriteReply (Inl er) # reps) = receipts reps"
  "receipts (HeadReply h # reps) = receipts reps"
  "receipts (reps @ reps') = receipts reps @ receipts reps'"
  by (simp_all add: receipts_def List.map_filter_def)

section \<open>Basic facts\<close>

lemma made_entry_fields [simp]:
  "e_seq (made_entry d r pii t s p) = s"
  "e_timestamp (made_entry d r pii t s p) = t"
  "e_event_type (made_entry d r pii t s p) = r_event_type r"
  "e_outcome (made_entry d r pii t s p) = r_outcome r"
  "e_actor (made_entry d r pii t s p) = r_actor r"
  "e_instruction_id (made_entry d r pii t s p) = r_instruction_id r"
  "e_payload (made_entry d r pii t s p) = \<lparr>p_data = r_data r, p_pii = pii\<rparr>"
  "e_prev_hash (made_entry d r pii t s p) = p"
  by (simp_all add: made_entry_def Let_def)

lemma sealed_made_entry [simp]: "sealed d (made_entry d r pii t s p)"
  unfolding sealed_def made_entry_def Let_def entry_hash_update by simp

lemma made_entry_hash: "\<exists>b. e_entry_hash (made_entry d r pii t s p) = b3_to_hex d b"
  by (auto simp: made_entry_def entry_hash_def Let_def)

text \<open>Records whose entries every file-backed store can represent.\<close>

definition plain_record :: "log_record \<Rightarrow> bool" where
  "plain_record r \<longleftrightarrow>
     utf8_string (r_event_type r) \<and> utf8_string (r_actor r) \<and> plain_opt (r_instruction_id r) \<and>
     plain_data (r_data r) \<and> utf8_string (r_key_id r)"

lemma seal_plain:
  "base64_ok d \<Longrightarrow> utf8_string i \<Longrightarrow> seal d kops k i p v = (Inr s, k', v') \<Longrightarrow>
   plain_pii (Some s)"
  by (auto simp: seal_def plain_pii_def base64_utf8_string Let_def
      split: prod.splits sum.splits option.splits)

lemma made_entry_plain:
  assumes "hex_ok d" and "plain_record r" and "plain_pii pii" and "utf8_string prev"
  shows "plain_entry (made_entry d r pii t s prev)"
  using assms made_entry_hash [of d r pii t s prev]
  by (auto simp: plain_entry_def plain_record_def hex_utf8)

text \<open>The sequence number after a chain, as long as it does not wrap around.\<close>

definition room :: "u64 \<times> string \<Rightarrow> audit_entry list \<Rightarrow> nat \<Rightarrow> bool" where
  "room b es n \<longleftrightarrow> unat (fst b) + length es + n < 2 ^ 64"

lemma chain_from_unat_seq:
  assumes "chain_from d b es" and "room b es 0" and "i < length es"
  shows "unat (e_seq (es ! i)) = unat (fst b) + i + 1"
proof -
  have "e_seq (es ! i) = word_of_nat (unat (fst b) + i + 1)"
    using chain_from_seq [OF assms(1,3)] by simp
  moreover have "unat (fst b) + i + 1 < 2 ^ 64"
    using assms(2,3) by (simp add: room_def)
  ultimately show ?thesis by (simp only: unat_small)
qed

lemma chain_follows:
  assumes "chain_from d b es" and "room b es 1" and "es = [] \<Longrightarrow> b = genesis"
    and "e_seq e = fst (head_of b es) + 1"
  shows "follows es e"
proof -
  have seq: "unat (e_seq e) = unat (fst b) + length es + 1"
  proof -
    have "e_seq e = word_of_nat (unat (fst b) + length es + 1)"
      using assms(4) chain_from_head [OF assms(1)] by simp
    moreover have "unat (fst b) + length es + 1 < 2 ^ 64"
      using assms(2) by (simp add: room_def)
    ultimately show ?thesis by (simp only: unat_small)
  qed
  have "e_seq x < e_seq e" if x: "x \<in> set es" for x
  proof -
    obtain i where i: "i < length es" "x = es ! i" using x by (metis in_set_conv_nth)
    have "unat (e_seq x) = unat (fst b) + i + 1"
      using chain_from_unat_seq [OF assms(1) _ i(1)] assms(2) i(2) by (simp add: room_def)
    with seq i(1) show ?thesis by (simp add: word_less_nat_alt)
  qed
  moreover have "e_seq e = next_seq es"
    using assms(3,4) by (auto simp: next_seq_def last_opt_def head_of_def genesis_def)
  ultimately show ?thesis by (simp add: follows_def)
qed

section \<open>The engine over any store and key provider\<close>

text \<open>
  \<open>rec_ok\<close> says which records the store can represent, once their PII is sealed; \<open>hash_ok\<close> what is
  known of the hashes that the engine puts into \<open>prev_hash\<close>.
\<close>

locale audit_engine =
  chain_store sops inv entries ok + key_provider kops kinv
  for sops :: "'s store_ops" and inv :: "'s \<Rightarrow> bool" and entries :: "'s \<Rightarrow> audit_entry list"
    and ok :: "audit_entry \<Rightarrow> bool" and kops :: "'k key_ops" and kinv :: "'k \<Rightarrow> bool" +
  fixes d :: crates and rec_ok :: "log_record \<Rightarrow> bool" and hash_ok :: "string \<Rightarrow> bool"
  assumes made_ok:
      "rec_ok r \<Longrightarrow> hash_ok prev \<Longrightarrow> seal_record d kops k r v = (Inr pii, k') \<Longrightarrow>
       ok (made_entry d r pii t s prev)"
    and made_hash: "rec_ok r \<Longrightarrow> hash_ok (e_entry_hash (made_entry d r pii t s prev))"
begin

text \<open>
  The writer holds a chain from the base \<open>b\<close> (the genesis, or the anchor of a pruned log), and its
  sequence number and hash are the head.
\<close>

definition log_inv :: "u64 \<times> string \<Rightarrow> ('s, 'k) writer_state \<Rightarrow> bool" where
  "log_inv b w \<longleftrightarrow>
     inv (wr_store w) \<and> kinv (wr_provider w) \<and> chain_from d b (entries (wr_store w)) \<and>
     (wr_seq w, wr_prev_hash w) = head_of b (entries (wr_store w)) \<and>
     (entries (wr_store w) = [] \<longrightarrow> b = genesis) \<and> hash_ok (wr_prev_hash w)"

text \<open>The entry that one step stores, if it succeeds.\<close>

definition step_entry :: "log_record \<Rightarrow> env \<Rightarrow> ('s, 'k) writer_state \<Rightarrow> audit_entry list" where
  "step_entry r v w =
     (case process d sops kops r v w of
        (Inr _, _) \<Rightarrow>
          (case fst (seal_record d kops (wr_provider w) r v) of
             Inr pii \<Rightarrow>
               [made_entry d r pii (now_ms (env_clock v)) (wr_seq w + 1) (wr_prev_hash w)]
           | Inl _ \<Rightarrow> [])
      | _ \<Rightarrow> [])"

lemma seal_record_inv: "kinv k \<Longrightarrow> seal_record d kops k r v = (x, k') \<Longrightarrow> kinv k'"
  by (auto simp: seal_record_def split: option.splits prod.splits sum.splits dest: seal_inv)

lemma process_step:
  assumes "log_inv b w" and "rec_ok r" and "room b (entries (wr_store w)) 1"
    and "clean_fault (env_fault v)" and "process d sops kops r v w = (res, w')"
  shows "log_inv b w'"
    and "entries (wr_store w') = entries (wr_store w) @ step_entry r v w"
    and "res = Inr rc \<Longrightarrow> map receipt_of (step_entry r v w) = [rc]"
    and "res = Inl er \<Longrightarrow>
      step_entry r v w = [] \<and> wr_seq w' = wr_seq w \<and> wr_prev_hash w' = wr_prev_hash w"
proof -
  let ?s = "wr_store w"
  obtain x k' where seal: "seal_record d kops (wr_provider w) r v = (x, k')"
    by (cases "seal_record d kops (wr_provider w) r v")
  have inv: "inv ?s" "kinv (wr_provider w)" "chain_from d b (entries ?s)"
      "(wr_seq w, wr_prev_hash w) = head_of b (entries ?s)"
      "entries ?s = [] \<longrightarrow> b = genesis" "hash_ok (wr_prev_hash w)"
    using assms(1) by (simp_all add: log_inv_def)
  have k': "kinv k'" using seal_record_inv [OF inv(2) seal] .
  have *: "log_inv b w' \<and> entries (wr_store w') = entries (wr_store w) @ step_entry r v w \<and>
    (\<forall>rc. res = Inr rc \<longrightarrow> map receipt_of (step_entry r v w) = [rc]) \<and>
    (\<forall>er. res = Inl er \<longrightarrow>
      step_entry r v w = [] \<and> wr_seq w' = wr_seq w \<and> wr_prev_hash w' = wr_prev_hash w)"
  proof (cases x)
    case (Inl er)
    then have "res = Inl er" "w' = w\<lparr>wr_provider := k'\<rparr>" "step_entry r v w = []"
      using assms(5) seal by (auto simp: process_def step_entry_def)
    with inv k' show ?thesis by (simp add: log_inv_def)
  next
    case (Inr pii)
    let ?e = "made_entry d r pii (now_ms (env_clock v)) (wr_seq w + 1) (wr_prev_hash w)"
    obtain y s' where app: "st_append sops ?e v ?s = (y, s')" by (cases "st_append sops ?e v ?s")
    have head: "head_of b (entries ?s) = (wr_seq w, wr_prev_hash w)" using inv(4) by simp
    have ok: "ok ?e" using made_ok [OF assms(2) inv(6)] seal Inr by simp
    have fol: "follows (entries ?s) ?e"
      using chain_follows [OF inv(3) assms(3)] inv(5) head by simp
    note step = append_step [OF inv(1) ok fol assms(4) app]
    show ?thesis
    proof (cases y)
      case (Inl er)
      then have "res = Inl er" "w' = w\<lparr>wr_store := s', wr_provider := k'\<rparr>"
        "step_entry r v w = []"
        using assms(5) seal \<open>x = Inr pii\<close> app
        by (auto simp: process_def step_entry_def Let_def)
      with inv k' step Inl show ?thesis by (simp add: log_inv_def)
    next
      case (Inr u)
      then have w': "res = Inr (receipt_of ?e)" "w' = \<lparr>wr_store = s', wr_provider = k',
          wr_seq = wr_seq w + 1, wr_prev_hash = e_entry_hash ?e\<rparr>"
        and e: "step_entry r v w = [?e]"
        using assms(5) seal \<open>x = Inr pii\<close> app
        by (auto simp: process_def step_entry_def Let_def)
      have "chain_from d b (entries ?s @ [?e])"
        using inv(3) head by simp
      moreover have "head_of b (entries ?s @ [?e]) = (wr_seq w + 1, e_entry_hash ?e)" by simp
      ultimately show ?thesis
        using w' e k' step Inr made_hash [OF assms(2)] by (simp add: log_inv_def)
    qed
  qed
  show "log_inv b w'" using * by blast
  show "entries (wr_store w') = entries (wr_store w) @ step_entry r v w" using * by blast
  show "res = Inr rc \<Longrightarrow> map receipt_of (step_entry r v w) = [rc]" using * by blast
  show "res = Inl er \<Longrightarrow>
      step_entry r v w = [] \<and> wr_seq w' = wr_seq w \<and> wr_prev_hash w' = wr_prev_hash w"
    using * by blast
qed

text \<open>The commands of a sequence that stay within the laws.\<close>

definition cmd_ok :: "cmd \<Rightarrow> env \<Rightarrow> bool" where
  "cmd_ok m v \<longleftrightarrow>
     clean_fault (env_fault v) \<and> (case m of CmdWrite r \<Rightarrow> rec_ok r | CmdHead \<Rightarrow> True)"

lemma handle_cmd_step:
  assumes "log_inv b w" and "cmd_ok m v" and "room b (entries (wr_store w)) 1"
    and "handle_cmd d sops kops m v w = (rep, w')"
  obtains new where "log_inv b w'" and "entries (wr_store w') = entries (wr_store w) @ new"
    and "map receipt_of new = receipts [rep]"
proof (cases m)
  case CmdHead
  with assms that [of "[]"] show thesis by (cases rep) auto
next
  case (CmdWrite r)
  then obtain res where p: "process d sops kops r v w = (res, w')" "rep = WriteReply res"
    using assms(4) by (auto split: prod.splits)
  have "clean_fault (env_fault v)" "rec_ok r" using assms(2) CmdWrite by (simp_all add: cmd_ok_def)
  note step = process_step [OF assms(1) this(2) assms(3) this(1) p(1)]
  show thesis
  proof (cases res)
    case (Inl er)
    with that step(1,2) step(4) p(2) show thesis by fastforce
  next
    case (Inr rc)
    with that step(1,2) step(3) p(2) show thesis by fastforce
  qed
qed

lemma room_append: "room b (es @ fs) n \<longleftrightarrow> room b es (length fs + n)"
  by (simp add: room_def add.assoc)

lemma room_mono: "room b es n \<Longrightarrow> m \<le> n \<Longrightarrow> room b es m"
  by (simp add: room_def)

lemma receipts_le: "length (receipts reps) \<le> length reps"
  by (induction reps) (auto simp: receipts_def List.map_filter_simps split: option.splits)

text \<open>The whole loop: the replies' receipts are those of the entries added, in order.\<close>

lemma writer_loop_steps:
  assumes "log_inv b w" and "\<forall>(m, v) \<in> set cs. cmd_ok m v"
    and "room b (entries (wr_store w)) (length cs)"
    and "writer_loop d sops kops cs w = (reps, w')"
  shows "log_inv b w' \<and>
    (\<exists>new. entries (wr_store w') = entries (wr_store w) @ new \<and> map receipt_of new = receipts reps)"
  using assms
proof (induction cs arbitrary: w reps)
  case (Cons c cs)
  obtain m v where c: "c = (m, v)" by (cases c)
  obtain rep w1 where h: "handle_cmd d sops kops m v w = (rep, w1)"
    by (cases "handle_cmd d sops kops m v w")
  obtain reps1 where l: "writer_loop d sops kops cs w1 = (reps1, w')" "reps = rep # reps1"
    using Cons.prems(4) c h by (auto split: prod.splits)
  have "room b (entries (wr_store w)) 1" "cmd_ok m v"
    using Cons.prems(2,3) c by (auto elim: room_mono)
  with handle_cmd_step [OF Cons.prems(1) this(2) this(1) h] obtain new where
    new: "log_inv b w1" "entries (wr_store w1) = entries (wr_store w) @ new"
      "map receipt_of new = receipts [rep]"
    by blast
  have "length new \<le> 1" using new(3) receipts_le [of "[rep]"] by (metis length_map list.size One_nat_def add_Suc_right add_0_right plus_1_eq_Suc)
  then have "room b (entries (wr_store w1)) (length cs)"
    using Cons.prems(3) new(2) by (auto simp: room_append elim: room_mono)
  with Cons.IH [OF new(1) _ _ l(1)] Cons.prems(2) obtain new1 where
    "log_inv b w'" "entries (wr_store w') = entries (wr_store w1) @ new1"
    "map receipt_of new1 = receipts reps1"
    by auto
  with new(2,3) l(2) show ?case
    using receipts_simps(5) [of "[rep]" reps1] by (intro conjI exI [of _ "new @ new1"]) simp_all
qed simp

text \<open>Every interleaving of the callers.\<close>

lemma reachable_chain:
  assumes "log_reachable d sops kops P w0 y" and "log_inv b w0"
    and "\<And>m v. P m v \<Longrightarrow> cmd_ok m v"
    and "room b (entries (wr_store w0)) (length (sy_replies y))"
  shows "log_inv b (sy_writer y) \<and>
    (\<exists>new. entries (wr_store (sy_writer y)) = entries (wr_store w0) @ new \<and>
       map receipt_of new = receipts (map snd (sy_replies y)))"
  using assms(1,4)
proof (induction rule: log_reachable.induct)
  case start
  with assms(2) show ?case by simp
next
  case (step y y')
  from step.hyps(2) show ?case
  proof (cases rule: log_step.cases)
    case (serve c m q v rep w')
    have r: "room b (entries (wr_store w0)) (length (sy_replies y) + 1)"
      using step.prems serve by simp
    then obtain new where new: "log_inv b (sy_writer y)"
        "entries (wr_store (sy_writer y)) = entries (wr_store w0) @ new"
        "map receipt_of new = receipts (map snd (sy_replies y))"
      using step.IH room_mono [OF r] by auto
    have "length new \<le> length (sy_replies y)"
      using new(3) receipts_le [of "map snd (sy_replies y)"] by (metis length_map)
    then have "room b (entries (wr_store (sy_writer y))) 1"
      using r new(2) by (auto simp: room_append elim: room_mono)
    from handle_cmd_step [OF new(1) assms(3) this serve(4)] serve(3) obtain new1 where
      "log_inv b w'" "entries (wr_store w') = entries (wr_store (sy_writer y)) @ new1"
      "map receipt_of new1 = receipts [rep]"
      by blast
    with new serve(1) show ?thesis by (intro conjI exI [of _ "new @ new1"]) simp_all
  qed (use step in auto)
qed

text \<open>Building on a store that holds a chain resumes it.\<close>

lemma build_resumes:
  assumes "inv s" and "kinv k" and "chain_from d b (entries s)"
    and "entries s = [] \<longrightarrow> b = genesis" and "hash_ok (snd (head_of b (entries s)))"
    and "log_build sops (builder_key_provider k (builder_store s builder_new)) True = Inr l"
  shows "\<exists>w. l = \<lparr>lh_tx = True, lh_writer = Some w\<rparr> \<and> log_inv b w \<and> wr_store w = s \<and>
    wr_provider w = k"
proof (cases "entries s" rule: rev_cases)
  case Nil
  then show ?thesis
    using assms tail_law [OF assms(1)]
    by (auto simp: log_build_def builder_key_provider_def builder_store_def builder_new_def
        log_inv_def genesis_def)
next
  case (snoc es e)
  then show ?thesis
    using assms tail_law [OF assms(1)]
    by (auto simp: log_build_def builder_key_provider_def builder_store_def builder_new_def
        log_inv_def entry_key_def)
qed

lemma build_succeeds:
  "inv s \<Longrightarrow>
   \<exists>l. log_build sops (builder_key_provider k (builder_store s builder_new)) True = Inr l"
  using tail_law [of s]
  by (auto simp: log_build_def builder_key_provider_def builder_store_def builder_new_def Let_def
      split: option.splits)

end

section \<open>The backends of the program\<close>

text \<open>What the crates have to promise for the engine over files.\<close>

definition engine_crates :: "crates \<Rightarrow> bool" where
  "engine_crates d \<longleftrightarrow> serde_ok d \<and> hex_ok d \<and> base64_ok d \<and> aead_ok d"

definition record_ok :: "crates \<Rightarrow> log_record \<Rightarrow> bool" where
  "record_ok d r \<longleftrightarrow> engine_crates d \<and> plain_record r"

lemma made_entry_ok:
  assumes "engine_crates d" and "plain_record r" and "utf8_string prev"
    and "seal_record d kops k r v = (Inr pii, k')"
  shows "entry_ok d (made_entry d r pii t s prev)"
proof -
  have "plain_pii pii"
    using assms(1,2,4)
    by (auto simp: seal_record_def engine_crates_def plain_record_def plain_pii_def [of None]
        intro: seal_plain split: option.splits prod.splits sum.splits)
  then show ?thesis
    using assms by (intro plain_entry_ok made_entry_plain) (simp_all add: engine_crates_def)
qed

lemma made_entry_hash_utf8:
  "engine_crates d \<Longrightarrow> utf8_string (e_entry_hash (made_entry d r pii t s prev))"
  using made_entry_hash [of d r pii t s prev] by (auto simp: engine_crates_def hex_utf8)

interpretation file_log: audit_engine "file_ops d" "file_inv d" "file_entries d" "entry_ok d"
  "keyring_ops d" "cipher_ok d" d "record_ok d" utf8_string for d
  by unfold_locales (auto simp: record_ok_def made_entry_ok made_entry_hash_utf8)

interpretation seg_log: audit_engine "seg_ops d" "seg_inv d" "seg_entries d" "entry_ok d"
  "keyring_ops d" "cipher_ok d" d "record_ok d" utf8_string for d
  by unfold_locales (auto simp: record_ok_def made_entry_ok made_entry_hash_utf8)

text \<open>Over segments again, with what is known of how full they are.\<close>

interpretation seg_full_log: audit_engine "seg_ops d" "seg_filled d m" "seg_entries d"
  "entry_ok d" "keyring_ops d" "cipher_ok d" d "record_ok d" utf8_string for d m
  by unfold_locales (auto simp: record_ok_def made_entry_ok made_entry_hash_utf8)

interpretation memory_log: audit_engine memory_ops memory_inv ms_entries "\<lambda>_. True"
  "local_ops d" "cipher_ok d" d "\<lambda>_. True" "\<lambda>_. True" for d
  by unfold_locales simp_all

end
