(* ===== verification/Checkpoint.thy ===== *)
theory Checkpoint
  imports Entry
begin

text \<open>
  Signed checkpoints (\<open>crates/core/src/checkpoint.rs\<close>): the canonical message, signing, and
  verification against the embedded and against a pinned public key.
\<close>

record checkpoint =
  cp_seq :: u64
  cp_head_hash :: string
  cp_timestamp :: i64
  cp_public_key :: string
  cp_signature :: string

definition message :: "u64 \<Rightarrow> string \<Rightarrow> i64 \<Rightarrow> bytes" where
  "message seq head_hash timestamp =
     (let buf = [];
          buf = push_field buf (as_bytes ''chainlog-checkpoint-v1'');
          buf = push_field buf (to_be_bytes seq);
          buf = push_field buf (as_bytes head_hash);
          buf = push_field buf (to_be_bytes timestamp)
      in buf)"

section \<open>Signers\<close>

text \<open>An Ed25519 \<open>SigningKey\<close> is its 32-byte seed.\<close>

record checkpoint_signer =
  sk_seed :: bytes

definition signer_generate :: "env \<Rightarrow> checkpoint_signer result" where
  "signer_generate v =
     (case fst (getrandom 32 v) of
        None \<Rightarrow> Inl (Crypto ''rng failure: '')
      | Some seed \<Rightarrow> Inr \<lparr>sk_seed = seed\<rparr>)"

definition signer_from_base64 :: "crates \<Rightarrow> string \<Rightarrow> checkpoint_signer result" where
  "signer_from_base64 d secret_b64 =
     (case b64_decode d (trim_str secret_b64) of
        None \<Rightarrow> Inl Base64
      | Some raw \<Rightarrow>
          if length raw = 32 then Inr \<lparr>sk_seed = raw\<rparr>
          else Inl (Key ''signing key must be 32 bytes''))"

definition secret_base64 :: "crates \<Rightarrow> checkpoint_signer \<Rightarrow> string" where
  "secret_base64 d s = b64_encode d (sk_seed s)"

definition public_base64 :: "crates \<Rightarrow> checkpoint_signer \<Rightarrow> string" where
  "public_base64 d s = b64_encode d (ed_public d (sk_seed s))"

definition sign :: "crates \<Rightarrow> checkpoint_signer \<Rightarrow> u64 \<Rightarrow> string \<Rightarrow> i64 \<Rightarrow> checkpoint" where
  "sign d s seq head_hash timestamp =
     (let msg = message seq head_hash timestamp;
          sig = ed_sign d (sk_seed s) msg
      in \<lparr>cp_seq = seq, cp_head_hash = head_hash, cp_timestamp = timestamp,
          cp_public_key = public_base64 d s, cp_signature = b64_encode d sig\<rparr>)"

definition sign_bytes :: "crates \<Rightarrow> checkpoint_signer \<Rightarrow> bytes \<Rightarrow> string" where
  "sign_bytes d s msg = b64_encode d (ed_sign d (sk_seed s) msg)"

section \<open>Verification\<close>

text \<open>\<open>B64.decode(..)?.try_into()\<close> to an array of \<open>n\<close> bytes.\<close>

definition decode_array :: "crates \<Rightarrow> nat \<Rightarrow> string \<Rightarrow> string \<Rightarrow> bytes result" where
  "decode_array d n err s =
     (case b64_decode d s of
        None \<Rightarrow> Inl Base64
      | Some raw \<Rightarrow> if length raw = n then Inr raw else Inl (Crypto err))"

definition verify_signature :: "crates \<Rightarrow> string \<Rightarrow> bytes \<Rightarrow> string \<Rightarrow> unit result" where
  "verify_signature d public_key_b64 msg signature_b64 =
     (case decode_array d 32 ''public key must be 32 bytes'' public_key_b64 of
        Inl e \<Rightarrow> Inl e
      | Inr pk \<Rightarrow>
          if \<not> ed_key_ok d pk then Inl (Crypto ''bad public key: '')
          else
            (case decode_array d 64 ''signature must be 64 bytes'' signature_b64 of
               Inl e \<Rightarrow> Inl e
             | Inr sig \<Rightarrow>
                 if ed_verify d pk msg sig then Inr ()
                 else Inl (Crypto ''signature invalid: '')))"

definition verify_checkpoint_with :: "crates \<Rightarrow> checkpoint \<Rightarrow> bytes \<Rightarrow> unit result" where
  "verify_checkpoint_with d cp expected_public_key =
     (case decode_array d 32 ''public key must be 32 bytes'' (cp_public_key cp) of
        Inl e \<Rightarrow> Inl e
      | Inr embedded \<Rightarrow>
          if embedded \<noteq> expected_public_key
          then Inl (Crypto ''checkpoint public key does not match the expected key'')
          else if \<not> ed_key_ok d expected_public_key then Inl (Crypto ''bad public key: '')
          else
            (case decode_array d 64 ''signature must be 64 bytes'' (cp_signature cp) of
               Inl e \<Rightarrow> Inl e
             | Inr sig \<Rightarrow>
                 let msg = message (cp_seq cp) (cp_head_hash cp) (cp_timestamp cp) in
                 if ed_verify d expected_public_key msg sig then Inr ()
                 else Inl (Crypto ''checkpoint signature invalid: '')))"

definition verify_checkpoint :: "crates \<Rightarrow> checkpoint \<Rightarrow> unit result" where
  "verify_checkpoint d cp =
     (case decode_array d 32 ''public key must be 32 bytes'' (cp_public_key cp) of
        Inl e \<Rightarrow> Inl e
      | Inr pk_bytes \<Rightarrow> verify_checkpoint_with d cp pk_bytes)"

section \<open>Lemmas\<close>

lemma message_fields:
  "message s h t =
     push_field [] (as_bytes ''chainlog-checkpoint-v1'') @ push_field [] (to_be_bytes s) @
     push_field [] (as_bytes h) @ push_field [] (to_be_bytes t)"
  by (simp add: message_def push_field_def Let_def)

lemma message_inject [codec]:
  "fits h \<Longrightarrow> fits h' \<Longrightarrow> message s h t = message s' h' t' \<longleftrightarrow> s = s' \<and> h = h' \<and> t = t'"
  by (simp add: message_fields push_field_inject push_field_inject_last del: as_bytes_simps)

lemma decode_array_encode [simp]:
  "base64_ok d \<Longrightarrow> length bs = n \<Longrightarrow> decode_array d n err (b64_encode d bs) = Inr bs"
  by (simp add: decode_array_def base64_decode_encode)

lemma decode_array_Inr:
  "decode_array d n err s = Inr bs \<longleftrightarrow> b64_decode d s = Some bs \<and> length bs = n"
  by (auto simp: decode_array_def split: option.splits)

lemma ed25519_sign_verify:
  assumes "ed25519_ok d" and "length s = 32"
  shows "length (ed_public d s) = 32" and "ed_key_ok d (ed_public d s)"
    and "length (ed_sign d s m) = 64" and "ed_verify d (ed_public d s) m (ed_sign d s m)"
  using assms by (simp_all add: ed25519_ok_def)

lemma verify_signature_sign_bytes [simp]:
  "ed25519_ok d \<Longrightarrow> base64_ok d \<Longrightarrow> length (sk_seed s) = 32 \<Longrightarrow>
   verify_signature d (public_base64 d s) msg (sign_bytes d s msg) = Inr ()"
  by (simp add: verify_signature_def public_base64_def sign_bytes_def ed25519_sign_verify)

text \<open>A pinned verification accepts exactly a checkpoint that the pinned key signed.\<close>

lemma verify_checkpoint_with_Inr:
  "verify_checkpoint_with d cp pk = Inr () \<longleftrightarrow>
     b64_decode d (cp_public_key cp) = Some pk \<and> length pk = 32 \<and> ed_key_ok d pk \<and>
     (\<exists>sig. b64_decode d (cp_signature cp) = Some sig \<and> length sig = 64 \<and>
        ed_verify d pk (message (cp_seq cp) (cp_head_hash cp) (cp_timestamp cp)) sig)"
  by (auto simp: verify_checkpoint_with_def Let_def decode_array_Inr split: sum.splits)
    (auto simp: decode_array_def split: option.splits if_splits)

text \<open>The unpinned check is the check against whatever key the checkpoint itself carries.\<close>

lemma verify_checkpoint_Inr:
  "verify_checkpoint d cp = Inr () \<longleftrightarrow> (\<exists>pk. verify_checkpoint_with d cp pk = Inr ())"
  by (auto simp: verify_checkpoint_def verify_checkpoint_with_Inr decode_array_Inr split: sum.splits)
    (auto simp: decode_array_def split: option.splits if_splits)

lemma verify_checkpoint_sign:
  "ed25519_ok d \<Longrightarrow> base64_ok d \<Longrightarrow> length (sk_seed s) = 32 \<Longrightarrow>
   verify_checkpoint_with d (sign d s n h t) (ed_public d (sk_seed s)) = Inr ()"
  by (simp add: verify_checkpoint_with_Inr sign_def Let_def public_base64_def
      base64_decode_encode ed25519_sign_verify)

end
