(* ===== verification/Merkle.thy ===== *)
theory Merkle
  imports Checkpoint
begin

text \<open>
  Merkle batch anchoring (\<open>crates/core/src/merkle.rs\<close>): the RFC 6962 tree hash, inclusion
  proofs and their check, and signed anchors. Digests are 32-byte lists; \<open>usize\<close> counts are
  \<open>nat\<close>.
\<close>

section \<open>The tree hash\<close>

definition leaf_hash :: "crates \<Rightarrow> bytes \<Rightarrow> bytes" where
  "leaf_hash d data = b3_hash d (0x00 # data)"

definition node_hash :: "crates \<Rightarrow> bytes \<Rightarrow> bytes \<Rightarrow> bytes" where
  "node_hash d left right = b3_hash d (0x01 # left @ right)"

text \<open>The loop of \<open>split_point\<close>; it runs from \<open>k = 1\<close>, so \<open>k\<close> is positive.\<close>

function split_loop :: "nat \<Rightarrow> nat \<Rightarrow> nat" where
  "split_loop k n = (if 0 < k \<and> 2 * k < n then split_loop (2 * k) n else k)"
  by pat_completeness auto
termination
  by (relation "measure (\<lambda>(k, n). n - k)") auto

declare split_loop.simps [simp del]

definition split_point :: "nat \<Rightarrow> nat" where
  "split_point n = split_loop 1 n"

lemma split_loop_spec:
  "2 ^ j < n \<Longrightarrow> \<exists>i. split_loop (2 ^ j) n = 2 ^ i \<and> 2 ^ i < n \<and> n \<le> 2 * 2 ^ i"
proof (induction "n - 2 ^ j" arbitrary: j rule: less_induct)
  case less
  show ?case
  proof (cases "2 ^ Suc j < n")
    case True
    have "(2 :: nat) ^ j < 2 ^ Suc j" by simp
    with True have "n - 2 ^ Suc j < n - 2 ^ j" by linarith
    from less.hyps [OF this True] True show ?thesis
      by (simp add: split_loop.simps [of "2 ^ j" n])
  next
    case False
    with less.prems have "split_loop (2 ^ j) n = 2 ^ j \<and> 2 ^ j < n \<and> n \<le> 2 * 2 ^ j"
      by (simp add: split_loop.simps [of "2 ^ j" n])
    then show ?thesis by blast
  qed
qed

lemma split_point_spec:
  assumes "2 \<le> n"
  obtains i where "split_point n = 2 ^ i" and "2 ^ i < n" and "n \<le> 2 * 2 ^ i"
  using split_loop_spec [of 0 n] assms by (auto simp: split_point_def)

lemma split_point_bounds:
  assumes "n \<noteq> 0" and "n \<noteq> Suc 0"
  shows "0 < split_point n" and "split_point n < n"
proof -
  from assms have "2 \<le> n" by simp
  then show "0 < split_point n" and "split_point n < n"
    by (auto elim: split_point_spec)
qed

lemma split_lengths:
  assumes "\<not> length xs \<le> Suc 0"
  shows "length (take (split_point (length xs)) xs) < length xs"
    and "length (drop (split_point (length xs)) xs) < length xs"
proof -
  from assms have "length xs \<noteq> 0" and "length xs \<noteq> Suc 0" by auto
  from split_point_bounds [OF this] this(1)
  show "length (take (split_point (length xs)) xs) < length xs"
    and "length (drop (split_point (length xs)) xs) < length xs"
    by simp_all
qed

function mth :: "crates \<Rightarrow> bytes list \<Rightarrow> bytes" where
  "mth d leaves =
     (let n = length leaves in
      if n = 0 then b3_hash d []
      else if n = 1 then leaf_hash d (leaves ! 0)
      else let k = split_point n in
           node_hash d (mth d (take k leaves)) (mth d (drop k leaves)))"
  by pat_completeness auto
termination
  by (relation "measure (\<lambda>(d, leaves). length leaves)")
    (auto simp del: length_take length_drop simp: le_Suc_eq intro!: split_lengths)

declare mth.simps [simp del]

function path :: "crates \<Rightarrow> bytes list \<Rightarrow> nat \<Rightarrow> (bytes \<times> bool) list \<Rightarrow> (bytes \<times> bool) list" where
  "path d leaves m out =
     (let n = length leaves in
      if n \<le> 1 then out
      else let k = split_point n in
           if m < k then path d (take k leaves) m out @ [(mth d (drop k leaves), True)]
           else path d (drop k leaves) (m - k) out @ [(mth d (take k leaves), False)])"
  by pat_completeness auto
termination
  by (relation "measure (\<lambda>(d, leaves, m, out). length leaves)")
    (auto simp del: length_take length_drop simp: le_Suc_eq intro!: split_lengths)

declare path.simps [simp del]

section \<open>Proofs\<close>

record proof_step =
  ps_hash :: string
  ps_right :: bool

record merkle_proof =
  leaf_index :: nat
  leaf_count :: nat
  mp_path :: "proof_step list"

definition from_hex :: "crates \<Rightarrow> string \<Rightarrow> bytes result" where
  "from_hex d s = ok_or (Crypto ''bad hex hash: '') (b3_from_hex d s)"

definition merkle_root :: "crates \<Rightarrow> bytes list \<Rightarrow> string" where
  "merkle_root d leaves = b3_to_hex d (mth d leaves)"

definition hex_step :: "crates \<Rightarrow> bytes \<times> bool \<Rightarrow> proof_step" where
  "hex_step d = (\<lambda>(h, right). \<lparr>ps_hash = b3_to_hex d h, ps_right = right\<rparr>)"

definition build_merkle_proof :: "crates \<Rightarrow> bytes list \<Rightarrow> nat \<Rightarrow> merkle_proof option" where
  "build_merkle_proof d leaves index =
     (if index \<ge> length leaves then None
      else let raw = path d leaves index [] in
           Some \<lparr>leaf_index = index, leaf_count = length leaves, mp_path = map (hex_step d) raw\<rparr>)"

fun climb :: "crates \<Rightarrow> bytes \<Rightarrow> proof_step list \<Rightarrow> bytes result" where
  "climb d node [] = Inr node"
| "climb d node (step # steps) =
     (case from_hex d (ps_hash step) of
        Inl e \<Rightarrow> Inl e
      | Inr sib \<Rightarrow>
          climb d (if ps_right step then node_hash d node sib else node_hash d sib node) steps)"

definition verify_merkle_proof :: "crates \<Rightarrow> bytes \<Rightarrow> merkle_proof \<Rightarrow> string \<Rightarrow> bool result" where
  "verify_merkle_proof d leaf prf root_hex =
     (case climb d (leaf_hash d leaf) (mp_path prf) of
        Inl e \<Rightarrow> Inl e
      | Inr node \<Rightarrow> Inr (b3_to_hex d node = root_hex))"

section \<open>Signed anchors\<close>

record merkle_anchor =
  from_seq :: u64
  to_seq :: u64
  ma_count :: nat
  ma_root :: string
  ma_timestamp :: i64
  ma_public_key :: string
  ma_signature :: string

definition anchor_message :: "u64 \<Rightarrow> u64 \<Rightarrow> nat \<Rightarrow> string \<Rightarrow> i64 \<Rightarrow> bytes" where
  "anchor_message from to count root timestamp =
     (let buf = [];
          buf = push_field buf (as_bytes ''chainlog-merkle-v1'');
          buf = push_field buf (to_be_bytes from);
          buf = push_field buf (to_be_bytes to);
          buf = push_field buf (to_be_bytes (word_of_nat count));
          buf = push_field buf (as_bytes root);
          buf = push_field buf (to_be_bytes timestamp)
      in buf)"

definition entry_leaves :: "audit_entry list \<Rightarrow> bytes list" where
  "entry_leaves entries = map (\<lambda>e. as_bytes (e_entry_hash e)) entries"

definition build_merkle_anchor ::
  "crates \<Rightarrow> checkpoint_signer \<Rightarrow> audit_entry list \<Rightarrow> i64 \<Rightarrow> merkle_anchor" where
  "build_merkle_anchor d signer entries timestamp =
     (let leaves = entry_leaves entries;
          root = b3_to_hex d (mth d leaves);
          from = (case entries of [] \<Rightarrow> 0 | e # _ \<Rightarrow> e_seq e);
          to = (case last_opt entries of None \<Rightarrow> 0 | Some e \<Rightarrow> e_seq e);
          count = length entries;
          msg = anchor_message from to count root timestamp
      in \<lparr>from_seq = from, to_seq = to, ma_count = count, ma_root = root,
          ma_timestamp = timestamp, ma_public_key = public_base64 d signer,
          ma_signature = sign_bytes d signer msg\<rparr>)"

definition verify_merkle_anchor :: "crates \<Rightarrow> merkle_anchor \<Rightarrow> unit result" where
  "verify_merkle_anchor d a =
     (let msg = anchor_message (from_seq a) (to_seq a) (ma_count a) (ma_root a) (ma_timestamp a)
      in verify_signature d (ma_public_key a) msg (ma_signature a))"

text \<open>\<open>iter().position(..)\<close>: the index of the first element that satisfies the predicate.\<close>

fun position :: "('a \<Rightarrow> bool) \<Rightarrow> 'a list \<Rightarrow> nat option" where
  "position p [] = None"
| "position p (x # xs) = (if p x then Some 0 else map_option Suc (position p xs))"

definition merkle_proof_for_seq ::
  "crates \<Rightarrow> audit_entry list \<Rightarrow> u64 \<Rightarrow> merkle_proof option" where
  "merkle_proof_for_seq d entries seq =
     (case position (\<lambda>e. e_seq e = seq) entries of
        None \<Rightarrow> None
      | Some index \<Rightarrow> build_merkle_proof d (entry_leaves entries) index)"

section \<open>Completeness of proofs\<close>

lemma mth_Nil: "mth d [] = b3_hash d []"
  by (subst mth.simps) simp

lemma mth_single: "length xs = Suc 0 \<Longrightarrow> mth d xs = leaf_hash d (xs ! 0)"
  by (subst mth.simps) simp

lemma mth_split:
  "\<not> length xs \<le> Suc 0 \<Longrightarrow>
   mth d xs = node_hash d (mth d (take (split_point (length xs)) xs))
                          (mth d (drop (split_point (length xs)) xs))"
  by (subst mth.simps) (auto simp: Let_def)

lemma path_single: "length xs \<le> Suc 0 \<Longrightarrow> path d xs m out = out"
  by (subst path.simps) simp

lemma path_left:
  "\<not> length xs \<le> Suc 0 \<Longrightarrow> m < split_point (length xs) \<Longrightarrow>
   path d xs m out =
     path d (take (split_point (length xs)) xs) m out @
     [(mth d (drop (split_point (length xs)) xs), True)]"
  by (subst path.simps) (simp add: Let_def)

lemma path_right:
  "\<not> length xs \<le> Suc 0 \<Longrightarrow> \<not> m < split_point (length xs) \<Longrightarrow>
   path d xs m out =
     path d (drop (split_point (length xs)) xs) (m - split_point (length xs)) out @
     [(mth d (take (split_point (length xs)) xs), False)]"
  by (subst path.simps) (simp add: Let_def)

lemma length_leaf_hash [simp]: "blake3_ok d \<Longrightarrow> length (leaf_hash d x) = 32"
  by (simp add: leaf_hash_def)

lemma length_node_hash [simp]: "blake3_ok d \<Longrightarrow> length (node_hash d x y) = 32"
  by (simp add: node_hash_def)

lemma length_mth [simp]: "blake3_ok d \<Longrightarrow> length (mth d xs) = 32"
  by (subst mth.simps) (simp add: Let_def)

lemma climb_append:
  "climb d n (ps @ qs) = (case climb d n ps of Inl e \<Rightarrow> Inl e | Inr n' \<Rightarrow> climb d n' qs)"
  by (induction ps arbitrary: n) (auto split: sum.splits)

text \<open>Induction over the recursion of the tree: a single leaf, or the two halves of the split.\<close>

lemma leaves_induct [consumes 1, case_names single split]:
  assumes "xs \<noteq> []"
    and "\<And>x. P [x]"
    and "\<And>xs. \<not> length xs \<le> Suc 0 \<Longrightarrow> P (take (split_point (length xs)) xs) \<Longrightarrow>
      P (drop (split_point (length xs)) xs) \<Longrightarrow> P xs"
  shows "P xs"
  using assms(1)
proof (induction "length xs" arbitrary: xs rule: less_induct)
  case less
  show ?case
  proof (cases "length xs \<le> Suc 0")
    case True
    with less.prems obtain x where "xs = [x]" by (cases xs) auto
    with assms(2) show ?thesis by simp
  next
    case False
    let ?k = "split_point (length xs)"
    from False have "length xs \<noteq> 0" and "length xs \<noteq> Suc 0" by auto
    from split_point_bounds [OF this] have ne: "take ?k xs \<noteq> []" "drop ?k xs \<noteq> []" by auto
    from less.hyps [OF split_lengths(1) [OF False] ne(1)]
      less.hyps [OF split_lengths(2) [OF False] ne(2)]
    show ?thesis by (rule assms(3) [OF False])
  qed
qed

lemma climb_path:
  assumes "blake3_ok d" and "hex_ok d"
  shows "xs \<noteq> [] \<Longrightarrow> m < length xs \<Longrightarrow>
    climb d (leaf_hash d (xs ! m)) (map (hex_step d) (path d xs m [])) = Inr (mth d xs)"
proof (induction xs arbitrary: m rule: leaves_induct)
  case (single x)
  then show ?case by (simp add: path_single mth_single)
next
  case (split xs)
  let ?k = "split_point (length xs)"
  show ?case
  proof (cases "m < ?k")
    case True
    then have "climb d (leaf_hash d (xs ! m)) (map (hex_step d) (path d (take ?k xs) m [])) =
        Inr (mth d (take ?k xs))"
      using split.IH(1) [of m] split.prems by simp
    with True split.hyps assms show ?thesis
      by (simp add: path_left climb_append hex_step_def from_hex_def hex_decode
          mth_split [of xs])
  next
    case False
    then have "climb d (leaf_hash d (xs ! m))
        (map (hex_step d) (path d (drop ?k xs) (m - ?k) [])) = Inr (mth d (drop ?k xs))"
      using split.IH(2) [of "m - ?k"] split.prems by simp
    with False split.hyps assms show ?thesis
      by (simp add: path_right climb_append hex_step_def from_hex_def hex_decode
          mth_split [of xs])
  qed
qed

lemma build_merkle_proof_Some:
  "build_merkle_proof d xs i = Some p \<longleftrightarrow>
     i < length xs \<and>
     p = \<lparr>leaf_index = i, leaf_count = length xs, mp_path = map (hex_step d) (path d xs i [])\<rparr>"
  by (auto simp: build_merkle_proof_def)

lemma verify_build_merkle_proof:
  assumes "blake3_ok d" and "hex_ok d" and "build_merkle_proof d xs i = Some p"
  shows "verify_merkle_proof d (xs ! i) p (merkle_root d xs) = Inr True"
proof -
  from assms(3) have "i < length xs" and "mp_path p = map (hex_step d) (path d xs i [])"
    by (auto simp: build_merkle_proof_Some)
  moreover from this have "xs \<noteq> []" by auto
  ultimately show ?thesis
    using climb_path [OF assms(1,2)] by (simp add: verify_merkle_proof_def merkle_root_def)
qed

subsection \<open>Logarithmic size\<close>

lemma length_path:
  "xs \<noteq> [] \<Longrightarrow> length xs \<le> 2 ^ k \<Longrightarrow> length (path d xs m []) \<le> k"
proof (induction xs arbitrary: m k rule: leaves_induct)
  case (single x)
  then show ?case by (simp add: path_single)
next
  case (split xs)
  let ?n = "length xs"
  from split.hyps have "2 \<le> ?n" by simp
  then obtain i where i: "split_point ?n = 2 ^ i" "2 ^ i < ?n" "?n \<le> 2 * 2 ^ i"
    by (rule split_point_spec)
  with split.prems have "(2 :: nat) ^ i < 2 ^ k" by linarith
  then have "i < k" by simp
  then obtain k' where k: "k = Suc k'" "i \<le> k'" by (cases k) auto
  have halves: "length (take (split_point ?n) xs) \<le> 2 ^ k'" "length (drop (split_point ?n) xs) \<le> 2 ^ k'"
    using i k(2) power_increasing [of i k' "2 :: nat"] by (simp_all, linarith)
  then show ?case
    using split.IH(1) [of k' m] split.IH(2) [of k' "m - split_point ?n"] split.hyps k(1)
    by (cases "m < split_point ?n") (simp_all add: path_left path_right)
qed

section \<open>Soundness of proofs\<close>

text \<open>
  Every byte string that building the root, and that checking a proof, feeds to the hash. If the
  hash has no collision among those finitely many strings, an accepted proof is exactly the
  honest proof of one of the leaves.
\<close>

function mth_inputs :: "crates \<Rightarrow> bytes list \<Rightarrow> bytes list" where
  "mth_inputs d leaves =
     (let n = length leaves in
      if n = 0 then [[]]
      else if n = 1 then [0x00 # leaves ! 0]
      else let k = split_point n in
           (0x01 # mth d (take k leaves) @ mth d (drop k leaves)) #
           mth_inputs d (take k leaves) @ mth_inputs d (drop k leaves))"
  by pat_completeness auto
termination
  by (relation "measure (\<lambda>(d, leaves). length leaves)")
    (auto simp del: length_take length_drop simp: le_Suc_eq intro!: split_lengths)

declare mth_inputs.simps [simp del]

fun climb_inputs :: "crates \<Rightarrow> bytes \<Rightarrow> proof_step list \<Rightarrow> bytes list" where
  "climb_inputs d node [] = []"
| "climb_inputs d node (step # steps) =
     (case from_hex d (ps_hash step) of
        Inl e \<Rightarrow> []
      | Inr sib \<Rightarrow>
          (0x01 # (if ps_right step then node @ sib else sib @ node)) #
          climb_inputs d
            (if ps_right step then node_hash d node sib else node_hash d sib node) steps)"

definition proof_inputs :: "crates \<Rightarrow> bytes \<Rightarrow> proof_step list \<Rightarrow> bytes list" where
  "proof_inputs d leaf steps = (0x00 # leaf) # climb_inputs d (leaf_hash d leaf) steps"

text \<open>The steps of a proof with their digests decoded.\<close>

definition raw_step :: "crates \<Rightarrow> proof_step \<Rightarrow> (bytes \<times> bool) option" where
  "raw_step d s = map_option (\<lambda>h. (h, ps_right s)) (b3_from_hex d (ps_hash s))"

lemma mth_inputs_single: "length xs = Suc 0 \<Longrightarrow> mth_inputs d xs = [0x00 # xs ! 0]"
  by (subst mth_inputs.simps) simp

lemma mth_inputs_split:
  "\<not> length xs \<le> Suc 0 \<Longrightarrow>
   mth_inputs d xs =
     (0x01 # mth d (take (split_point (length xs)) xs) @ mth d (drop (split_point (length xs)) xs)) #
     mth_inputs d (take (split_point (length xs)) xs) @
     mth_inputs d (drop (split_point (length xs)) xs)"
  by (subst mth_inputs.simps) (auto simp: Let_def)

lemma climb_snoc:
  "climb d n (ps @ [s]) = Inr r \<longleftrightarrow>
     (\<exists>n' sib. climb d n ps = Inr n' \<and> b3_from_hex d (ps_hash s) = Some sib \<and>
        r = (if ps_right s then node_hash d n' sib else node_hash d sib n'))"
  by (auto simp: climb_append from_hex_def ok_or_def split: sum.splits option.splits)

lemma climb_inputs_snoc:
  "climb d n ps = Inr n' \<Longrightarrow> b3_from_hex d (ps_hash s) = Some sib \<Longrightarrow>
   climb_inputs d n (ps @ [s]) =
     climb_inputs d n ps @ [0x01 # (if ps_right s then n' @ sib else sib @ n')]"
  by (induction ps arbitrary: n) (auto simp: from_hex_def split: sum.splits)

lemma climb_length:
  "blake3_ok d \<Longrightarrow> climb d n ps = Inr r \<Longrightarrow> length n = 32 \<Longrightarrow> length r = 32"
  by (induction ps arbitrary: n) (auto split: sum.splits if_splits)

lemma proof_inputs_snoc:
  "climb d (leaf_hash d leaf) ps = Inr n' \<Longrightarrow> b3_from_hex d (ps_hash s) = Some sib \<Longrightarrow>
   set (proof_inputs d leaf (ps @ [s])) =
     insert (0x01 # (if ps_right s then n' @ sib else sib @ n')) (set (proof_inputs d leaf ps))"
  by (auto simp: proof_inputs_def climb_inputs_snoc)

lemma leaf_in_inputs: "0x00 # leaf \<in> set (proof_inputs d leaf ps)"
  by (simp add: proof_inputs_def)

lemma climb_sound:
  assumes "blake3_ok d" and "hex_ok d"
  shows "xs \<noteq> [] \<Longrightarrow>
    inj_on (b3_hash d) (set (mth_inputs d xs) \<union> set (proof_inputs d leaf ps)) \<Longrightarrow>
    climb d (leaf_hash d leaf) ps = Inr (mth d xs) \<Longrightarrow>
    \<exists>i < length xs. leaf = xs ! i \<and> map (raw_step d) ps = map Some (path d xs i [])"
proof (induction xs arbitrary: ps rule: leaves_induct)
  case (single x)
  have xin: "0x00 # x \<in> set (mth_inputs d [x])" by (simp add: mth_inputs_single)
  show ?case
  proof (cases ps rule: rev_cases)
    case Nil
    with single.prems(2) have "b3_hash d (0x00 # leaf) = b3_hash d (0x00 # x)"
      by (simp add: leaf_hash_def mth_single)
    then have "leaf = x"
      using inj_onD [OF single.prems(1)] leaf_in_inputs xin by blast
    with Nil show ?thesis by (simp add: path_single)
  next
    case (snoc ps' s)
    with single.prems(2) obtain n' sib where
      c: "climb d (leaf_hash d leaf) ps' = Inr n'" "b3_from_hex d (ps_hash s) = Some sib" and
      eq: "b3_hash d (0x01 # (if ps_right s then n' @ sib else sib @ n')) = b3_hash d (0x00 # x)"
      by (auto simp: climb_snoc mth_single leaf_hash_def node_hash_def split: if_splits)
    have "0x01 # (if ps_right s then n' @ sib else sib @ n') = 0x00 # x"
      by (rule inj_onD [OF single.prems(1) eq]) (use xin snoc proof_inputs_snoc [OF c] in simp_all)
    then show ?thesis by simp
  qed
next
  case (split xs)
  let ?k = "split_point (length xs)"
  let ?l = "mth d (take ?k xs)" and ?r = "mth d (drop ?k xs)"
  have root: "mth d xs = b3_hash d (0x01 # ?l @ ?r)"
    using mth_split [OF split.hyps] by (simp add: node_hash_def)
  have inputs: "set (mth_inputs d xs) =
      insert (0x01 # ?l @ ?r) (set (mth_inputs d (take ?k xs)) \<union> set (mth_inputs d (drop ?k xs)))"
    using mth_inputs_split [OF split.hyps] by simp
  show ?case
  proof (cases ps rule: rev_cases)
    case Nil
    with split.prems(2) root have "b3_hash d (0x00 # leaf) = b3_hash d (0x01 # ?l @ ?r)"
      by (simp add: leaf_hash_def)
    then have "0x00 # leaf = 0x01 # ?l @ ?r"
      using inj_onD [OF split.prems(1)] leaf_in_inputs inputs by blast
    then show ?thesis by simp
  next
    case (snoc ps' s)
    with split.prems(2) root obtain n' sib where
      c: "climb d (leaf_hash d leaf) ps' = Inr n'" "b3_from_hex d (ps_hash s) = Some sib" and
      eq: "b3_hash d (0x01 # (if ps_right s then n' @ sib else sib @ n')) =
        b3_hash d (0x01 # ?l @ ?r)"
      by (auto simp: climb_snoc node_hash_def split: if_splits)
    have lens: "length n' = 32" "length sib = 32"
      using climb_length [OF assms(1) c(1)] hex_length [OF assms(2) c(2)] assms(1) by simp_all
    have "(if ps_right s then n' @ sib else sib @ n') = ?l @ ?r"
      using inj_onD [OF split.prems(1) eq] snoc proof_inputs_snoc [OF c] inputs by simp
    then have ends: "if ps_right s then n' = ?l \<and> sib = ?r else sib = ?l \<and> n' = ?r"
      using lens assms(1) by (auto split: if_splits)
    have inj: "inj_on (b3_hash d) (set (mth_inputs d (take ?k xs)) \<union> set (proof_inputs d leaf ps'))"
        "inj_on (b3_hash d) (set (mth_inputs d (drop ?k xs)) \<union> set (proof_inputs d leaf ps'))"
      by (rule inj_on_subset [OF split.prems(1)];
        auto simp: inputs snoc proof_inputs_snoc [OF c])+
    show ?thesis
    proof (cases "ps_right s")
      case True
      with ends c(1) split.IH(1) [OF inj(1)] obtain i where
        "i < length (take ?k xs)" "leaf = take ?k xs ! i"
        "map (raw_step d) ps' = map Some (path d (take ?k xs) i [])"
        by auto
      with True ends c(2) snoc split.hyps show ?thesis
        by (intro exI [of _ i]) (auto simp: path_left raw_step_def [of d s])
    next
      case False
      with ends c(1) split.IH(2) [OF inj(2)] obtain i where
        "i < length (drop ?k xs)" "leaf = drop ?k xs ! i"
        "map (raw_step d) ps' = map Some (path d (drop ?k xs) i [])"
        by auto
      with False ends c(2) snoc split.hyps show ?thesis
        by (intro exI [of _ "?k + i"]) (auto simp: path_right raw_step_def [of d s])
    qed
  qed
qed

lemma verify_merkle_proof_sound:
  assumes "blake3_ok d" and "hex_ok d" and "xs \<noteq> []"
    and "inj_on (b3_hash d) (set (mth_inputs d xs) \<union> set (proof_inputs d leaf (mp_path p)))"
    and "verify_merkle_proof d leaf p (merkle_root d xs) = Inr True"
  shows "\<exists>i < length xs. leaf = xs ! i \<and> map (raw_step d) (mp_path p) = map Some (path d xs i [])"
proof -
  from assms(5) obtain n where n: "climb d (leaf_hash d leaf) (mp_path p) = Inr n"
    and "b3_to_hex d n = b3_to_hex d (mth d xs)"
    by (auto simp: verify_merkle_proof_def merkle_root_def split: sum.splits)
  then have "n = mth d xs"
    using climb_length [OF assms(1) n] assms(1,2) by (simp add: hex_inject)
  with n climb_sound [OF assms(1-4)] show ?thesis by simp
qed

section \<open>Anchors\<close>

lemma position_Some:
  "position p xs = Some i \<Longrightarrow> i < length xs \<and> p (xs ! i) \<and> (\<forall>j < i. \<not> p (xs ! j))"
  by (induction xs arbitrary: i) (auto simp: less_Suc_eq_0_disj split: if_splits)

lemma position_None: "position p xs = None \<longleftrightarrow> (\<forall>x \<in> set xs. \<not> p x)"
  by (induction xs) auto

lemma position_find: "map_option ((!) xs) (position p xs) = find p xs"
  by (induction xs) (auto simp: option.map_comp comp_def)

lemma anchor_message_fields:
  "anchor_message f t n r ts =
     push_field [] (as_bytes ''chainlog-merkle-v1'') @ push_field [] (to_be_bytes f) @
     push_field [] (to_be_bytes t) @ push_field [] (to_be_bytes (word_of_nat n)) @
     push_field [] (as_bytes r) @ push_field [] (to_be_bytes ts)"
  by (simp add: anchor_message_def push_field_def Let_def)

text \<open>The two kinds of signed message differ in their first field.\<close>

lemma message_domains: "message s h t \<noteq> anchor_message f t' n r ts"
proof -
  have "as_bytes ''chainlog-checkpoint-v1'' \<noteq> as_bytes ''chainlog-merkle-v1''"
    by (simp only: as_bytes_inject) simp
  then show ?thesis
    by (simp add: message_fields anchor_message_fields push_field_inject fits_def
        del: as_bytes_simps)
qed

lemma verify_build_merkle_anchor:
  "ed25519_ok d \<Longrightarrow> base64_ok d \<Longrightarrow> length (sk_seed s) = 32 \<Longrightarrow>
   verify_merkle_anchor d (build_merkle_anchor d s es t) = Inr ()"
  by (simp add: verify_merkle_anchor_def build_merkle_anchor_def Let_def)

lemma ma_root_build: "ma_root (build_merkle_anchor d s es t) = merkle_root d (entry_leaves es)"
  by (simp add: build_merkle_anchor_def merkle_root_def Let_def)

end
