(* ===== verification/Retention.thy ===== *)
theory Retention
  imports Segment
begin

text \<open>
  Opening a segmented log that a store has left, and what pruning
  (\<open>crates/core/src/segment.rs\<close>) deletes, keeps and returns.
\<close>

section \<open>Opening\<close>

lemma find_map_pieces:
  assumes "\<forall>(f, es) \<in> set ps. read_path d files (segment_name f) = Inr es"
  shows "find_map (\<lambda>(_, p). case result_ok (read_path d files p) of
             None \<Rightarrow> None | Some es' \<Rightarrow> tail_of es') (rev (map (\<lambda>(f, _). (f, segment_name f)) ps)) =
         tail_of (all_entries ps)"
  using assms
proof (induction ps rule: rev_induct)
  case (snoc p ps)
  obtain f es where p: "p = (f, es)" by (cases p)
  with snoc show ?case by (cases es rule: rev_cases) (auto simp: result_ok_def simp flip: append_assoc)
qed simp

text \<open>A directory without segments: the log starts in segment 1.\<close>

lemma seg_open_new:
  assumes "names_segments (map fst files) {}" and "m \<noteq> 0" and "env_fault v \<noteq> OpenFault"
  shows "\<exists>s. seg_open d (Some files) m v = Inr s \<and> seg_rep d s [(1, [])]"
proof -
  have "segments_of_names (map fst files) = []"
    using segments_of_names_eq [of "map fst files" "[]"] assms(1) by simp
  then have "seg_open d (Some files) m v = Inr
      \<lparr>sg_dir = touch (segment_name 1) files, sg_max_entries = m, sg_file = segment_name 1,
       sg_cur_first = 1, sg_cur_count = 0, sg_tail = None\<rparr>"
    using assms(2,3) by (simp add: seg_open_def list_segments_def)
  moreover have "holds d files []" using assms(1) by (simp add: holds_def)
  then have "holds d (touch (segment_name 1) files) ([] @ [(1, [])])"
    using holds_touch_new [of d files "[]" 1] by simp
  then have "seg_rep d \<lparr>sg_dir = touch (segment_name 1) files, sg_max_entries = m,
      sg_file = segment_name 1, sg_cur_first = 1, sg_cur_count = 0, sg_tail = None\<rparr>
      ([] @ [(1, [])])"
    using assms(2) by (intro seg_repI) (simp_all add: next_seq_def word_gt_0)
  ultimately show ?thesis by auto
qed

lemma seg_open_no_dir: "seg_open d None m v = seg_open d (Some []) m v"
  by (simp add: seg_open_def)

text \<open>A directory that a store has left: the log resumes where it was.\<close>

lemma seg_open_pieces:
  assumes "holds d files ps" and "pieces_ok ps" and "last_ok ps" and "ps \<noteq> []"
    and "fits (snd (last ps))" and "m \<noteq> 0" and "env_fault v \<noteq> OpenFault"
  shows "\<exists>s. seg_open d (Some files) m v = Inr s \<and> seg_rep d s ps"
proof -
  obtain qs g es where ps: "ps = qs @ [(g, es)]"
    using assms(4) by (metis rev_exhaust surj_pair)
  have holds: "holds d files (qs @ [(g, es)])" and ok: "pieces_ok (qs @ [(g, es)])"
    using assms(1,2) ps by simp_all
  have read: "read_path d files (segment_name f) = Inr xs" if "(f, xs) \<in> set ps" for f xs
    using holds_read [OF assms(1) that] .
  have listing: "list_segments (Some files) =
      map (\<lambda>(f, _). (f, segment_name f)) qs @ [(g, segment_name g)]"
    using holds_listing [OF holds ok] by simp
  then have last: "last_opt (list_segments (Some files)) = Some (g, segment_name g)"
    by (simp add: last_opt_def)
  define t where "t = tail_of (all_entries ps)"
  have tail: "(case tail_of es of Some t \<Rightarrow> Some t | None \<Rightarrow>
      find_map (\<lambda>(_, p). case result_ok (read_path d files p) of
          None \<Rightarrow> None | Some es' \<Rightarrow> tail_of es') (rev (list_segments (Some files)))) = t"
  proof (cases es rule: rev_cases)
    case Nil
    with find_map_pieces [of ps d files] read listing ps show ?thesis by (auto simp: t_def)
  next
    case (snoc xs x)
    then show ?thesis by (simp add: t_def ps flip: append_assoc)
  qed
  have touch: "touch (segment_name g) files = files"
    using touch_existing holdsD(2) [OF holds, of g es] by simp
  let ?s = "\<lparr>sg_dir = files, sg_max_entries = m, sg_file = segment_name g, sg_cur_first = g,
      sg_cur_count = word_of_nat (length es), sg_tail = t\<rparr>"
  have "seg_open d (Some files) m v = Inr ?s"
    using tail read [of g es] assms(6,7) touch last
    by (simp add: seg_open_def ps tail_of_fold)
  moreover have "seg_rep d ?s (qs @ [(g, es)])"
    using holds ok assms(3,5,6) ps
    by (intro seg_repI) (simp_all add: last_ok_def t_def fits_def unat_of_nat take_bit_nat_eq_self word_gt_0)
  ultimately show ?thesis using ps by blast
qed

section \<open>Pruning\<close>

lemma prune_loop_pieces:
  assumes "holds d files ps" and "pieces_ok ps" and "ps \<noteq> []"
    and "prune_loop rm b (map (\<lambda>(f, _). (f, segment_name f)) ps) files flag = (r, files')"
  shows "\<exists>qs rs. ps = qs @ rs \<and> rs \<noteq> [] \<and> holds d files' rs \<and>
    (\<forall>e \<in> set (all_entries qs). e_seq e < b) \<and>
    (\<forall>x. r = Inr x \<longrightarrow> x = (flag \<or> qs \<noteq> []) \<and> (tl rs = [] \<or> b < fst (hd (tl rs))))"
  using assms
proof (induction ps arbitrary: files flag)
  case (Cons p ps)
  obtain f es where p: "p = (f, es)" by (cases p)
  show ?case
  proof (cases ps)
    case Nil
    with Cons.prems p show ?thesis by - (rule exI [of _ "[]"], rule exI [of _ "[p]"], auto)
  next
    case (Cons p' ps')
    obtain f' es' where p': "p' = (f', es')" by (cases p')
    have keep: ?thesis if "files' = files" "\<And>x. r = Inr x \<Longrightarrow> x = flag \<and> b < f'"
      using Cons.prems(1) that Cons p p' by - (rule exI [of _ "[]"], rule exI [of _ "p # ps"], auto)
    show ?thesis
    proof (cases "f' \<le> b \<and> \<not> rm (segment_name f)")
      case False
      then show ?thesis using Cons.prems(4) Cons p p' by (intro keep) (auto split: if_splits)
    next
      case True
      have "holds d (AList.delete (segment_name f) files) ps"
        using holds_delete_first Cons.prems(1,2) p by blast
      moreover have "pieces_ok ps" using Cons.prems(2) p by simp
      moreover have "prune_loop rm b (map (\<lambda>(f, _). (f, segment_name f)) ps)
          (AList.delete (segment_name f) files) True = (r, files')"
        using Cons.prems(4) Cons p p' True by simp
      ultimately obtain qs rs where IH: "ps = qs @ rs" "rs \<noteq> []" "holds d files' rs"
          "\<forall>e \<in> set (all_entries qs). e_seq e < b"
          "\<forall>x. r = Inr x \<longrightarrow> x = True \<and> (tl rs = [] \<or> b < fst (hd (tl rs)))"
        using Cons.IH [of "AList.delete (segment_name f) files" True] Cons by auto
      have "\<forall>e \<in> set es. e_seq e < b"
        using Cons.prems(2) p p' Cons True by (auto intro: less_le_trans)
      then have "\<forall>e \<in> set (all_entries (p # qs)). e_seq e < b" using IH(4) p by auto
      then show ?thesis using IH(1-3,5) by - (rule exI [of _ "p # qs"], rule exI [of _ rs], simp, blast)
    qed
  qed
qed simp

text \<open>The anchor that pruning returns, when it deletes \<open>qs\<close> and keeps \<open>rs\<close>.\<close>

definition prune_anchor :: "pieces \<Rightarrow> pieces \<Rightarrow> anchor option" where
  "prune_anchor qs rs =
     (if qs = [] then None
      else case rs of
        (_, e # _) # _ \<Rightarrow>
          if e_seq e > 1 then Some \<lparr>a_seq = e_seq e - 1, a_hash = e_prev_hash e\<rparr> else None
      | _ \<Rightarrow> None)"

lemma prune_before_pieces:
  assumes "holds d files ps" and "pieces_ok ps" and "ps \<noteq> []"
    and "prune_before d (Some files) b rm = (r, dir')"
  obtains qs rs files' where "dir' = Some files'" and "ps = qs @ rs" and "rs \<noteq> []"
    and "holds d files' rs" and "\<And>e. e \<in> set (all_entries qs) \<Longrightarrow> e_seq e < b"
    and "\<And>a. r = Inr a \<Longrightarrow> a = prune_anchor qs rs \<and> (tl rs = [] \<or> b < fst (hd (tl rs)))"
proof (cases "length ps \<le> 1")
  case True
  then have "r = Inr None" "dir' = Some files"
    using assms(4) by (simp_all add: prune_before_def holds_listing [OF assms(1,2)])
  moreover have "tl ps = []" using True by (cases ps) auto
  ultimately show thesis using that [of files "[]" ps] assms by (simp add: prune_anchor_def)
next
  case False
  obtain x files' where loop:
    "prune_loop rm b (map (\<lambda>(f, _). (f, segment_name f)) ps) files False = (x, files')"
    by (cases "prune_loop rm b (map (\<lambda>(f, _). (f, segment_name f)) ps) files False")
  from prune_loop_pieces [OF assms(1-3) loop] obtain qs rs where
    parts: "ps = qs @ rs" "rs \<noteq> []" "holds d files' rs" "\<forall>e \<in> set (all_entries qs). e_seq e < b"
    and x: "\<forall>y. x = Inr y \<longrightarrow> y = (qs \<noteq> []) \<and> (tl rs = [] \<or> b < fst (hd (tl rs)))"
    by auto
  have "pieces_ok rs" using assms(2) parts(1) by (induction qs arbitrary: ps) auto
  then have listing: "list_segments (Some files') = map (\<lambda>(f, _). (f, segment_name f)) rs"
    using parts(3) holds_listing by blast
  obtain g gs rs' where rs: "rs = (g, gs) # rs'"
    using parts(2) by (metis list.exhaust surj_pair)
  have read: "read_path d files' (segment_name g) = Inr gs"
    using holds_read [OF parts(3), of g gs] rs by simp
  have "dir' = Some files' \<and> (\<forall>a. r = Inr a \<longrightarrow> (\<exists>y. x = Inr y) \<and> a = prune_anchor qs rs)"
    using assms(4) False loop x listing read rs
    by (auto simp: prune_before_def holds_listing [OF assms(1,2)] prune_anchor_def result_ok_def
        Let_def split: sum.splits bool.splits list.splits if_splits)
  with parts x that [of files' qs rs] show thesis by blast
qed

section \<open>Pruned logs\<close>

lemma pieces_ok_append:
  "pieces_ok (ps @ qs) \<Longrightarrow>
   pieces_ok ps \<and> pieces_ok qs \<and> (qs \<noteq> [] \<longrightarrow> list_all (\<lambda>p. snd p \<noteq> []) ps) \<and>
   (\<forall>x \<in> set (all_entries ps). \<forall>p \<in> set qs. e_seq x < fst p)"
proof (induction ps rule: pieces_ok.induct)
  case (2 f es ps)
  then have all: "\<forall>(f', _) \<in> set (ps @ qs). f < f' \<and> (\<forall>e \<in> set es. e_seq e < f')"
    unfolding pieces_ok.simps append_Cons by blast
  have "e_seq x < fst p" if "x \<in> set es" "p \<in> set qs" for x p
    using bspec [OF all, of p] that by (cases p) simp
  with 2 show ?case by auto
qed simp

lemma pieces_ok_first_le:
  "pieces_ok ((f, es) # ps) \<Longrightarrow> x \<in> set (all_entries ((f, es) # ps)) \<Longrightarrow> f \<le> e_seq x"
proof (induction ps arbitrary: f es)
  case (Cons p ps)
  obtain g gs where p: "p = (g, gs)" by (cases p)
  show ?case
  proof (cases "x \<in> set es")
    case False
    then have "g \<le> e_seq x" using Cons.IH [of g gs] Cons.prems p by auto
    moreover have "f < g" using Cons.prems(1) p by auto
    ultimately show ?thesis by simp
  qed (use Cons.prems(1) in auto)
qed auto

lemma all_entries_nonempty: "list_all (\<lambda>p. snd p \<noteq> []) ps \<Longrightarrow> ps \<noteq> [] \<Longrightarrow> all_entries ps \<noteq> []"
  by (cases ps) (auto simp: all_entries_def)

text \<open>The anchor is the last entry deleted, so what is kept verifies from it.\<close>

lemma prune_anchor_base:
  assumes "pieces_ok (qs @ rs)" and "chain_from d b (all_entries (qs @ rs))"
    and "qs \<noteq> []" and "rs \<noteq> []" and "snd (hd rs) \<noteq> []" and "0 < fst (hd qs)"
  shows "\<exists>a. prune_anchor qs rs = Some a \<and> base_of (Some a) = head_of b (all_entries qs)"
proof -
  obtain g e gs rs' where rs: "rs = (g, e # gs) # rs'"
    using assms(4,5) by (metis list.exhaust list.sel(1) prod.collapse)
  obtain f es qs' where qs: "qs = (f, es) # qs'" using assms(3) by (metis list.exhaust surj_pair)
  note parts = pieces_ok_append [OF assms(1)]
  have ne: "all_entries qs \<noteq> []" using parts assms(3,4) all_entries_nonempty by blast
  define x where "x = last (all_entries qs)"
  have x: "x \<in> set (all_entries qs)" using ne by (simp add: x_def)
  have head: "head_of b (all_entries qs) = (e_seq x, e_entry_hash x)"
    using ne by (simp add: head_of_def x_def)
  have "e_seq e = e_seq x + 1" "e_prev_hash e = e_entry_hash x"
    using assms(2) rs head by simp_all
  moreover have "0 < e_seq x"
    using pieces_ok_first_le [of f es qs' x] parts qs x assms(6) by (auto intro: less_le_trans)
  moreover have "e_seq x < e_seq e"
    using parts x rs by (auto intro: less_le_trans)
  moreover have "1 < e_seq e"
    using calculation(3,4) by (metis inc_le order_le_less_trans add_0)
  ultimately show ?thesis
    using assms(3) rs head by (simp add: prune_anchor_def base_of_def)
qed

text \<open>The store opened after pruning has the same head, if its last segment is not empty.\<close>

lemma tail_of_append: "es \<noteq> [] \<Longrightarrow> tail_of (xs @ es) = tail_of es"
  by (simp add: tail_of_def last_opt_def)

lemma last_ok_nonempty: "snd (last ps) \<noteq> [] \<Longrightarrow> last_ok ps"
  by (simp add: last_ok_def)

lemma find_split: "find P xs = Some x \<Longrightarrow> \<exists>ys zs. xs = ys @ x # zs \<and> (\<forall>y \<in> set ys. \<not> P y)"
proof (induction xs)
  case (Cons y xs)
  show ?case
  proof (cases "P y")
    case True
    with Cons.prems show ?thesis by - (rule exI [of _ "[]"], auto)
  next
    case False
    with Cons obtain ys zs where "xs = ys @ x # zs" "\<forall>y \<in> set ys. \<not> P y" by auto
    with False show ?thesis by - (rule exI [of _ "y # ys"], rule exI [of _ zs], auto)
  qed
qed simp

text \<open>A prefix without the entry found ends before it.\<close>

lemma prefix_before:
  assumes "qs @ rs = ys @ x # zs" and "x \<notin> set qs"
  shows "set qs \<subseteq> set ys"
  using assms by (auto simp: append_eq_append_conv2 append_eq_Cons_conv)

lemma prune_before_timestamp_pieces:
  assumes "holds d files ps" and "pieces_ok ps" and "ps \<noteq> []"
    and "prune_before_timestamp d (Some files) cutoff rm = (r, dir')"
  obtains qs rs files' where "dir' = Some files'" and "ps = qs @ rs" and "rs \<noteq> []"
    and "holds d files' rs"
    and "\<And>e. e \<in> set (all_entries qs) \<Longrightarrow> sint (e_timestamp e) < sint cutoff"
    and "\<And>a. r = Inr a \<Longrightarrow> a = prune_anchor qs rs"
proof (cases "find (\<lambda>e. sint (e_timestamp e) \<ge> sint cutoff) (all_entries ps)")
  case None
  then have "r = Inr None" "dir' = Some files"
    using assms(4) by (simp_all add: prune_before_timestamp_def holds_read_all [OF assms(1,2)])
  with assms that [of files "[]" ps] show thesis by (simp add: prune_anchor_def)
next
  case (Some x)
  then obtain ys zs where split: "all_entries ps = ys @ x # zs"
      and older: "\<forall>y \<in> set ys. sint (e_timestamp y) < sint cutoff"
    using find_split [OF Some] by (auto simp: not_le)
  have "prune_before d (Some files) (e_seq x) rm = (r, dir')"
    using assms(4) Some by (simp add: prune_before_timestamp_def holds_read_all [OF assms(1,2)])
  from prune_before_pieces [OF assms(1-3) this] obtain qs rs files' where
    parts: "dir' = Some files'" "ps = qs @ rs" "rs \<noteq> []" "holds d files' rs"
      "\<And>e. e \<in> set (all_entries qs) \<Longrightarrow> e_seq e < e_seq x"
      "\<And>a. r = Inr a \<Longrightarrow> a = prune_anchor qs rs \<and> (tl rs = [] \<or> e_seq x < fst (hd (tl rs)))"
    by blast
  have "x \<notin> set (all_entries qs)" using parts(5) by blast
  then have "set (all_entries qs) \<subseteq> set ys"
    using prefix_before [of "all_entries qs" "all_entries rs" ys x zs] split parts(2) by simp
  with older have "\<And>e. e \<in> set (all_entries qs) \<Longrightarrow> sint (e_timestamp e) < sint cutoff" by blast
  from that [OF parts(1-4) this] parts(6) show thesis by blast
qed

end
