(* ===== verification/Demo.thy ===== *)
theory Demo
  imports Crates
begin

text \<open>
  One instance \<open>demo\<close> of the parameter \<open>crates\<close> for which every law of theory \<open>Crates\<close> holds. It is
  not the crates: the checksum is no cryptographic hash and the text is not JSON. It serves to
  show that the hypotheses of the theorems can hold together.
\<close>

section \<open>Hexadecimal text\<close>

definition nib :: "nat \<Rightarrow> char" where
  "nib n = char_of (if n < 10 then 48 + n else 87 + n)"

definition unnib :: "char \<Rightarrow> nat option" where
  "unnib c =
     (let n = of_char c in
      if 48 \<le> n \<and> n \<le> 57 then Some (n - 48)
      else if 97 \<le> n \<and> n \<le> 102 then Some (n - 87) else None)"

fun hexs :: "bytes \<Rightarrow> string" where
  "hexs [] = []"
| "hexs (b # bs) = nib (unat b div 16) # nib (unat b mod 16) # hexs bs"

fun unhex :: "string \<Rightarrow> bytes option" where
  "unhex [] = Some []"
| "unhex (c1 # c2 # cs) =
     (case (unnib c1, unnib c2) of
        (Some x, Some y) \<Rightarrow> map_option ((#) (word_of_nat (x * 16 + y))) (unhex cs)
      | _ \<Rightarrow> None)"
| "unhex [c] = None"

lemma of_nib: "n < 16 \<Longrightarrow> of_char (nib n) = (if n < 10 then 48 + n else 87 + n :: nat)"
  by (simp add: nib_def)

lemma unnib_nib: "n < 16 \<Longrightarrow> unnib (nib n) = Some n"
  by (auto simp: unnib_def of_nib Let_def)

lemma graph_nib: "n < 16 \<Longrightarrow> graph_char (nib n)"
  by (auto simp: graph_char_def of_nib)

lemma unhex_hexs [simp]: "unhex (hexs bs) = Some bs"
  by (induction bs) (simp_all add: unnib_nib less_mult_imp_div_less)

lemma length_hexs [simp]: "length (hexs bs) = 2 * length bs"
  by (induction bs) auto

lemma length_unhex: "unhex s = Some bs \<Longrightarrow> length s = 2 * length bs"
  by (induction s arbitrary: bs rule: unhex.induct) (auto split: option.splits)

lemma graph_hexs: "list_all graph_char (hexs bs)"
  by (induction bs) (simp_all add: graph_nib less_mult_imp_div_less)

section \<open>Text for JSON trees\<close>

definition enc_str :: "string \<Rightarrow> string" where
  "enc_str s = concat (map (\<lambda>c. [CHR '','', c]) s) @ ''.''"

fun dec_str :: "string \<Rightarrow> (string \<times> string) option" where
  "dec_str [] = None"
| "dec_str [c] = (if c = CHR ''.'' then Some ([], []) else None)"
| "dec_str (c # x # cs) =
     (if c = CHR ''.'' then Some ([], x # cs)
      else map_option (\<lambda>(s, r). (x # s, r)) (dec_str cs))"

lemma dec_enc_str [simp]: "dec_str (enc_str s @ r) = Some (s, r)"
proof (induction s)
  case Nil
  then show ?case by (cases r) (simp_all add: enc_str_def)
qed (simp add: enc_str_def)

definition dec_word :: "(u64 \<Rightarrow> json) \<Rightarrow> string \<Rightarrow> (json \<times> string) option" where
  "dec_word f s = map_option (\<lambda>w. (f w, drop 20 s)) (parse_u64 (take 20 s))"

lemma dec_word_enc [simp]: "dec_word f (show_u64_020 w @ r) = Some (f w, r)"
  by (simp add: dec_word_def)

primrec enc :: "json \<Rightarrow> string" where
  "enc JNull = ''n''"
| "enc (JBool b) = (if b then ''t'' else ''f'')"
| "enc (JNum x) = (case x of PosInt w \<Rightarrow> ''p'' @ show_u64_020 w
     | NegInt w \<Rightarrow> ''m'' @ show_u64_020 w | Float w \<Rightarrow> ''d'' @ show_u64_020 w)"
| "enc (JStr s) = ''s'' @ enc_str s"
| "enc (JArr vs) = ''a'' @ concat (map (\<lambda>t. ''+'' @ t) (map enc vs)) @ ''-''"
| "enc (JObj kvs) =
     ''o'' @ concat (map (\<lambda>(k, t). ''+'' @ enc_str k @ t) (map (map_prod id enc) kvs)) @ ''-''"

fun dec :: "nat \<Rightarrow> string \<Rightarrow> (json \<times> string) option"
  and dec_items :: "nat \<Rightarrow> string \<Rightarrow> (json list \<times> string) option"
  and dec_members :: "nat \<Rightarrow> string \<Rightarrow> ((string \<times> json) list \<times> string) option" where
  "dec 0 s = None"
| "dec (Suc n) [] = None"
| "dec (Suc n) (t # s) =
     (if t = CHR ''n'' then Some (JNull, s)
      else if t = CHR ''t'' then Some (JBool True, s)
      else if t = CHR ''f'' then Some (JBool False, s)
      else if t = CHR ''p'' then dec_word (\<lambda>w. JNum (PosInt w)) s
      else if t = CHR ''m'' then dec_word (\<lambda>w. JNum (NegInt w)) s
      else if t = CHR ''d'' then dec_word (\<lambda>w. JNum (Float w)) s
      else if t = CHR ''s'' then map_option (map_prod JStr id) (dec_str s)
      else if t = CHR ''a'' then map_option (map_prod JArr id) (dec_items n s)
      else if t = CHR ''o'' then map_option (map_prod JObj id) (dec_members n s)
      else None)"
| "dec_items 0 s = None"
| "dec_items (Suc n) [] = None"
| "dec_items (Suc n) (t # s) =
     (if t = CHR ''-'' then Some ([], s)
      else case dec n s of
        None \<Rightarrow> None
      | Some (j, s') \<Rightarrow> map_option (\<lambda>(js, r). (j # js, r)) (dec_items n s'))"
| "dec_members 0 s = None"
| "dec_members (Suc n) [] = None"
| "dec_members (Suc n) (t # s) =
     (if t = CHR ''-'' then Some ([], s)
      else case dec_str s of
        None \<Rightarrow> None
      | Some (k, s1) \<Rightarrow>
          (case dec n s1 of
             None \<Rightarrow> None
           | Some (j, s') \<Rightarrow> map_option (\<lambda>(js, r). ((k, j) # js, r)) (dec_members n s')))"

text \<open>Fuel of the length of the text is enough.\<close>

lemma dec_items_enc:
  assumes "\<And>v n r. v \<in> set vs \<Longrightarrow> length (enc v) \<le> n \<Longrightarrow> dec n (enc v @ r) = Some (v, r)"
    and "length (concat (map (\<lambda>v. ''+'' @ enc v) vs)) < n"
  shows "dec_items n (concat (map (\<lambda>v. ''+'' @ enc v) vs) @ CHR ''-'' # r) = Some (vs, r)"
  using assms
proof (induction vs arbitrary: n)
  case Nil
  then show ?case by (cases n) auto
next
  case (Cons v vs)
  then obtain m where n: "n = Suc m" by (cases n) auto
  have "dec m (enc v @ x) = Some (v, x)" for x using Cons.prems n by simp
  moreover have "dec_items m (concat (map (\<lambda>v. ''+'' @ enc v) vs) @ CHR ''-'' # r) = Some (vs, r)"
    using Cons.prems n by (intro Cons.IH) auto
  ultimately show ?case using n by simp
qed

lemma dec_members_enc:
  assumes "\<And>k v n r. (k, v) \<in> set kvs \<Longrightarrow> length (enc v) \<le> n \<Longrightarrow>
      dec n (enc v @ r) = Some (v, r)"
    and "length (concat (map (\<lambda>(k, v). ''+'' @ enc_str k @ enc v) kvs)) < n"
  shows "dec_members n (concat (map (\<lambda>(k, v). ''+'' @ enc_str k @ enc v) kvs) @ CHR ''-'' # r) =
    Some (kvs, r)"
  using assms
proof (induction kvs arbitrary: n)
  case Nil
  then show ?case by (cases n) auto
next
  case (Cons kv kvs)
  obtain k v where kv: "kv = (k, v)" by (cases kv)
  obtain m where n: "n = Suc m" using Cons.prems(2) by (cases n) auto
  have "dec m (enc v @ x) = Some (v, x)" for x
    using Cons.prems(1) [of k v m x] Cons.prems(2) n kv by simp
  moreover have "dec_members m (concat (map (\<lambda>(k, v). ''+'' @ enc_str k @ enc v) kvs) @
      CHR ''-'' # r) = Some (kvs, r)"
    using Cons.prems n kv by (intro Cons.IH) auto
  ultimately show ?case using n kv by simp
qed

lemma dec_enc: "length (enc j) \<le> n \<Longrightarrow> dec n (enc j @ r) = Some (j, r)"
proof (induction j arbitrary: n r)
  case (JArr vs)
  then obtain m where n: "n = Suc m" by (cases n) auto
  have "dec_items m (concat (map (\<lambda>v. ''+'' @ enc v) vs) @ CHR ''-'' # r) = Some (vs, r)"
    using JArr n by (intro dec_items_enc) (auto simp: comp_def)
  with n show ?case by (simp add: comp_def)
next
  case (JObj kvs)
  then obtain m where n: "n = Suc m" by (cases n) auto
  have "dec_members m (concat (map (\<lambda>(k, v). ''+'' @ enc_str k @ enc v) kvs) @ CHR ''-'' # r) =
      Some (kvs, r)"
    using JObj n by (intro dec_members_enc) (auto simp: comp_def case_prod_unfold)
  with n show ?case by (simp add: comp_def case_prod_unfold)
next
  case (JNum x)
  then obtain m where "n = Suc m" by (cases n) (auto split: num.splits)
  then show ?case by (simp split: num.splits)
next
  case (JBool b)
  then obtain m where "n = Suc m" by (cases n) (auto split: if_splits)
  then show ?case by simp
next
  case (JStr s)
  then obtain m where "n = Suc m" by (cases n) auto
  then show ?case by simp
next
  case JNull
  then obtain m where "n = Suc m" by (cases n) auto
  then show ?case by simp
qed

definition demo_to_vec :: "json \<Rightarrow> bytes" where
  "demo_to_vec j = 123 # as_bytes (hexs (as_bytes (enc j))) @ [125]"

definition demo_from_slice :: "bytes \<Rightarrow> json option" where
  "demo_from_slice bs =
     (case unhex (from_bytes (butlast (tl bs))) of
        None \<Rightarrow> None
      | Some t \<Rightarrow>
          (case dec (length t) (from_bytes t) of
             Some (j, []) \<Rightarrow> if json_depth j \<le> 127 then Some j else None
           | _ \<Rightarrow> None))"

lemma demo_from_to:
  "demo_from_slice (demo_to_vec j) = (if json_depth j \<le> 127 then Some j else None)"
  using dec_enc [of j "length (enc j)" "[]"]
  by (simp add: demo_from_slice_def demo_to_vec_def butlast_append)

section \<open>The instance\<close>

definition checksum :: "bytes \<Rightarrow> u64" where
  "checksum bs = foldl (\<lambda>a b. a * 31 + ucast b + 1) 0 bs"

definition demo_hash :: "bytes \<Rightarrow> bytes" where
  "demo_hash bs = replicate 24 0 @ to_be_bytes (checksum bs)"

definition demo_from_hex :: "string \<Rightarrow> bytes option" where
  "demo_from_hex s = (if length s = 64 then unhex s else None)"

definition demo_tag :: "bytes \<Rightarrow> bytes \<Rightarrow> bytes \<Rightarrow> bytes" where
  "demo_tag k n m = to_be_bytes (checksum (k @ n @ m))"

definition demo_encrypt :: "bytes \<Rightarrow> bytes \<Rightarrow> bytes \<Rightarrow> bytes option" where
  "demo_encrypt k n m = Some (demo_tag k n m @ m)"

definition demo_decrypt :: "bytes \<Rightarrow> bytes \<Rightarrow> bytes \<Rightarrow> bytes option" where
  "demo_decrypt k n c = (let m = drop 8 c in if take 8 c = demo_tag k n m then Some m else None)"

definition demo_sign :: "bytes \<Rightarrow> bytes \<Rightarrow> bytes" where
  "demo_sign s m = demo_hash (s @ m) @ demo_hash (m @ s)"

definition demo :: crates where
  "demo = \<lparr>b3_hash = demo_hash, b3_to_hex = hexs, b3_from_hex = demo_from_hex,
     b64_encode = hexs, b64_decode = unhex, xc_encrypt = demo_encrypt, xc_decrypt = demo_decrypt,
     ed_public = id, ed_key_ok = (\<lambda>k. length k = 32), ed_sign = demo_sign,
     ed_verify = (\<lambda>p m s. s = demo_sign p m), sj_to_vec = demo_to_vec,
     sj_from_slice = demo_from_slice\<rparr>"

lemma demo_public [simp]: "ed_public demo s = s"
  by (simp add: demo_def)

lemma demo_tag_length [simp]: "length (demo_tag k n m) = 8"
  by (simp add: demo_tag_def)

lemma demo_hash_length [simp]: "length (demo_hash bs) = 32"
  by (simp add: demo_hash_def)

lemma demo_blake3 [simp]: "blake3_ok demo"
  by (simp add: blake3_ok_def demo_def)

lemma demo_hex [simp]: "hex_ok demo"
  by (auto simp: hex_ok_def demo_def demo_from_hex_def graph_hexs split: if_splits
      dest: length_unhex)

lemma demo_base64 [simp]: "base64_ok demo"
  by (simp add: base64_ok_def demo_def graph_hexs)

lemma demo_aead [simp]: "aead_ok demo"
  by (auto simp: aead_ok_def demo_def demo_encrypt_def demo_decrypt_def Let_def)

lemma demo_ed25519 [simp]: "ed25519_ok demo"
  by (simp add: ed25519_ok_def demo_def demo_sign_def)

lemma ten_not_in_hexs: "10 \<notin> set (as_bytes (hexs bs))"
proof
  assume "10 \<in> set (as_bytes (hexs bs))"
  then obtain c where c: "c \<in> set (hexs bs)" "(10 :: byte) = word_of_nat (of_char c)"
    by (auto simp: as_bytes_def)
  then have "unat (10 :: byte) = of_char c" by (simp only: unat_byte_of_char)
  moreover have "graph_char c" using graph_hexs [of bs] c(1) by (simp add: list_all_iff)
  ultimately show False by (simp add: graph_char_def)
qed

lemma ascii_hexs: "list_all (\<lambda>b. b < 128) (as_bytes (hexs bs))"
proof -
  have "(word_of_nat (of_char c) :: byte) < 128" if "graph_char c" for c
    using that by (simp add: graph_char_def word_less_nat_alt)
  then show ?thesis using graph_hexs [of bs] by (auto simp: list_all_iff as_bytes_def)
qed

lemma demo_serde [simp]: "serde_ok demo"
proof -
  have "utf8_valid (demo_to_vec j @ [10])" for j
    by (rule utf8_valid_ascii) (simp add: demo_to_vec_def ascii_hexs)
  then have "text_ok (demo_to_vec j)" for j
    using ten_not_in_hexs by (simp add: text_ok_def demo_to_vec_def)
  then show ?thesis by (simp add: serde_ok_def json_ok_def demo_def demo_from_to)
qed

lemma demo_serde_limit [simp]: "serde_limit demo"
  by (simp add: serde_limit_def demo_def demo_from_to)

lemma demo_json_ok: "json_depth j \<le> 127 \<Longrightarrow> json_ok demo j"
  by (simp add: json_ok_def demo_def demo_from_to)

lemma demo_hex_length: "length (b3_to_hex demo (b3_hash demo x)) = 64"
  by (simp add: demo_def)

text \<open>Changing one byte always changes the checksum.\<close>

lemma checksum_mult: "a * 31 = b * 31 \<longleftrightarrow> a = b" for a b :: u64
proof
  assume "a * 31 = b * 31"
  then have "a * 31 * 17256631552825064415 = b * 31 * 17256631552825064415" by simp
  moreover have "(31 :: u64) * 17256631552825064415 = 1" by simp
  ultimately show "a = b" by (simp only: mult.assoc mult_1_right)
qed simp

lemma checksum_start:
  "foldl (\<lambda>a b. a * 31 + ucast b + 1) a bs = foldl (\<lambda>a b. a * 31 + ucast b + 1) b bs \<longleftrightarrow> a = b"
  for bs :: bytes and a b :: u64
  by (induction bs arbitrary: a b) (simp_all add: checksum_mult)

lemma ucast_u64_inject: "(ucast x :: u64) = ucast y \<longleftrightarrow> x = y" for x y :: byte
  by transfer (simp add: min_def)

lemma demo_hash_change:
  "demo_hash (p @ x # s) = demo_hash (p @ y # s) \<longleftrightarrow> x = y"
  by (simp add: demo_hash_def checksum_def checksum_start ucast_u64_inject)

end
