(* ===== verification/Samples.thy ===== *)
theory Samples
  imports Log Merkle Retention Demo
begin

text \<open>
  Concrete data over the instance \<open>demo\<close>, on which the theorems are applied: a record, chains of
  any length, environments, and the directories and stores that hold such chains.
\<close>

definition sample_record :: log_record where
  "sample_record =
     record_key_id ''alice'' (record_data (JNum (PosInt 7)) (record_new ''login'' Success ''bob''))"

definition calm :: env where
  "calm = \<lparr>env_rng = [Some [1], Some [2], Some [3], Some [4], Some [5], Some [6]],
           env_clock = Some 1000, env_fault = NoFault, env_key_fault = None\<rparr>"

definition sample_seed :: bytes where
  "sample_seed = replicate 32 7"

fun chain_of :: "nat \<Rightarrow> audit_entry list" where
  "chain_of 0 = []"
| "chain_of (Suc n) =
     (let h = head_of genesis (chain_of n) in
      chain_of n @ [made_entry demo sample_record None (word_of_nat n) (fst h + 1) (snd h)])"

lemma length_chain_of [simp]: "length (chain_of n) = n"
  by (induction n) (simp_all add: Let_def)

lemma chain_of_chain [simp]: "chain_from demo genesis (chain_of n)"
  by (induction n) (simp_all add: Let_def)

lemma engine_demo [simp]: "engine_crates demo"
  by (simp add: engine_crates_def)

lemma utf8_genesis [simp]: "utf8_string GENESIS_PREV_HASH"
  by (rule utf8_ascii_string) (simp add: GENESIS_PREV_HASH_def)

lemma plain_sample [simp]: "plain_record sample_record"
  by (simp add: plain_record_def sample_record_def record_key_id_def record_data_def
      record_new_def plain_data_def is_value_def plain_opt_def utf8_ascii_string)

lemma chain_of_head_utf8: "utf8_string (snd (head_of genesis (chain_of n)))"
  using made_entry_hash_utf8 [OF engine_demo] by (cases n) (simp_all add: Let_def genesis_def)

lemma chain_of_plain: "list_all plain_entry (chain_of n)"
  by (induction n)
    (simp_all add: Let_def made_entry_plain chain_of_head_utf8 plain_pii_def [of None])

lemma chain_of_ok [simp]: "list_all (entry_ok demo) (chain_of n)"
  using chain_of_plain [of n] by (auto simp: list_all_iff intro: plain_entry_ok)

lemma chain_of_seq: "i < n \<Longrightarrow> e_seq (chain_of n ! i) = word_of_nat i + 1"
  using chain_from_seq [OF chain_of_chain, of i n] by (simp add: genesis_def)

lemma chain_of_append: "\<exists>es. chain_of (m + n) = chain_of m @ es"
proof (induction n)
  case (Suc n)
  then show ?case by (auto simp: Let_def)
qed simp

text \<open>The entries are small.\<close>

lemma chain_of_1: "chain_of 1 = [made_entry demo sample_record None 0 1 GENESIS_PREV_HASH]"
  by (simp add: genesis_def numeral_eq_Suc)

lemma chain_of_head_length: "length (snd (head_of genesis (chain_of n))) = 64"
proof (cases n)
  case 0
  then show ?thesis by (simp add: genesis_def GENESIS_PREV_HASH_def)
next
  case (Suc m)
  then show ?thesis
    using made_entry_hash [of demo sample_record None "word_of_nat m"]
    by (simp add: Let_def made_entry_def entry_hash_def demo_hex_length)
qed

lemma sample_payload_fits:
  "fits (sj_to_vec demo (payload_json \<lparr>p_data = r_data sample_record, p_pii = None\<rparr>))"
  by (simp add: fits_def demo_def demo_to_vec_def payload_json_def sample_record_def enc_str_def
      record_key_id_def record_data_def record_new_def)

lemma chain_of_fits:
  "list_all (\<lambda>e. entry_fits demo e \<and> json_ok demo (payload_json (e_payload e))) (chain_of n)"
proof (induction n)
  case (Suc n)
  have "json_depth (payload_json \<lparr>p_data = r_data sample_record, p_pii = None\<rparr>) \<le> 127"
    by (simp add: payload_json_def sample_record_def record_key_id_def record_data_def
        record_new_def)
  moreover have "fits (snd (head_of genesis (chain_of n)))"
    using chain_of_head_length by (simp add: fits_def)
  moreover have "fits (r_event_type sample_record)" "fits (r_actor sample_record)"
    "r_instruction_id sample_record = None"
    by (simp_all add: fits_def sample_record_def record_key_id_def record_data_def record_new_def)
  ultimately show ?case
    using Suc sample_payload_fits
    by (simp add: Let_def entry_fits_def instruction_text_def demo_json_ok fits_def [of "[]"])
qed simp

end
