(* ===== verification/Integrity.thy ===== *)
theory Integrity
  imports Samples
begin

text \<open>
  The properties of hashing and verification (\<open>hash.rs\<close>, \<open>verify.rs\<close>): what a valid report says,
  which changes it detects and which it cannot.
\<close>

section \<open>Helper lemmas\<close>

lemma chain_from_nth:
  "chain_from d b es \<longleftrightarrow>
     (\<forall>i < length es. sealed d (es ! i) \<and>
        e_seq (es ! i) = (if i = 0 then fst b else e_seq (es ! (i - 1))) + 1 \<and>
        e_prev_hash (es ! i) = (if i = 0 then snd b else e_entry_hash (es ! (i - 1))))"
proof (induction es arbitrary: b)
  case (Cons e es)
  show ?case
    unfolding chain_from.simps Cons.IH [of "(e_seq e, e_entry_hash e)"] length_Cons All_less_Suc2
    by (simp add: nth_Cons' if_distrib [of e_seq] if_distrib [of e_entry_hash])
qed simp

lemma report_head_eq:
  "report_head (verify_entries_from d anc es) = (if es = [] then None else Some (head_of b es))"
  by (simp add: verify_entries_from_def Let_def walk_head head_of_def)

lemma violation_of_walk:
  "e \<in> set es \<Longrightarrow> x \<in> set (check_content d e) \<Longrightarrow> x \<in> set (walk_violations d p es)"
  by (induction es arbitrary: p) auto

lemma violation_of_content:
  assumes "e \<in> set es" and "x \<in> set (check_content d e)"
  shows "x \<in> set (violations (verify_entries_from d anc es))"
  using assms by (cases es) (auto simp: verify_violations_Cons violation_of_walk)

lemma unsealed_violation:
  "\<not> sealed d e \<Longrightarrow> \<exists>m. viol (e_seq e) BadHash m \<in> set (check_content d e)"
  by (auto simp: check_content_def sealed_def recompute_hash_def Let_def)

lemma link_gap: "e_seq e \<noteq> e_seq p + 1 \<Longrightarrow> \<exists>m. viol (e_seq e) SequenceGap m \<in> set (check_link p e)"
  by (auto simp: check_link_def)

lemma start_gap:
  "e_seq e \<noteq> fst (base_of anc) + 1 \<Longrightarrow>
   \<exists>m. viol (e_seq e) SequenceGap m \<in>
     set (case anc of Some a \<Rightarrow> check_anchored a e | None \<Rightarrow> check_genesis e)"
  by (auto simp: check_anchored_def check_genesis_def base_of_def genesis_def split: option.splits)

text \<open>A gap before the first entry of \<open>zs\<close> is reported, whether or not something precedes it.\<close>

lemma gap_reported:
  assumes "e_seq z \<noteq> fst (head_of (base_of anc) xs) + 1"
  shows "\<exists>m. viol (e_seq z) SequenceGap m \<in>
    set (violations (verify_entries_from d anc (xs @ z # zs)))"
proof (cases xs)
  case Nil
  with start_gap [of z anc] assms obtain m where "viol (e_seq z) SequenceGap m \<in>
      set (case anc of Some a \<Rightarrow> check_anchored a z | None \<Rightarrow> check_genesis z)" by auto
  with Nil show ?thesis by (intro exI [of _ m]) (simp add: verify_violations_Cons)
next
  case (Cons x xs')
  let ?p = "last (x # xs')"
  have "e_seq z \<noteq> e_seq ?p + 1" using assms Cons by (simp add: head_of_def split: if_splits)
  then obtain m where "viol (e_seq z) SequenceGap m \<in> set (check_link ?p z)"
    using link_gap by blast
  with Cons show ?thesis
    by (intro exI [of _ m]) (simp add: verify_violations_Cons walk_violations_append)
qed

lemma seq_unchanged_gap:
  fixes k :: u64
  assumes "0 < n" and "n < 2 ^ 64"
  shows "k + word_of_nat n + 1 \<noteq> k + 1"
proof
  assume "k + word_of_nat n + 1 = k + 1"
  then have "(word_of_nat n :: u64) = 0" by simp
  then have "unat (word_of_nat n :: u64) = 0" by simp
  with assms show False by simp
qed

text \<open>Two chains of one length from one base that end in one hash agree everywhere.\<close>

lemma chains_agree:
  assumes "blake3_ok d" and "hex_ok d"
  shows "length es = length es' \<Longrightarrow> chain_from d b es \<Longrightarrow> chain_from d b es' \<Longrightarrow>
    head_of b es = head_of b es' \<Longrightarrow>
    (\<forall>e \<in> set es \<union> set es'. entry_fits d e \<and> json_ok d (payload_json (e_payload e))) \<Longrightarrow>
    (\<forall>e \<in> set es. \<forall>e' \<in> set es'. \<not> hash_collision d e e') \<Longrightarrow>
    list_all2 same_entry es es'"
proof (induction es arbitrary: es' rule: rev_induct)
  case (snoc e xs)
  obtain e' xs' where es': "es' = xs' @ [e']" using snoc.prems(1) by (cases es' rule: rev_cases) auto
  have seal: "e_entry_hash e = entry_hash d e" "e_entry_hash e' = entry_hash d e'"
    using snoc.prems(2,3) es' by (simp_all add: sealed_def)
  have "entry_hash d e = entry_hash d e'" using snoc.prems(4) es' seal by simp
  then have "canonical_bytes d e = canonical_bytes d e'"
    using entry_hash_eqD [OF assms] snoc.prems(6) es' by simp
  then have content: "hashed_content d e = hashed_content d e'"
    using canonical_bytes_eq_iff [of d e e'] snoc.prems(5) es' by simp
  moreover have "e_payload e = e_payload e'"
    using hashed_content_payload [OF content] snoc.prems(5) es' by simp
  ultimately have same: "same_entry e e'"
    using seal \<open>entry_hash d e = entry_hash d e'\<close> by (simp add: same_entry_def hashed_content_def)
  have "head_of b xs = head_of b xs'"
    using snoc.prems(2,3) es' same by (simp add: same_entry_def prod_eq_iff)
  then have "list_all2 same_entry xs xs'"
    using snoc.prems es' by (intro snoc.IH) auto
  with same es' show ?case by (simp add: list_all2_appendI)
qed simp

lemma report_eqI:
  assumes "violations (verify_entries_from d anc es) = violations (verify_entries_from d anc es')"
    and "length es = length es'" and "head_of b es = head_of b es'"
  shows "verify_entries_from d anc es = verify_entries_from d anc es'"
proof (rule verify_report.equality)
  show "entries_checked (verify_entries_from d anc es) =
      entries_checked (verify_entries_from d anc es')"
    using assms(2) by (simp add: verify_entries_from_def Let_def walk_count)
  have "es = [] \<longleftrightarrow> es' = []" using assms(2) by auto
  then show "report_head (verify_entries_from d anc es) =
      report_head (verify_entries_from d anc es')"
    using assms(3) by (simp add: report_head_eq [where b = b])
qed (use assms(1) in simp_all)

section \<open>Verification\<close>

text \<open>
  C3. A report is valid exactly when every entry carries the hash of its contents, and its sequence
  number and \<open>prev_hash\<close> are those that follow the entry before it, or for the first entry the
  anchor or the genesis. The walk of the verifier thus decides the chain of the documentation.
\<close>

theorem verify_decides_chain:
  "is_valid (verify_entries_from d anc es) \<longleftrightarrow>
     (\<forall>i < length es. e_entry_hash (es ! i) = recompute_hash d (es ! i) \<and>
        e_seq (es ! i) = (if i = 0 then fst (base_of anc) else e_seq (es ! (i - 1))) + 1 \<and>
        e_prev_hash (es ! i) =
          (if i = 0 then snd (base_of anc) else e_entry_hash (es ! (i - 1))))"
  by (simp add: chain_from_nth sealed_def recompute_hash_def)

theorem verify_decides_chain_witness:
  "e_entry_hash (chain_of 3 ! 1) = recompute_hash demo (chain_of 3 ! 1) \<and>
   e_prev_hash (chain_of 3 ! 1) = e_entry_hash (chain_of 3 ! 0)"
proof -
  have "is_valid (verify_entries_from demo None (chain_of 3))" by (simp add: base_of_def)
  then have "\<forall>i < length (chain_of 3).
      e_entry_hash (chain_of 3 ! i) = recompute_hash demo (chain_of 3 ! i) \<and>
      e_seq (chain_of 3 ! i) =
        (if i = 0 then fst (base_of None) else e_seq (chain_of 3 ! (i - 1))) + 1 \<and>
      e_prev_hash (chain_of 3 ! i) =
        (if i = 0 then snd (base_of None) else e_entry_hash (chain_of 3 ! (i - 1)))"
    by (rule verify_decides_chain [THEN iffD1])
  from this [rule_format, of 1] show ?thesis by simp
qed

text \<open>
  C2. Tamper evidence: two logs that both verify from the same anchor and report the same head hold
  the same entries, unless two different canonical encodings among them have the same BLAKE3 hash.
  \<open>same_entry\<close> is equality up to an absent against an empty \<open>instruction_id\<close>.
\<close>

theorem tamper_evident:
  assumes "blake3_ok d" and "hex_ok d"
    and "is_valid (verify_entries_from d anc es)" and "is_valid (verify_entries_from d anc es')"
    and "report_head (verify_entries_from d anc es) = report_head (verify_entries_from d anc es')"
    and "length es < 2 ^ 64" and "length es' < 2 ^ 64"
    and "\<forall>e \<in> set es \<union> set es'. entry_fits d e \<and> json_ok d (payload_json (e_payload e))"
    and "\<forall>e \<in> set es. \<forall>e' \<in> set es'. \<not> hash_collision d e e'"
  shows "list_all2 same_entry es es'"
proof -
  have chains: "chain_from d (base_of anc) es" "chain_from d (base_of anc) es'"
    using assms(3,4) by simp_all
  have heads: "(if es = [] then None else Some (head_of (base_of anc) es)) =
      (if es' = [] then None else Some (head_of (base_of anc) es'))"
    using assms(5) unfolding report_head_eq [of _ _ _ "base_of anc"] .
  then have head: "head_of (base_of anc) es = head_of (base_of anc) es'"
    by (auto split: if_splits)
  then have "(word_of_nat (length es) :: u64) = word_of_nat (length es')"
    using chain_from_head [OF chains(1)] chain_from_head [OF chains(2)] by simp
  then have "length es = length es'" using assms(6,7) by (metis unat_small)
  from chains_agree [OF assms(1,2) this chains head assms(8,9)] show ?thesis .
qed

theorem tamper_evident_witness: "list_all2 same_entry (chain_of 1) (chain_of 1)"
proof (rule tamper_evident [of demo None])
  show "\<forall>e \<in> set (chain_of 1) \<union> set (chain_of 1).
      entry_fits demo e \<and> json_ok demo (payload_json (e_payload e))"
    using chain_of_fits [of 1] by (simp add: list_all_iff)
  show "\<forall>e \<in> set (chain_of 1). \<forall>e' \<in> set (chain_of 1). \<not> hash_collision demo e e'"
    by (simp add: chain_of_1 hash_collision_def)
qed (simp_all add: base_of_def)

text \<open>
  C15. The encoding that is hashed is injective: two entries have the same canonical bytes exactly
  when they agree in every hashed field, with the payload compared as serialized and the
  \<open>instruction_id\<close> up to absent against empty. No shifting of bytes between fields goes unseen.
\<close>

theorem canonical_injective:
  assumes "entry_fits d e" and "entry_fits d e'"
  shows "canonical_bytes d e = canonical_bytes d e' \<longleftrightarrow>
    e_seq e = e_seq e' \<and> e_timestamp e = e_timestamp e' \<and> e_event_type e = e_event_type e' \<and>
    e_outcome e = e_outcome e' \<and> e_actor e = e_actor e' \<and>
    instruction_text e = instruction_text e' \<and>
    sj_to_vec d (payload_json (e_payload e)) = sj_to_vec d (payload_json (e_payload e')) \<and>
    e_prev_hash e = e_prev_hash e'"
  using canonical_bytes_eq_iff [OF assms] by (simp add: hashed_content_def)

definition shifted :: "string \<Rightarrow> string \<Rightarrow> audit_entry" where
  "shifted ev actor = (chain_of 1 ! 0)\<lparr>e_event_type := ev, e_actor := actor\<rparr>"

lemma shifted_fits: "fits ev \<Longrightarrow> fits a \<Longrightarrow> entry_fits demo (shifted ev a)"
  using chain_of_fits [of 1] by (simp add: shifted_def entry_fits_def instruction_text_def)

theorem canonical_injective_witness:
  "canonical_bytes demo (shifted ''ab'' ''c'') \<noteq> canonical_bytes demo (shifted ''a'' ''bc'')"
proof -
  have "fits ''ab''" "fits ''c''" "fits ''a''" "fits ''bc''" by (simp_all add: fits_def)
  from canonical_injective [OF shifted_fits [OF this(1,2)] shifted_fits [OF this(3,4)]]
  show ?thesis by (simp add: shifted_def)
qed

text \<open>
  The hash does not tell an absent \<open>instruction_id\<close> from an empty one: replacing the one by the
  other anywhere in a log leaves the verifier's report as it is.
\<close>

lemma instruction_id_ambiguous:
  "verify_entries_from d anc (xs @ e\<lparr>e_instruction_id := None\<rparr> # ys) =
   verify_entries_from d anc (xs @ e\<lparr>e_instruction_id := Some ''''\<rparr> # ys)"
proof -
  let ?a = "e\<lparr>e_instruction_id := None\<rparr>" and ?b = "e\<lparr>e_instruction_id := Some ''''\<rparr>"
  have "entry_hash d ?a = entry_hash d ?b"
    by (simp add: entry_hash_def canonical_bytes_def)
  then have content: "check_content d ?a = check_content d ?b"
    by (simp add: check_content_def recompute_hash_def Let_def)
  have link: "check_link ?a x = check_link ?b x" "check_link x ?a = check_link x ?b"
    "check_anchored a ?a = check_anchored a ?b" "check_genesis ?a = check_genesis ?b" for x a
    by (simp_all add: check_link_def check_anchored_def check_genesis_def)
  have walk: "walk_violations d ?a zs = walk_violations d ?b zs" for zs
    by (cases zs) (simp_all add: link)
  have "violations (verify_entries_from d anc (xs @ ?a # ys)) =
      violations (verify_entries_from d anc (xs @ ?b # ys))"
    by (cases xs) (simp_all add: verify_violations_Cons walk_violations_append content link walk
        split: option.split)
  then show ?thesis by (rule report_eqI) (simp_all add: head_of_def)
qed

text \<open>
  C12. An edit is detected and located: changing any hashed content of one entry of a valid log while
  keeping its stored hash yields a \<open>BadHash\<close> violation at that entry, short of a hash collision.
\<close>

theorem edit_detected:
  assumes "blake3_ok d" and "hex_ok d" and "is_valid (verify_entries_from d anc es)"
    and "i < length es" and "entry_fits d (es ! i)" and "entry_fits d e'"
    and "e_entry_hash e' = e_entry_hash (es ! i)"
    and "hashed_content d e' \<noteq> hashed_content d (es ! i)"
    and "\<not> hash_collision d e' (es ! i)"
  shows "\<exists>m. viol (e_seq e') BadHash m \<in> set (violations (verify_entries_from d anc (es[i := e'])))"
proof -
  have "sealed d (es ! i)"
    using assms(3,4) chain_from_sealed by (metis nth_mem verify_valid_iff)
  moreover have "canonical_bytes d e' \<noteq> canonical_bytes d (es ! i)"
    using canonical_bytes_eq_iff [OF assms(6,5)] assms(8) by simp
  ultimately have "\<not> sealed d e'"
    using entry_hash_eqD [OF assms(1,2) _ assms(9)] assms(7) by (auto simp: sealed_def)
  then obtain m where "viol (e_seq e') BadHash m \<in> set (check_content d e')"
    using unsealed_violation by blast
  moreover have "e' \<in> set (es[i := e'])" using assms(4) by (rule set_update_memI)
  ultimately show ?thesis using violation_of_content by blast
qed

theorem edit_detected_witness:
  "\<exists>m. viol 1 BadHash m \<in>
     set (violations (verify_entries_from demo None ((chain_of 1)[0 := shifted ''login'' ''bot''])))"
proof -
  let ?e = "shifted ''login'' ''bot''" and ?o = "chain_of 1 ! 0"
  have "\<exists>m. viol (e_seq ?e) BadHash m \<in>
      set (violations (verify_entries_from demo None ((chain_of 1)[0 := ?e])))"
  proof (rule edit_detected)
    show "entry_fits demo ?e" by (rule shifted_fits) (simp_all add: fits_def)
    show "entry_fits demo ?o" using chain_of_fits [of 1] by simp
    show "hashed_content demo ?e \<noteq> hashed_content demo ?o"
      by (simp add: shifted_def hashed_content_def chain_of_1 sample_record_def record_key_id_def
          record_data_def record_new_def)
    define p where "p = push_field [] (to_be_bytes 1) @ push_field [] (to_be_bytes 0) @
      push_field [] (as_bytes ''login'') @ push_field [] (as_bytes (as_str Success)) @
      to_be_bytes 3 @ [98, 111]"
    define s where "s = push_field [] (as_bytes (instruction_text ?o)) @
      push_field [] (sj_to_vec demo (payload_json (e_payload ?o))) @
      push_field [] (as_bytes (e_prev_hash ?o))"
    have "canonical_bytes demo ?e = p @ 116 # s" "canonical_bytes demo ?o = p @ 98 # s"
      unfolding canonical_bytes_fields p_def s_def shifted_def
      by (simp_all add: instruction_text_def sample_record_def record_key_id_def record_data_def
          record_new_def genesis_def) (simp_all add: push_field_def)
    then show "\<not> hash_collision demo ?e ?o"
      by (simp add: hash_collision_def demo_def demo_hash_change)
  qed (simp_all add: base_of_def shifted_def)
  then show ?thesis by (simp add: shifted_def genesis_def)
qed

text \<open>
  C13. A deletion that leaves something after it is detected and located: the first entry after the
  gap is reported as a \<open>SequenceGap\<close>, at the start of the log as well as in its middle.
\<close>

theorem deletion_detected:
  assumes "is_valid (verify_entries_from d anc (xs @ ys @ z # zs))"
    and "ys \<noteq> []" and "length ys < 2 ^ 64"
  shows "\<exists>m. viol (e_seq z) SequenceGap m \<in>
    set (violations (verify_entries_from d anc (xs @ z # zs)))"
proof (rule gap_reported)
  let ?b = "base_of anc"
  have "chain_from d ?b (xs @ ys @ z # zs)" using assms(1) unfolding verify_valid_iff .
  then have ys: "chain_from d (head_of ?b xs) ys"
    and z: "e_seq z = fst (head_of (head_of ?b xs) ys) + 1"
    unfolding chain_from_append chain_from.simps by blast+
  have "e_seq z = fst (head_of ?b xs) + word_of_nat (length ys) + 1"
    using z chain_from_head [OF ys] by simp
  then show "e_seq z \<noteq> fst (head_of ?b xs) + 1"
    using seq_unchanged_gap assms(2,3) by simp
qed

theorem deletion_detected_witness:
  "\<exists>m. viol (e_seq (chain_of 3 ! 2)) SequenceGap m \<in>
     set (violations (verify_entries_from demo None ([chain_of 3 ! 0] @ chain_of 3 ! 2 # [])))"
proof (rule deletion_detected)
  have "[chain_of 3 ! 0] @ [chain_of 3 ! 1] @ [chain_of 3 ! 2] = chain_of 3"
    by (rule nth_equalityI) (auto simp: nth_Cons' less_Suc_eq numeral_eq_Suc)
  then show "is_valid (verify_entries_from demo None
      ([chain_of 3 ! 0] @ [chain_of 3 ! 1] @ chain_of 3 ! 2 # []))"
    by (simp add: base_of_def)
qed simp_all

text \<open>
  Removing entries from the end is not detected: every prefix of a valid log is valid, and its
  report differs only in the count and the head. It takes a signed checkpoint to see the loss.
\<close>

lemma truncation_undetected:
  assumes "is_valid (verify_entries_from d anc (es @ fs))"
  shows "is_valid (verify_entries_from d anc es) \<and>
    violations (verify_entries_from d anc es) = violations (verify_entries_from d anc (es @ fs))"
proof -
  have "is_valid (verify_entries_from d anc es)" using assms by simp
  with assms show ?thesis unfolding is_valid_def by simp
qed

end
