(* ===== verification/Anchoring.thy ===== *)
theory Anchoring
  imports Samples
begin

text \<open>
  The properties of signed checkpoints and Merkle proofs (\<open>checkpoint.rs\<close>, \<open>merkle.rs\<close>).
\<close>

section \<open>Checkpoints\<close>



text \<open>
  What is signed identifies what is stated: two checkpoint messages are equal only for equal
  sequence number, head hash and time, and a checkpoint message is never a Merkle anchor's, so a
  signature for one purpose is of no use for the other.
\<close>

lemma signed_messages_distinct:
  assumes "fits h" and "fits h'"
  shows "(message s h t = message s' h' t' \<longleftrightarrow> s = s' \<and> h = h' \<and> t = t') \<and>
    message s h t \<noteq> anchor_message f to_s n r ts"
  by (simp only: message_inject [OF assms] message_domains not_False_eq_True simp_thms)

text \<open>
  Without a pinned key the check proves nothing about who signed: for any sequence number, head
  hash and time, whoever owns some key can make a checkpoint that \<open>verify_checkpoint\<close> accepts, and a
  check against a different pinned key refuses it.
\<close>

lemma unpinned_accepts_any_signer:
  assumes "ed25519_ok d" and "base64_ok d" and "length (sk_seed s) = 32"
    and "pk \<noteq> ed_public d (sk_seed s)"
  shows "verify_checkpoint d (sign d s n h t) = Inr () \<and>
    verify_checkpoint_with d (sign d s n h t) pk =
      Inl (Crypto ''checkpoint public key does not match the expected key'')"
  using verify_checkpoint_sign [OF assms(1-3)] assms
  by (auto simp: verify_checkpoint_Inr verify_checkpoint_with_def sign_def Let_def
      public_base64_def ed25519_sign_verify)

lemma unpinned_accepts_any_signer_witness:
  "verify_checkpoint demo (sign demo \<lparr>sk_seed = sample_seed\<rparr> 9 ''forged'' 0) = Inr ()"
proof -
  have "(replicate 32 1 :: bytes) \<noteq> ed_public demo (sk_seed \<lparr>sk_seed = sample_seed\<rparr>)"
    by (simp add: sample_seed_def)
  from unpinned_accepts_any_signer [OF demo_ed25519 demo_base64 _ this] show ?thesis
    by (simp add: sample_seed_def)
qed

section \<open>Merkle trees\<close>

text \<open>
  Every entry of a batch has an inclusion proof that verifies against the batch's root: looking a
  sequence number up yields a proof for the first entry that carries it, and the proof is accepted.
\<close>

lemma merkle_complete:
  assumes "blake3_ok d" and "hex_ok d" and "s \<in> e_seq ` set es"
  shows "\<exists>i p. i < length es \<and> e_seq (es ! i) = s \<and> (\<forall>j < i. e_seq (es ! j) \<noteq> s) \<and>
    merkle_proof_for_seq d es s = Some p \<and> leaf_index p = i \<and> leaf_count p = length es \<and>
    verify_merkle_proof d (as_bytes (e_entry_hash (es ! i))) p
      (merkle_root d (entry_leaves es)) = Inr True"
proof -
  obtain i where i: "position (\<lambda>e. e_seq e = s) es = Some i"
    using assms(3) by (cases "position (\<lambda>e. e_seq e = s) es") (auto simp: position_None)
  note at = position_Some [OF i]
  then obtain p where p: "build_merkle_proof d (entry_leaves es) i = Some p"
    by (simp add: build_merkle_proof_def entry_leaves_def Let_def)
  have "verify_merkle_proof d (entry_leaves es ! i) p (merkle_root d (entry_leaves es)) = Inr True"
    using verify_build_merkle_proof [OF assms(1,2) p] .
  with at p i show ?thesis
    by (intro exI [of _ i]) (auto simp: merkle_proof_for_seq_def build_merkle_proof_Some
        entry_leaves_def)
qed

text \<open>
  C27. A proof that verifies against the root of a non-empty batch proves membership: its leaf is one
  of the leaves and its path is that leaf's path, if BLAKE3 does not collide on the inputs hashed in
  the tree and in the check. The tags of leaves and nodes rule out passing a node off as a leaf.
\<close>

theorem merkle_sound:
  assumes "blake3_ok d" and "hex_ok d" and "xs \<noteq> []"
    and "inj_on (b3_hash d) (set (mth_inputs d xs) \<union> set (proof_inputs d leaf (mp_path p)))"
    and "verify_merkle_proof d leaf p (merkle_root d xs) = Inr True"
  shows "\<exists>i < length xs. leaf = xs ! i \<and> map (raw_step d) (mp_path p) = map Some (path d xs i [])"
  using assms by (rule verify_merkle_proof_sound)

theorem merkle_sound_witness:
  "\<exists>i < length [[1 :: byte]]. [1] = [[1 :: byte]] ! i"
proof -
  let ?p = "\<lparr>leaf_index = 0, leaf_count = 1, mp_path = []\<rparr>"
  have "inj_on (b3_hash demo) (set (mth_inputs demo [[1]]) \<union>
      set (proof_inputs demo [1] (mp_path ?p)))"
    by (simp add: mth_inputs_single proof_inputs_def)
  moreover have "verify_merkle_proof demo [1] ?p (merkle_root demo [[1]]) = Inr True"
    by (simp add: verify_merkle_proof_def merkle_root_def mth_single)
  ultimately show ?thesis
    using merkle_sound [of demo "[[1]]" "[1]" ?p] by auto
qed

text \<open>A proof for one of up to \<open>2 ^ k\<close> leaves has at most \<open>k\<close> steps.\<close>

lemma merkle_proof_logarithmic:
  assumes "build_merkle_proof d xs i = Some p" and "length xs \<le> 2 ^ k"
  shows "length (mp_path p) \<le> k"
proof -
  have "xs \<noteq> []" using assms(1) by (auto simp: build_merkle_proof_Some)
  from length_path [OF this assms(2)] assms(1) show ?thesis
    by (auto simp: build_merkle_proof_Some)
qed

text \<open>
  The check of a proof looks neither at \<open>leaf_index\<close> nor at \<open>leaf_count\<close>: a proof shows that a leaf
  is in the batch, and says nothing of the position it claims.
\<close>

lemma merkle_position_unchecked:
  "verify_merkle_proof d leaf (p\<lparr>leaf_index := i, leaf_count := n\<rparr>) root =
   verify_merkle_proof d leaf p root"
  by (simp add: verify_merkle_proof_def)

lemma anchor_message_inject:
  assumes "fits r" and "fits r'" and "n < 2 ^ 64" and "n' < 2 ^ 64"
  shows "anchor_message f t n r ts = anchor_message f' t' n' r' ts' \<longleftrightarrow>
    f = f' \<and> t = t' \<and> n = n' \<and> r = r' \<and> ts = ts'"
proof -
  have "(word_of_nat n :: u64) = word_of_nat n' \<longleftrightarrow> n = n'"
    using assms(3,4) by (metis unat_small)
  then show ?thesis
    using assms(1,2) unfolding anchor_message_fields
    by (simp add: push_field_inject push_field_inject_last del: as_bytes_simps)
qed

text \<open>
  A signed anchor for a batch verifies, it names the batch's first and last sequence numbers, its
  size and its root, and changing any of these fields changes the message that was signed.
\<close>

lemma merkle_anchor_signed:
  assumes "ed25519_ok d" and "base64_ok d" and "length (sk_seed s) = 32" and "es \<noteq> []"
    and "a = build_merkle_anchor d s es t"
  shows "verify_merkle_anchor d a = Inr () \<and> from_seq a = e_seq (hd es) \<and>
    to_seq a = e_seq (last es) \<and> ma_count a = length es \<and>
    ma_root a = merkle_root d (entry_leaves es) \<and>
    (fits r \<and> fits (ma_root a) \<and> n < 2 ^ 64 \<and> length es < 2 ^ 64 \<and>
     anchor_message f u n r ts =
       anchor_message (from_seq a) (to_seq a) (ma_count a) (ma_root a) (ma_timestamp a) \<longrightarrow>
     f = from_seq a \<and> u = to_seq a \<and> n = ma_count a \<and> r = ma_root a \<and> ts = ma_timestamp a)"
proof -
  have fields: "from_seq a = e_seq (hd es) \<and> to_seq a = e_seq (last es) \<and>
      ma_count a = length es \<and> ma_root a = merkle_root d (entry_leaves es)"
    using assms(4,5)
    by (cases es) (simp_all add: build_merkle_anchor_def Let_def last_opt_def merkle_root_def)
  then show ?thesis
    using verify_build_merkle_anchor [OF assms(1-3)] assms(5) anchor_message_inject by auto
qed

end
