(* ===== verification/Durability.thy ===== *)
theory Durability
  imports Samples
begin

text \<open>
  The properties of the engine and of the stores (\<open>log.rs\<close>, \<open>store.rs\<close>, \<open>segment.rs\<close>): what a
  reader finds after any run, how a log resumes, what a failed write leaves, and what pruning
  keeps.
\<close>

section \<open>Helper lemmas\<close>

text \<open>Commands and environments that leave nothing half written.\<close>

definition polite :: "cmd \<Rightarrow> env \<Rightarrow> bool" where
  "polite m v \<longleftrightarrow>
     clean_fault (env_fault v) \<and> (case m of CmdWrite r \<Rightarrow> plain_record r | CmdHead \<Rightarrow> True)"

lemma polite_file: "engine_crates d \<Longrightarrow> polite m v \<Longrightarrow> file_log.cmd_ok d m v"
  by (cases m) (simp_all add: polite_def file_log.cmd_ok_def record_ok_def)

lemma polite_seg: "engine_crates d \<Longrightarrow> polite m v \<Longrightarrow> seg_log.cmd_ok d m v"
  by (cases m) (simp_all add: polite_def seg_log.cmd_ok_def record_ok_def)

lemma polite_seg_full: "engine_crates d \<Longrightarrow> polite m v \<Longrightarrow> seg_full_log.cmd_ok d m v"
  by (cases m) (simp_all add: polite_def seg_full_log.cmd_ok_def record_ok_def)

lemma chain_head_utf8:
  assumes "hex_ok d" and "chain_from d b es" and "es \<noteq> []"
  shows "utf8_string (snd (head_of b es))"
proof -
  have "sealed d (last es)" using chain_from_sealed [OF assms(2)] assms(3) by simp
  then show ?thesis
    using assms(1,3) by (simp add: head_of_def sealed_def entry_hash_def hex_utf8)
qed

lemma head_utf8:
  "hex_ok d \<Longrightarrow> chain_from d b es \<Longrightarrow> (es = [] \<Longrightarrow> b = genesis) \<Longrightarrow> utf8_string (snd (head_of b es))"
  using chain_head_utf8 [of d b es] by (cases "es = []") (simp_all add: genesis_def)

lemmas chain_head_utf8_genesis = head_utf8 [where b = genesis, OF _ _ refl]

text \<open>The file at a path that holds the entries \<open>es\<close>: absent, or as a store has written it.\<close>

definition stored :: "crates \<Rightarrow> audit_entry list \<Rightarrow> bytes option \<Rightarrow> bool" where
  "stored d es file \<longleftrightarrow>
     list_all (entry_ok d) es \<and> (file = Some (file_of d es) \<or> file = None \<and> es = [])"

lemma open_stored:
  assumes "stored d es file" and "env_fault v \<noteq> OpenFault"
  obtains s where "file_open d file v = Inr s" and "file_inv d s" and "file_entries d s = es"
  using assms file_open_file_of [of d es v] file_open_new [of v d] by (auto simp: stored_def)

text \<open>Opening a file and building a log on it.\<close>

definition start_log ::
  "crates \<Rightarrow> bytes option \<Rightarrow> keyring \<Rightarrow> env \<Rightarrow> (file_store, keyring) log_handle result" where
  "start_log d file k v =
     (case file_open d file v of
        Inl e \<Rightarrow> Inl e
      | Inr s \<Rightarrow>
          log_build (file_ops d) (builder_key_provider k (builder_store s builder_new)) True)"

lemma start_log_inv:
  assumes "engine_crates d" and "stored d es file" and "is_valid (verify_entries d es)"
    and "env_fault v \<noteq> OpenFault"
  obtains w where "start_log d file k v = Inr \<lparr>lh_tx = True, lh_writer = Some w\<rparr>"
    and "file_log.log_inv d genesis w" and "file_entries d (wr_store w) = es"
proof -
  obtain s where s: "file_open d file v = Inr s" "file_inv d s" "file_entries d s = es"
    using open_stored assms(2,4) by blast
  from file_log.build_succeeds [OF s(2), of k] obtain l where build:
    "log_build (file_ops d) (builder_key_provider k (builder_store s builder_new)) True = Inr l" ..
  have aead: "cipher_ok d k" and hex: "hex_ok d"
    using assms(1) by (simp_all add: engine_crates_def cipher_ok_def)
  have chain: "chain_from d genesis (file_entries d s)" using assms(3) s(3) by simp
  have "utf8_string (snd (head_of genesis (file_entries d s)))"
    using chain_head_utf8_genesis [OF hex chain] .
  from file_log.build_resumes [OF s(2) aead chain impI [OF refl] this build] obtain w where
    w: "l = \<lparr>lh_tx = True, lh_writer = Some w\<rparr>" "file_log.log_inv d genesis w" "wr_store w = s"
    by (elim exE conjE)
  have "start_log d file k v = Inr l" using s(1) build by (simp add: start_log_def)
  with that [of w] w s(3) show thesis by simp
qed

lemma start_log_writer:
  assumes "engine_crates d" and "stored d es file" and "is_valid (verify_entries d es)"
    and "start_log d file k v = Inr l" and "lh_writer l = Some w"
  shows "file_log.log_inv d genesis w" and "file_entries d (wr_store w) = es"
proof -
  have "env_fault v \<noteq> OpenFault"
    using assms(2,4) by (auto simp: start_log_def file_open_def split: sum.splits)
  from start_log_inv [OF assms(1-3) this, of k] obtain w1 where
    "start_log d file k v = Inr \<lparr>lh_tx = True, lh_writer = Some w1\<rparr>"
    "file_log.log_inv d genesis w1" "file_entries d (wr_store w1) = es" .
  with assms(4,5) show "file_log.log_inv d genesis w" "file_entries d (wr_store w) = es"
    by auto
qed

section \<open>The engine over files\<close>

text \<open>
  C1. Whatever the interleaving of concurrent callers, and whether or not some writes fail cleanly,
  reading the file back yields the entries it was opened with, followed by one entry for each
  receipt given out, in the order of the receipts, and the whole of it verifies from genesis.
\<close>

theorem concurrent_log_verifies:
  assumes "engine_crates d" and "stored d es file" and "is_valid (verify_entries d es)"
    and "start_log d file k v0 = Inr l" and "lh_writer l = Some w"
    and "log_reachable d (file_ops d) (keyring_ops d) polite w y"
    and "length es + length (sy_replies y) < 2 ^ 64"
  shows "\<exists>new. read_all d (Some (fs_file (wr_store (sy_writer y)))) = Inr (es @ new) \<and>
    is_valid (verify_entries d (es @ new)) \<and>
    map receipt_of new = receipts (map snd (sy_replies y))"
proof -
  note w = start_log_writer [OF assms(1-5)]
  have "room genesis (file_entries d (wr_store w)) (length (sy_replies y))"
    using assms(7) w(2) by (simp add: room_def genesis_def)
  from file_log.reachable_chain [OF assms(6) w(1) polite_file [OF assms(1)] this]
  obtain new where new: "file_log.log_inv d genesis (sy_writer y)"
      "file_entries d (wr_store (sy_writer y)) = es @ new"
      "map receipt_of new = receipts (map snd (sy_replies y))"
    using w(2) by auto
  then have "file_inv d (wr_store (sy_writer y))" and "chain_from d genesis (es @ new)"
    by (simp_all add: file_log.log_inv_def del: chain_from_append)
  then have "read_all d (Some (fs_file (wr_store (sy_writer y)))) = Inr (es @ new)"
    and "is_valid (verify_entries d (es @ new))"
    using file_inv_read new(2) by (simp_all del: chain_from_append)
  with new(3) show ?thesis by blast
qed

lemma calm_faults [simp]: "env_fault calm = NoFault" "clean_fault NoFault"
  by (simp_all add: calm_def clean_fault_def)

lemma polite_sample: "polite (CmdWrite sample_record) calm"
  by (simp add: polite_def)

lemma stored_nil: "stored d [] None"
  by (simp add: stored_def)

theorem concurrent_log_verifies_witness:
  "\<exists>w y new. log_reachable demo (file_ops demo) (keyring_ops demo) polite w y \<and>
     length (sy_replies y) = 1 \<and>
     read_all demo (Some (fs_file (wr_store (sy_writer y)))) = Inr new \<and>
     is_valid (verify_entries demo new)"
proof -
  let ?k = "keyring_open demo None True"
  obtain w where w: "start_log demo None ?k calm = Inr \<lparr>lh_tx = True, lh_writer = Some w\<rparr>"
    using start_log_inv [of demo "[]" None calm ?k] stored_nil by auto
  let ?R = "log_reachable demo (file_ops demo) (keyring_ops demo) polite w"
  let ?m = "CmdWrite sample_record"
  obtain rep w' where h: "handle_cmd demo (file_ops demo) (keyring_ops demo) ?m calm w = (rep, w')"
    by (cases "handle_cmd demo (file_ops demo) (keyring_ops demo) ?m calm w")
  have "?R \<lparr>sy_queue = [], sy_waiting = {}, sy_replies = [], sy_writer = w, sy_open = True\<rparr>"
    by (rule log_reachable.start)
  from log_reachable.step [OF this log_step.send [of _ 4 _ _ _ _ ?m]]
  have "?R \<lparr>sy_queue = [(4, ?m)], sy_waiting = {4}, sy_replies = [], sy_writer = w,
      sy_open = True\<rparr>" by simp
  from log_reachable.step [OF this log_step.serve [where c = 4 and q = "[]" and v = calm
        and rep = rep and w' = w' and m = ?m]] polite_sample h
  have r: "?R \<lparr>sy_queue = [], sy_waiting = {}, sy_replies = [(4, rep)], sy_writer = w',
      sy_open = True\<rparr>" by simp
  from concurrent_log_verifies [OF engine_demo stored_nil _ w _ r] obtain new where
    "read_all demo (Some (fs_file (wr_store w'))) = Inr new" "is_valid (verify_entries demo new)"
    by auto
  with r show ?thesis
    by (intro exI [of _ w] exI [of _ "\<lparr>sy_queue = [], sy_waiting = {}, sy_replies = [(4, rep)],
        sy_writer = w', sy_open = True\<rparr>"] exI [of _ new]) simp
qed



section \<open>Round trips\<close>

fun append_all :: "crates \<Rightarrow> audit_entry list \<Rightarrow> env \<Rightarrow> file_store \<Rightarrow> file_store" where
  "append_all d [] v s = s"
| "append_all d (e # es) v s = append_all d es v (snd (file_append d e v s))"

lemma append_all_file:
  "env_fault v = NoFault \<Longrightarrow> fs_file (append_all d es v s) = fs_file s @ file_of d es"
  by (induction es arbitrary: s)
    (simp_all add: file_append_def write_line_def entry_line_def entry_text_def Let_def)

text \<open>
  What the file store writes is what \<open>read_all\<close> reads: appending entries of plain data (UTF-8
  strings, no floats, nested at most 125 deep) to a new file and reading it gives them back, every
  field of every entry, through the JSON text.
\<close>

lemma append_read_roundtrip:
  assumes "serde_ok d" and "list_all plain_entry es" and "env_fault v = NoFault"
    and "file_open d None v = Inr s"
  shows "read_all d (Some (fs_file (append_all d es v s))) = Inr es"
proof -
  have "fs_file s = []" using assms(3,4) by (auto simp: file_open_def read_tail_def)
  moreover have "list_all (entry_ok d) es"
    using assms(2) plain_entry_ok [OF assms(1)] by (auto simp: list_all_iff)
  ultimately show ?thesis by (simp add: append_all_file [OF assms(3)] read_all_def)
qed

section \<open>Every call is answered\<close>

text \<open>The callers that are blocked are those whose command is on the channel, each once.\<close>

lemma waiting_queue:
  "log_reachable d sops kops P w0 y \<Longrightarrow>
   distinct (map fst (sy_queue y)) \<and> set (map fst (sy_queue y)) = sy_waiting y"
proof (induction rule: log_reachable.induct)
  case (step y y')
  from step.hyps(2) show ?case
    by (cases rule: log_step.cases) (use step.IH in auto)
qed simp

lemma serve_queue:
  assumes "\<forall>m. \<exists>v. P m v"
  shows "\<exists>y'. (log_step d sops kops P)\<^sup>*\<^sup>* y y' \<and> sy_queue y' = [] \<and>
    sy_waiting y' = sy_waiting y - set (map fst (sy_queue y)) \<and>
    (\<exists>new. sy_replies y' = sy_replies y @ new \<and> map fst new = map fst (sy_queue y))"
proof (induction "sy_queue y" arbitrary: y)
  case Nil
  then show ?case by (intro exI [of _ y]) auto
next
  case (Cons c q)
  obtain i m where c: "c = (i, m)" by (cases c)
  obtain v where v: "P m v" using assms by blast
  obtain rep w' where h: "handle_cmd d sops kops m v (sy_writer y) = (rep, w')"
    by (cases "handle_cmd d sops kops m v (sy_writer y)")
  let ?y = "y\<lparr>sy_queue := q, sy_waiting := sy_waiting y - {i}, sy_replies := sy_replies y @ [(i, rep)],
    sy_writer := w'\<rparr>"
  have q: "sy_queue y = (i, m) # q" using Cons.hyps(2) c by simp
  have step: "log_step d sops kops P y ?y" using log_step.serve [where P = P, OF q _ h] v by blast
  have "q = sy_queue ?y" by simp
  from Cons.hyps(1) [OF this] obtain y' new where rest:
    "(log_step d sops kops P)\<^sup>*\<^sup>* ?y y'" "sy_queue y' = []"
    "sy_waiting y' = sy_waiting ?y - set (map fst (sy_queue ?y))"
    "sy_replies y' = sy_replies ?y @ new" "map fst new = map fst (sy_queue ?y)"
    by blast
  then show ?case
    using converse_rtranclp_into_rtranclp [OF step rest(1)] q
    by (intro exI [of _ y']) auto
qed



section \<open>The writer stops\<close>

text \<open>What is left to do when no call is added: one step for each queued command, and the closing.\<close>

definition pending :: "('s, 'k) system \<Rightarrow> nat" where
  "pending y = length (sy_queue y) + (if sy_open y then 1 else 0)"

lemma quiet_step_pending:
  assumes "log_step d sops kops P y y'" and "sy_waiting y' \<subseteq> sy_waiting y"
  shows "pending y' < pending y"
  using assms by (cases rule: log_step.cases) (auto simp: pending_def)

lemma closed_idle:
  "log_reachable d sops kops P w0 y \<Longrightarrow> \<not> sy_open y \<Longrightarrow> sy_queue y = []"
proof (induction rule: log_reachable.induct)
  case (step y y')
  note q = waiting_queue [OF step.hyps(1)]
  from step.hyps(2) show ?case
    by (cases rule: log_step.cases) (use step.IH step.prems q in auto)
qed simp

lemma no_endless_decrease: "\<not> (\<forall>i. (g (Suc i) :: nat) < g i)"
proof
  assume dec: "\<forall>i. g (Suc i) < g i"
  have "g i + i \<le> g 0" for i
  proof (induction i)
    case (Suc i)
    then show ?case using dec [rule_format, of i] by simp
  qed simp
  from this [of "Suc (g 0)"] show False by simp
qed



section \<open>Entries nested too deep\<close>

lemma read_content_bad:
  assumes "list_all (entry_ok d) es" and "text_ok (entry_text d e)"
    and "entry_from_str d (entry_text d e) = None"
  shows "read_content d (file_of d es @ entry_line d e) = Inl Serde"
  using assms(1)
proof (induction es)
  case Nil
  let ?l = "entry_text d e"
  have t: "?l \<noteq> []" "hd ?l = 123" "last ?l = 125" "10 \<notin> set ?l" "utf8_valid (?l @ [10])"
    using assms(2) by (simp_all add: text_ok_def)
  have "raw_lines (entry_line d e) = [?l @ [10]]"
    using raw_lines_line [OF t(4), of "[]"] by (simp add: entry_line_def)
  moreover have "chomp (?l @ [10]) = ?l" using t(1,3) by (simp add: chomp_line)
  ultimately show ?case
    using t assms(3) trim_object [OF t(1,2)] by (simp add: read_content_def Let_def)
next
  case (Cons x es)
  then show ?case by (simp add: read_content_def read_lines_entry)
qed

text \<open>
  The engine accepts a record that no reader can read back: if its data is a value nested more
  than 125 deep, \<open>process\<close> succeeds and gives a receipt, and from then on reading the log fails with
  a serialization error, because \<open>serde_json\<close> refuses to parse what it has written.
\<close>

lemma deep_record_blocks_reader:
  assumes "engine_crates d" and "serde_limit d" and "file_inv d (wr_store w)"
    and "r_pii r = None" and "plain_json (r_data r)" and "125 < json_depth (r_data r)"
    and "utf8_string (r_event_type r)" and "utf8_string (r_actor r)"
    and "plain_opt (r_instruction_id r)" and "utf8_string (wr_prev_hash w)"
    and "env_fault v = NoFault"
    and "process d (file_ops d) kops r v w = (res, w')"
  shows "(\<exists>rc. res = Inr rc) \<and> read_all d (Some (fs_file (wr_store w'))) = Inl Serde"
proof -
  let ?e = "made_entry d r None (now_ms (env_clock v)) (wr_seq w + 1) (wr_prev_hash w)"
  have res: "\<exists>rc. res = Inr rc" and content: "fs_file (wr_store w') = fs_file (wr_store w) @ entry_line d ?e"
    using assms(4,11,12)
    by (auto simp: process_def seal_record_def file_ops_def file_append_def write_line_def
        entry_line_def entry_text_def Let_def)
  obtain b where b: "e_entry_hash ?e = b3_to_hex d b" using made_entry_hash by blast
  have "plain_json (payload_json (e_payload ?e))"
    using assms(5) by (simp add: payload_json_def utf8_ascii_string)
  then have "plain_json (entry_json ?e)"
    using assms(1,7-10) b
    by (cases "r_instruction_id r")
      (simp_all add: entry_json_def plain_opt_def outcome_json_def utf8_ascii_string engine_crates_def
        hex_utf8)
  then have "text_ok (entry_text d ?e)"
    using assms(1) by (simp add: engine_crates_def serde_ok_def entry_text_def entry_json_def)
  moreover have "entry_from_str d (entry_text d ?e) = None"
    using assms(2,6)
    by (simp add: serde_limit_def entry_from_str_def entry_text_def depth_entry_json
        depth_payload_json)
  ultimately show ?thesis
    using res content read_content_bad assms(3) by (simp add: read_all_def file_inv_def)
qed

fun nested :: "nat \<Rightarrow> json" where
  "nested 0 = JNull"
| "nested (Suc n) = JArr [nested n]"

lemma nested_plain: "plain_json (nested n) \<and> json_depth (nested n) = n"
  by (induction n) simp_all

section \<open>Writes that fail after the bytes are out\<close>

text \<open>
  C35. When \<open>sync_all\<close> fails, the caller gets an error and the head stays, yet the entry is in the
  file. The next record then gets the same sequence number, and the log on disk no longer verifies.
\<close>

theorem failed_sync_duplicates_seq:
  assumes "engine_crates d" and "plain_record r" and "plain_record r'"
    and "r_pii r = None" and "r_pii r' = None"
    and "env_fault v = SyncFault" and "env_fault v' = NoFault"
    and "stored d es file" and "is_valid (verify_entries d es)"
    and "start_log d file k v0 = Inr l" and "lh_writer l = Some w"
    and "process d (file_ops d) (keyring_ops d) r v w = (res, w1)"
    and "process d (file_ops d) (keyring_ops d) r' v' w1 = (res', w2)"
  shows "res = Inl (Io OsError) \<and> (\<exists>rc. res' = Inr rc) \<and>
    (\<exists>e e'. read_all d (Some (fs_file (wr_store w2))) = Inr (es @ [e, e']) \<and>
      e_seq e = e_seq e' \<and> \<not> is_valid (verify_entries d (es @ [e, e'])))"
proof -
  let ?es = "file_entries d (wr_store w)"
  have w: "file_log.log_inv d genesis w" "?es = es"
    using start_log_writer [OF assms(1,8-11)] by simp_all
  let ?e = "made_entry d r None (now_ms (env_clock v)) (wr_seq w + 1) (wr_prev_hash w)"
  let ?e' = "made_entry d r' None (now_ms (env_clock v')) (wr_seq w + 1) (wr_prev_hash w)"
  have first: "res = Inl (Io OsError)" "wr_seq w1 = wr_seq w" "wr_prev_hash w1 = wr_prev_hash w"
    "fs_file (wr_store w1) = fs_file (wr_store w) @ entry_line d ?e"
    using assms(4,6,12)
    by (auto simp: process_def seal_record_def file_ops_def file_append_def write_line_def
        entry_line_def entry_text_def Let_def)
  then have second: "\<exists>rc. res' = Inr rc"
    "fs_file (wr_store w2) = fs_file (wr_store w) @ entry_line d ?e @ entry_line d ?e'"
    using assms(5,7,13)
    by (auto simp: process_def seal_record_def file_ops_def file_append_def write_line_def
        entry_line_def entry_text_def Let_def)
  have inv: "file_inv d (wr_store w)" "utf8_string (wr_prev_hash w)"
    using w(1) by (simp_all add: file_log.log_inv_def)
  have "entry_ok d ?e" "entry_ok d ?e'"
    using made_entry_ok [OF assms(1) _ inv(2), of _ "keyring_ops d" k _ None k] assms(2-5)
    by (auto simp: seal_record_def)
  then have "list_all (entry_ok d) (?es @ [?e, ?e'])" using inv(1) by (simp add: file_inv_def)
  moreover have "fs_file (wr_store w2) = file_of d (?es @ [?e, ?e'])"
    using second(2) inv(1) by (simp add: file_inv_def)
  ultimately have "read_all d (Some (fs_file (wr_store w2))) = Inr (?es @ [?e, ?e'])"
    using read_content_file_of [of d "?es @ [?e, ?e']"] by (simp add: read_all_def del: file_of_simps)
  moreover have "\<not> is_valid (verify_entries d (?es @ [?e, ?e']))" by simp
  ultimately show ?thesis
    using first(1) second(1) w(2) by (intro conjI exI [of _ ?e] exI [of _ ?e']) simp_all
qed

lemma sample_no_pii [simp]: "r_pii sample_record = None"
  by (simp add: sample_record_def record_key_id_def record_data_def record_new_def)

theorem failed_sync_duplicates_seq_witness:
  "\<exists>e e'. e_seq e = e_seq e' \<and> \<not> is_valid (verify_entries demo ([] @ [e, e']))"
proof -
  let ?k = "keyring_open demo None True" and ?v = "calm\<lparr>env_fault := SyncFault\<rparr>"
  let ?p = "process demo (file_ops demo) (keyring_ops demo) sample_record"
  obtain w where w: "start_log demo None ?k calm = Inr \<lparr>lh_tx = True, lh_writer = Some w\<rparr>"
    using start_log_inv [of demo "[]" None calm ?k] stored_nil by auto
  obtain res w1 where p1: "?p ?v w = (res, w1)" by (cases "?p ?v w")
  obtain res' w2 where p2: "?p calm w1 = (res', w2)" by (cases "?p calm w1")
  from failed_sync_duplicates_seq [OF engine_demo plain_sample plain_sample _ _ _ _ stored_nil _ w
      _ p1 p2] show ?thesis by auto
qed

section \<open>The engine over segments\<close>

text \<open>What a segmented log that verifies from an anchor looks like on disk.\<close>

definition segmented :: "crates \<Rightarrow> anchor option \<Rightarrow> pieces \<Rightarrow> dir \<Rightarrow> bool" where
  "segmented d anc ps files \<longleftrightarrow>
     holds d files ps \<and> pieces_ok ps \<and> last_ok ps \<and> ps \<noteq> [] \<and> fits (snd (last ps)) \<and>
     is_valid (verify_entries_from d anc (all_entries ps)) \<and>
     (all_entries ps = [] \<longrightarrow> anc = None)"

lemma seg_start:
  assumes "engine_crates d" and "segmented d anc ps files"
    and "seg_open d (Some files) m v = Inr s"
    and "log_build (seg_ops d) (builder_key_provider k (builder_store s builder_new)) True = Inr l"
    and "lh_writer l = Some w"
  shows "seg_log.log_inv d (base_of anc) w" and "seg_entries d (wr_store w) = all_entries ps"
proof -
  have seg: "holds d files ps" "pieces_ok ps" "last_ok ps" "ps \<noteq> []" "fits (snd (last ps))"
    "chain_from d (base_of anc) (all_entries ps)" "all_entries ps = [] \<longrightarrow> anc = None"
    using assms(2) unfolding segmented_def verify_valid_iff by blast+
  have "m \<noteq> 0" using assms(3) by (auto simp: seg_open_def)
  moreover have "env_fault v \<noteq> OpenFault"
    using assms(3) by (auto simp: seg_open_def Let_def split: if_splits sum.splits prod.splits)
  ultimately obtain s' where "seg_open d (Some files) m v = Inr s'" "seg_rep d s' ps"
    using seg_open_pieces [OF seg(1-5)] by blast
  then have inv: "seg_inv d s" "seg_entries d s = all_entries ps"
    using assms(3) seg_rep_inv by auto
  have hex: "hex_ok d" and cipher: "cipher_ok d k"
    using assms(1) by (simp_all add: engine_crates_def cipher_ok_def)
  have chain: "chain_from d (base_of anc) (seg_entries d s)" using seg(6) inv(2) by simp
  have base: "seg_entries d s = [] \<longrightarrow> base_of anc = genesis"
    using seg(7) inv(2) by (simp add: base_of_def)
  have utf8: "utf8_string (snd (head_of (base_of anc) (seg_entries d s)))"
    using head_utf8 [OF hex chain] base by blast
  from seg_log.build_resumes [OF inv(1) cipher chain base utf8 assms(4)] assms(5) inv(2)
  show "seg_log.log_inv d (base_of anc) w" "seg_entries d (wr_store w) = all_entries ps" by auto
qed


text \<open>A segmented sample: two entries in segment 1, one in segment 3.\<close>

definition sample_pieces :: pieces where
  "sample_pieces = [(1, take 2 (chain_of 3)), (3, drop 2 (chain_of 3))]"

definition sample_dir :: dir where
  "sample_dir = map (\<lambda>(f, es). (segment_name f, file_of demo es)) sample_pieces"

lemma chain_of_3:
  obtains a b c where "chain_of 3 = [a, b, c]" and "e_seq a = 1" and "e_seq b = 2" and "e_seq c = 3"
proof -
  have "chain_of 3 = [chain_of 3 ! 0, chain_of 3 ! 1, chain_of 3 ! 2]"
    by (rule nth_equalityI) (auto simp: nth_Cons' less_Suc_eq numeral_eq_Suc)
  moreover have "e_seq (chain_of 3 ! 0) = 1" "e_seq (chain_of 3 ! 1) = 2" "e_seq (chain_of 3 ! 2) = 3"
    using chain_of_seq [of 0 3] chain_of_seq [of 1 3] chain_of_seq [of 2 3] by simp_all
  ultimately show thesis using that by blast
qed

lemma sample_entries [simp]: "all_entries sample_pieces = chain_of 3"
  by (simp add: sample_pieces_def)

lemma sample_pieces_ok [simp]: "pieces_ok sample_pieces"
proof -
  obtain a b c where "chain_of 3 = [a, b, c]" "e_seq a = 1" "e_seq b = 2" "e_seq c = 3"
    by (rule chain_of_3)
  then show ?thesis by (simp add: sample_pieces_def)
qed

lemma sample_holds [simp]: "holds demo sample_dir sample_pieces"
proof -
  have "list_all (entry_ok demo) (take 2 (chain_of 3))" "list_all (entry_ok demo) (drop 2 (chain_of 3))"
    using chain_of_ok [of 3] by (auto simp: list_all_iff dest: in_set_takeD in_set_dropD)
  then show ?thesis
    by (auto simp: sample_dir_def sample_pieces_def holds_def names_segments_def)
qed

lemma sample_segmented: "segmented demo None sample_pieces sample_dir"
proof -
  have "fits (snd (last sample_pieces))" "last_ok sample_pieces"
    by (simp_all add: sample_pieces_def last_ok_def fits_def)
  then show ?thesis by (simp add: segmented_def base_of_def) (simp add: sample_pieces_def)
qed

text \<open>Opening the sample and building an engine on it.\<close>

lemma sample_seg_log:
  obtains s w where "seg_open demo (Some sample_dir) 2 calm = Inr s"
    and "log_build (seg_ops demo) (builder_key_provider (keyring_open demo None True)
        (builder_store s builder_new)) True = Inr \<lparr>lh_tx = True, lh_writer = Some w\<rparr>"
proof -
  have "sample_pieces \<noteq> []" "last_ok sample_pieces" "fits (snd (last sample_pieces))"
    using sample_segmented unfolding segmented_def by blast+
  then obtain s where s: "seg_open demo (Some sample_dir) 2 calm = Inr s" "seg_rep demo s sample_pieces"
    using seg_open_pieces [of demo sample_dir sample_pieces 2 calm] by auto
  then have "seg_inv demo s" using seg_rep_inv by blast
  from seg_log.build_succeeds [OF this, of "keyring_open demo None True"] obtain l where
    l: "log_build (seg_ops demo) (builder_key_provider (keyring_open demo None True)
        (builder_store s builder_new)) True = Inr l" ..
  then obtain w where "l = \<lparr>lh_tx = True, lh_writer = Some w\<rparr>"
    by (auto simp: log_build_def builder_key_provider_def builder_store_def builder_new_def Let_def
        split: sum.splits option.splits)
  with that s l show thesis by blast
qed

lemma sample_room: "n < 1000 \<Longrightarrow> room genesis (chain_of 3) n"
  by (simp add: room_def genesis_def)


text \<open>A directory that a segmented log can be opened on: no segment yet, or those of an earlier run.\<close>

definition openable :: "crates \<Rightarrow> anchor option \<Rightarrow> pieces \<Rightarrow> dir \<Rightarrow> bool" where
  "openable d anc ps files \<longleftrightarrow>
     segmented d anc ps files \<or> names_segments (map fst files) {} \<and> ps = [] \<and> anc = None"

lemma seg_open_Inr:
  "seg_open d dir m v = Inr s \<Longrightarrow> sg_max_entries s = m \<and> m \<noteq> 0 \<and> env_fault v \<noteq> OpenFault"
  by (auto simp: seg_open_def Let_def split: if_splits sum.splits prod.splits)

lemma openable_rep:
  assumes "openable d anc ps files" and "filled (unat m) ps"
    and "seg_open d (Some files) m v = Inr s"
  shows "seg_filled d m s \<and> seg_entries d s = all_entries ps"
proof -
  note m = seg_open_Inr [OF assms(3)]
  show ?thesis
  proof (cases "segmented d anc ps files")
    case True
    then have "seg_rep d s ps"
      using seg_open_pieces [of d files ps m v] m assms(3) by (auto simp: segmented_def)
    with assms(2) m seg_rep_entries show ?thesis by (auto simp: seg_filled_def)
  next
    case False
    with assms(1) have new: "names_segments (map fst files) {}" "ps = []"
      by (simp_all add: openable_def)
    then have "seg_rep d s [(1, [])]" using seg_open_new [of files m v d] m assms(3) by auto
    moreover have "filled (unat m) [(1, [])]" by (simp add: filled_def)
    ultimately show ?thesis
      using new m seg_rep_entries [of d s "[(1, [])]"] by (auto simp: seg_filled_def)
  qed
qed

lemma openable_chain:
  assumes "openable d anc ps files"
  shows "chain_from d (base_of anc) (all_entries ps)" and "all_entries ps = [] \<Longrightarrow> base_of anc = genesis"
  using assms by (auto simp: openable_def segmented_def verify_valid_iff base_of_def)

text \<open>
  C34. Rotation bounds the segment files. From a new directory, or one that an earlier run filled
  with the same bound, after any run of the writer whose failures are clean, every segment but the
  last holds exactly \<open>max_entries\<close> entries and the last no more; between them they hold the entries
  found at the start and one for each receipt.
\<close>

theorem segments_filled:
  assumes "engine_crates d" and "openable d anc ps files" and "filled (unat m) ps"
    and "seg_open d (Some files) m v0 = Inr s"
    and "log_build (seg_ops d) (builder_key_provider k (builder_store s builder_new)) True = Inr l"
    and "lh_writer l = Some w" and "\<forall>(c, v) \<in> set cs. polite c v"
    and "room (base_of anc) (all_entries ps) (length cs)"
    and "writer_loop d (seg_ops d) (keyring_ops d) cs w = (reps, w')"
  shows "\<exists>full rest.
    map (\<lambda>(_, p). map_sum id length (read_path d (sg_dir (wr_store w')) p))
      (list_segments (Some (sg_dir (wr_store w')))) = map Inr (replicate full (unat m) @ [rest]) \<and>
    rest \<le> unat m \<and>
    full * unat m + rest = length (all_entries ps) + length (receipts reps)"
proof -
  have s: "seg_filled d m s" "seg_entries d s = all_entries ps"
    using openable_rep [OF assms(2-4)] by simp_all
  have hex: "hex_ok d" and cipher: "cipher_ok d k"
    using assms(1) by (simp_all add: engine_crates_def cipher_ok_def)
  note chain = openable_chain [OF assms(2), folded s(2)]
  note utf8 = head_utf8 [OF hex chain]
  from seg_full_log.build_resumes [OF s(1) cipher chain(1) impI [OF chain(2)] utf8 assms(5)] assms(6) s(2)
  have w: "seg_full_log.log_inv d m (base_of anc) w" "seg_entries d (wr_store w) = all_entries ps"
    by auto
  have ok: "\<forall>(c, v) \<in> set cs. seg_full_log.cmd_ok d c v"
    using assms(7) polite_seg_full [OF assms(1)] by blast
  have "room (base_of anc) (seg_entries d (wr_store w)) (length cs)" using assms(8) w(2) by simp
  from seg_full_log.writer_loop_steps [OF w(1) ok this assms(9)] obtain new where
    "seg_filled d m (wr_store w')" "seg_entries d (wr_store w') = all_entries ps @ new"
      "map receipt_of new = receipts reps"
    using w(2) by (auto simp: seg_full_log.log_inv_def)
  with seg_filled_sizes [of d m "wr_store w'"] show ?thesis by (metis length_append length_map)
qed

theorem segments_filled_witness:
  "\<exists>dir full rest. map (\<lambda>(_, p). map_sum id length (read_path demo dir p)) (list_segments (Some dir)) =
      map Inr (replicate full 2 @ [rest]) \<and> rest \<le> 2 \<and> 3 \<le> full * 2 + rest"
proof -
  obtain s w where s: "seg_open demo (Some sample_dir) 2 calm = Inr s"
    and l: "log_build (seg_ops demo) (builder_key_provider (keyring_open demo None True)
        (builder_store s builder_new)) True = Inr \<lparr>lh_tx = True, lh_writer = Some w\<rparr>"
    by (rule sample_seg_log)
  let ?cs = "replicate 3 (CmdWrite sample_record, calm)"
  obtain reps w' where run: "writer_loop demo (seg_ops demo) (keyring_ops demo) ?cs w = (reps, w')"
    by (cases "writer_loop demo (seg_ops demo) (keyring_ops demo) ?cs w")
  have "openable demo None sample_pieces sample_dir"
    using sample_segmented by (simp add: openable_def)
  moreover have "filled (unat (2 :: u64)) sample_pieces"
    by (simp add: filled_def sample_pieces_def)
  moreover have "room (base_of None) (all_entries sample_pieces) (length ?cs)"
    using sample_room [of 3] by (simp add: base_of_def)
  ultimately obtain full rest where
    "map (\<lambda>(_, p). map_sum id length (read_path demo (sg_dir (wr_store w')) p))
        (list_segments (Some (sg_dir (wr_store w')))) = map Inr (replicate full (unat (2 :: u64)) @ [rest])"
    "rest \<le> unat (2 :: u64)"
    "full * unat (2 :: u64) + rest = length (all_entries sample_pieces) + length (receipts reps)"
    using segments_filled [OF engine_demo _ _ s l _ _ _ run] polite_sample by fastforce
  then show ?thesis by (intro exI [of _ "sg_dir (wr_store w')"] exI [of _ full] exI [of _ rest]) simp
qed

lemma noFault_append: "env_fault v = NoFault \<Longrightarrow> fst (st_append (seg_ops d) e v s) = Inr ()"
  by (simp add: seg_ops_def seg_append_def rotate_to_def write_line_def Let_def)

lemma process_same:
  assumes "wr_provider w = wr_provider w'" and "wr_seq w = wr_seq w'"
    and "wr_prev_hash w = wr_prev_hash w'" and "env_fault v = NoFault"
    and "process d (file_ops d) (keyring_ops d) r v w = (res, w1)"
    and "process d (seg_ops d) (keyring_ops d) r v w' = (res', w1')"
  shows "res = res' \<and> wr_provider w1 = wr_provider w1' \<and>
    file_log.step_entry d r v w = seg_log.step_entry d r v w'"
proof -
  obtain x k where seal: "seal_record d (keyring_ops d) (wr_provider w') r v = (x, k)"
    by (cases "seal_record d (keyring_ops d) (wr_provider w') r v")
  show ?thesis
  proof (cases x)
    case (Inl er)
    with seal assms show ?thesis
      by (auto simp: process_def file_log.step_entry_def seg_log.step_entry_def)
  next
    case (Inr pii)
    let ?e = "made_entry d r pii (now_ms (env_clock v)) (wr_seq w' + 1) (wr_prev_hash w')"
    obtain s where s: "st_append (file_ops d) ?e v (wr_store w) = (Inr (), s)"
      using assms(4) by (simp add: file_ops_def file_append_def write_line_def Let_def)
    obtain s' where s': "st_append (seg_ops d) ?e v (wr_store w') = (Inr (), s')"
      using noFault_append [OF assms(4), of d ?e "wr_store w'"]
      by (cases "st_append (seg_ops d) ?e v (wr_store w')") simp
    from assms seal Inr s s' show ?thesis
      by (auto simp: process_def file_log.step_entry_def seg_log.step_entry_def Let_def)
  qed
qed

lemma loop_same:
  assumes "engine_crates d"
  shows "file_log.log_inv d genesis w \<Longrightarrow> seg_log.log_inv d genesis w' \<Longrightarrow>
    file_entries d (wr_store w) = seg_entries d (wr_store w') \<Longrightarrow> wr_provider w = wr_provider w' \<Longrightarrow>
    \<forall>(c, v) \<in> set cs. polite c v \<and> env_fault v = NoFault \<Longrightarrow>
    room genesis (file_entries d (wr_store w)) (length cs) \<Longrightarrow>
    writer_loop d (file_ops d) (keyring_ops d) cs w = (reps, w1) \<Longrightarrow>
    writer_loop d (seg_ops d) (keyring_ops d) cs w' = (reps', w1') \<Longrightarrow>
    reps = reps' \<and> file_log.log_inv d genesis w1 \<and> seg_log.log_inv d genesis w1' \<and>
    file_entries d (wr_store w1) = seg_entries d (wr_store w1')"
proof (induction cs arbitrary: w w' reps reps')
  case (Cons cv cs)
  obtain c v where cv: "cv = (c, v)" by (cases cv)
  obtain rep u where h: "handle_cmd d (file_ops d) (keyring_ops d) c v w = (rep, u)"
    by (cases "handle_cmd d (file_ops d) (keyring_ops d) c v w")
  obtain rep' u' where h': "handle_cmd d (seg_ops d) (keyring_ops d) c v w' = (rep', u')"
    by (cases "handle_cmd d (seg_ops d) (keyring_ops d) c v w'")
  have head: "wr_seq w = wr_seq w'" "wr_prev_hash w = wr_prev_hash w'"
    using Cons.prems(1-3) unfolding file_log.log_inv_def seg_log.log_inv_def by (metis prod.inject)+
  have v: "polite c v" "env_fault v = NoFault" using Cons.prems(5) cv by auto
  have room: "room genesis (file_entries d (wr_store w)) 1"
      "room genesis (seg_entries d (wr_store w')) 1"
    using Cons.prems(3,6) by (auto simp: room_def)
  have step: "rep = rep' \<and> file_log.log_inv d genesis u \<and> seg_log.log_inv d genesis u' \<and>
      file_entries d (wr_store u) = seg_entries d (wr_store u') \<and> wr_provider u = wr_provider u' \<and>
      room genesis (file_entries d (wr_store u)) (length cs)"
  proof (cases c)
    case CmdHead
    with h h' head Cons.prems(1-4,6) show ?thesis by (auto simp: room_def)
  next
    case (CmdWrite r)
    obtain res a where p: "process d (file_ops d) (keyring_ops d) r v w = (res, a)"
      by (cases "process d (file_ops d) (keyring_ops d) r v w")
    obtain res' a' where p': "process d (seg_ops d) (keyring_ops d) r v w' = (res', a')"
      by (cases "process d (seg_ops d) (keyring_ops d) r v w'")
    have rec: "record_ok d r" "clean_fault (env_fault v)"
      using v CmdWrite assms by (simp_all add: polite_def record_ok_def)
    note f = file_log.process_step [OF Cons.prems(1) rec(1) room(1) rec(2) p]
    note g = seg_log.process_step [OF Cons.prems(2) rec(1) room(2) rec(2) p']
    note same = process_same [OF Cons.prems(4) head v(2) p p']
    have "length (file_log.step_entry d r v w) \<le> 1"
      by (auto simp: file_log.step_entry_def split: prod.splits sum.splits)
    then have "room genesis (file_entries d (wr_store a)) (length cs)"
      using Cons.prems(6) f(2) by (simp add: room_def)
    with CmdWrite h h' p p' same f(1,2) g(1,2) Cons.prems(3) show ?thesis by auto
  qed
  obtain rs where l: "writer_loop d (file_ops d) (keyring_ops d) cs u = (rs, w1)" "reps = rep # rs"
    using Cons.prems(7) cv h by (auto split: prod.splits)
  obtain rs' where l': "writer_loop d (seg_ops d) (keyring_ops d) cs u' = (rs', w1')" "reps' = rep' # rs'"
    using Cons.prems(8) cv h' by (auto split: prod.splits)
  have "\<forall>(c, v) \<in> set cs. polite c v \<and> env_fault v = NoFault" using Cons.prems(5) by simp
  with Cons.IH [of u u' rs rs'] step l l' show ?case by blast
qed simp



section \<open>Listing and pruning\<close>

text \<open>
  Segment names sort as their numbers do, both as strings and through the parser, so the listing
  of a directory that holds a segmented log is that of its pieces in order, whatever the order in
  which the system enumerates the files and whatever other files are there.
\<close>

lemma listing_in_order:
  assumes "holds d files ps" and "pieces_ok ps"
  shows "list_segments (Some files) = map (\<lambda>(f, _). (f, segment_name f)) ps \<and>
    sorted_wrt (<) (map snd (list_segments (Some files))) \<and>
    read_all_segmented d (Some files) = Inr (all_entries ps)"
proof -
  have "sorted_wrt (\<lambda>p q. fst p < fst q) ps"
    using pieces_ok_sorted [OF assms(2)] by (simp add: sorted_wrt_map)
  then have "sorted_wrt (<) (map (\<lambda>p. segment_name (fst p)) ps)"
    unfolding sorted_wrt_map segment_name_less .
  then show ?thesis
    using holds_listing [OF assms] holds_read_all [OF assms] by (simp add: comp_def case_prod_unfold)
qed

text \<open>
  C21. Pruning by sequence number deletes only whole leading segments whose entries all precede the
  boundary, never the last one, whatever file removals fail. If it succeeds, it has deleted all
  such segments, and if the first segment kept has an entry, then the anchor returned is the last
  entry deleted and what is kept verifies from it.
\<close>

theorem prune_keeps_verifiable_suffix:
  assumes "holds d files ps" and "pieces_ok ps" and "ps \<noteq> []" and "0 < fst (hd ps)"
    and "is_valid (verify_entries_from d anc (all_entries ps))"
    and "prune_before d (Some files) b rm = (r, dir')"
  shows "\<exists>qs rs. ps = qs @ rs \<and> rs \<noteq> [] \<and>
    read_all_segmented d dir' = Inr (all_entries rs) \<and>
    (\<forall>e \<in> set (all_entries qs). e_seq e < b) \<and>
    (case r of Inl _ \<Rightarrow> True | Inr a \<Rightarrow>
      (tl rs = [] \<or> b < fst (hd (tl rs))) \<and>
      (qs = [] \<longrightarrow> a = None) \<and>
      (qs \<noteq> [] \<and> snd (hd rs) \<noteq> [] \<longrightarrow>
        a = Some \<lparr>a_seq = e_seq (last (all_entries qs)),
                  a_hash = e_entry_hash (last (all_entries qs))\<rparr> \<and>
        is_valid (verify_entries_from d a (all_entries rs))))"
proof -
  from prune_before_pieces [OF assms(1-3,6)] obtain qs rs files' where
    parts: "dir' = Some files'" "ps = qs @ rs" "rs \<noteq> []" "holds d files' rs"
      "\<And>e. e \<in> set (all_entries qs) \<Longrightarrow> e_seq e < b"
    and r: "\<And>a. r = Inr a \<Longrightarrow> a = prune_anchor qs rs \<and> (tl rs = [] \<or> b < fst (hd (tl rs)))"
    by blast
  have ok: "pieces_ok (qs @ rs)" using assms(2) parts(2) by simp
  have chain: "chain_from d (base_of anc) (all_entries (qs @ rs))"
    using assms(5) parts(2) unfolding verify_valid_iff by simp
  have anchor: "a = Some \<lparr>a_seq = e_seq (last (all_entries qs)),
        a_hash = e_entry_hash (last (all_entries qs))\<rparr> \<and>
      is_valid (verify_entries_from d a (all_entries rs))"
    if "a = prune_anchor qs rs" "qs \<noteq> []" "snd (hd rs) \<noteq> []" for a
  proof -
    have "0 < fst (hd qs)" using assms(4) parts(2) that(2) by simp
    from prune_anchor_base [OF ok chain that(2) parts(3) that(3) this] obtain x where
      x': "prune_anchor qs rs = Some x" "base_of (Some x) = head_of (base_of anc) (all_entries qs)"
      by blast
    then have x: "a = Some x" "base_of (Some x) = head_of (base_of anc) (all_entries qs)"
      using that(1) by simp_all
    have "all_entries qs \<noteq> []"
      using all_entries_nonempty [OF _ that(2)] pieces_ok_append [OF ok] parts(3) by blast
    moreover have "chain_from d (base_of a) (all_entries rs)" using chain x by simp
    ultimately show ?thesis
      using x unfolding verify_valid_iff by (cases x) (auto simp: base_of_def head_of_def)
  qed
  have "pieces_ok rs" using pieces_ok_append [OF ok] by blast
  then have "read_all_segmented d dir' = Inr (all_entries rs)"
    using holds_read_all [OF parts(4)] parts(1) by simp
  moreover have "case r of Inl _ \<Rightarrow> True | Inr a \<Rightarrow>
      (tl rs = [] \<or> b < fst (hd (tl rs))) \<and> (qs = [] \<longrightarrow> a = None) \<and>
      (qs \<noteq> [] \<and> snd (hd rs) \<noteq> [] \<longrightarrow>
        a = Some \<lparr>a_seq = e_seq (last (all_entries qs)),
                  a_hash = e_entry_hash (last (all_entries qs))\<rparr> \<and>
        is_valid (verify_entries_from d a (all_entries rs)))"
    using r anchor by (cases r) (auto simp: prune_anchor_def)
  ultimately show ?thesis using parts(2,3,5) by blast
qed

theorem prune_keeps_verifiable_suffix_witness:
  "\<exists>r dir' rs. prune_before demo (Some sample_dir) 3 (\<lambda>_. False) = (r, dir') \<and>
     read_all_segmented demo dir' = Inr (all_entries rs) \<and> rs \<noteq> []"
proof -
  obtain r dir' where p: "prune_before demo (Some sample_dir) 3 (\<lambda>_. False) = (r, dir')"
    by (cases "prune_before demo (Some sample_dir) 3 (\<lambda>_. False)")
  have "sample_pieces \<noteq> []" "0 < fst (hd sample_pieces)" by (simp_all add: sample_pieces_def)
  from prune_keeps_verifiable_suffix [OF sample_holds sample_pieces_ok this, of None, OF _ p] p
  show ?thesis by (auto simp: base_of_def)
qed

text \<open>
  Pruning by time never deletes an entry that is as recent as the cutoff: every entry deleted is
  older, and what remains is a suffix of the log.
\<close>

lemma prune_by_time_keeps_recent:
  assumes "holds d files ps" and "pieces_ok ps" and "ps \<noteq> []"
    and "prune_before_timestamp d (Some files) cutoff rm = (r, dir')"
  shows "\<exists>gone kept. all_entries ps = gone @ kept \<and> read_all_segmented d dir' = Inr kept \<and>
    (\<forall>e \<in> set gone. sint (e_timestamp e) < sint cutoff)"
proof -
  from prune_before_timestamp_pieces [OF assms] obtain qs rs files' where
    parts: "dir' = Some files'" "ps = qs @ rs" "rs \<noteq> []" "holds d files' rs"
      "\<And>e. e \<in> set (all_entries qs) \<Longrightarrow> sint (e_timestamp e) < sint cutoff"
      "\<And>a. r = Inr a \<Longrightarrow> a = prune_anchor qs rs"
    by blast
  have "pieces_ok rs" using pieces_ok_append assms(2) parts(2) by blast
  then have "read_all_segmented d dir' = Inr (all_entries rs)"
    using holds_read_all [OF parts(4)] parts(1) by simp
  with parts(2,5) show ?thesis by (intro exI [of _ "all_entries qs"] exI [of _ "all_entries rs"]) simp
qed

text \<open>
  When every entry is older than the cutoff, pruning by time deletes nothing at all, although
  segments other than the last could go.
\<close>

lemma prune_by_time_all_old:
  assumes "read_all_segmented d dir = Inr es"
    and "\<forall>e \<in> set es. sint (e_timestamp e) < sint cutoff"
  shows "prune_before_timestamp d dir cutoff rm = (Inr None, dir)"
proof -
  have "find (\<lambda>e. sint cutoff \<le> sint (e_timestamp e)) es = None"
    using assms(2) by (auto simp: find_None_iff)
  with assms(1) show ?thesis by (simp add: prune_before_timestamp_def)
qed

lemma prune_by_time_all_old_witness:
  "prune_before_timestamp demo (Some sample_dir) 99 (\<lambda>_. False) = (Inr None, Some sample_dir)"
proof (rule prune_by_time_all_old)
  show "read_all_segmented demo (Some sample_dir) = Inr (chain_of 3)"
    using holds_read_all [OF sample_holds sample_pieces_ok] by simp
  show "\<forall>e \<in> set (chain_of 3). sint (e_timestamp e) < sint (99 :: i64)"
    by (simp add: numeral_3_eq_3 Let_def)
qed

lemma pieces_le_last:
  "pieces_ok (ps @ [(f, es)]) \<Longrightarrow> p \<in> set (ps @ [(f, es)]) \<Longrightarrow> fst p \<le> f"
  using pieces_ok_sorted [of "ps @ [(f, es)]"] by (auto simp: sorted_wrt_append)

text \<open>
  C39. If the open segment is still empty (a rotation whose first write failed) a boundary above all
  entries deletes every entry, returns no anchor, and the store opened next starts again from
  genesis: the next entry gets sequence number 1.
\<close>

theorem prune_with_empty_tail_restarts:
  assumes "holds d files (qs @ [(f, [])])" and "pieces_ok (qs @ [(f, [])])" and "qs \<noteq> []"
    and "f \<le> b" and "m \<noteq> 0" and "env_fault v \<noteq> OpenFault"
    and "prune_before d (Some files) b rm = (Inr a, dir')"
  shows "a = None \<and> read_all_segmented d dir' = Inr [] \<and>
    (\<exists>s l. seg_open d dir' m v = Inr s \<and>
      log_build (seg_ops d) (builder_key_provider k (builder_store s builder_new)) True = Inr l \<and>
      audit_head l = Inr (0, GENESIS_PREV_HASH))"
proof -
  let ?ps = "qs @ [(f, [])]"
  have "?ps \<noteq> []" by simp
  from prune_before_pieces [OF assms(1,2) this assms(7)] obtain xs rs files' where
    parts: "dir' = Some files'" "?ps = xs @ rs" "rs \<noteq> []" "holds d files' rs"
      "\<And>e. e \<in> set (all_entries xs) \<Longrightarrow> e_seq e < b"
    and r': "\<And>a'. Inr a = (Inr a' :: anchor option result) \<Longrightarrow>
      a' = prune_anchor xs rs \<and> (tl rs = [] \<or> b < fst (hd (tl rs)))"
    by blast
  have r: "a = prune_anchor xs rs \<and> (tl rs = [] \<or> b < fst (hd (tl rs)))" using r' [OF refl] .
  have "tl rs = []"
  proof (rule ccontr)
    assume "tl rs \<noteq> []"
    then have "b < fst (hd (tl rs))" using r by blast
    moreover have "hd (tl rs) \<in> set rs"
      using \<open>tl rs \<noteq> []\<close> hd_in_set [of "tl rs"] list.set_sel(2) [OF parts(3)] by blast
    then have "hd (tl rs) \<in> set ?ps" using parts(2) by simp
    then have "fst (hd (tl rs)) \<le> f" using pieces_le_last [OF assms(2)] by blast
    ultimately show False using assms(4) by simp
  qed
  then obtain p where "rs = [p]" using parts(3) by (cases rs) auto
  with parts(2) have rs: "rs = [(f, [])]" "xs = qs" by simp_all
  have read: "read_all_segmented d dir' = Inr []"
    using holds_read_all [OF parts(4)] parts(1) rs(1) by simp
  have list: "list_segments (Some files') = [(f, segment_name f)]"
    using holds_listing [OF parts(4)] rs(1) by simp
  have "read_path d files' (segment_name f) = Inr []" using holds_read [OF parts(4)] rs(1) by simp
  then obtain s where s: "seg_open d dir' m v = Inr s" "sg_tail s = None"
    using assms(5,6) parts(1) list
    by (auto simp: seg_open_def last_opt_def)
  show ?thesis
    using r rs read s
    by (auto simp: prune_anchor_def log_build_def builder_key_provider_def builder_store_def
        builder_new_def seg_ops_def audit_head_def)
qed

theorem prune_with_empty_tail_restarts_witness:
  "\<exists>dir' s l. prune_before demo (Some [(segment_name 1, file_of demo (chain_of 3)),
       (segment_name 4, [])]) 9 (\<lambda>_. False) = (Inr None, dir') \<and>
     seg_open demo dir' 2 calm = Inr s \<and>
     log_build (seg_ops demo) (builder_key_provider (keyring_open demo None True)
       (builder_store s builder_new)) True = Inr l \<and>
     audit_head l = Inr (0, GENESIS_PREV_HASH)"
proof -
  let ?qs = "[(1, chain_of 3)]"
  let ?dir = "[(segment_name 1, file_of demo (chain_of 3)), (segment_name 4, [])]"
  obtain a b c where "chain_of 3 = [a, b, c]" "e_seq a = 1" "e_seq b = 2" "e_seq c = 3"
    by (rule chain_of_3)
  then have ok: "pieces_ok (?qs @ [(4, [])])" by simp
  have holds: "holds demo ?dir (?qs @ [(4, [])])"
    by (auto simp: holds_def names_segments_def simp del: chain_of.simps)
  obtain r dir' where p: "prune_before demo (Some ?dir) 9 (\<lambda>_. False) = (r, dir')"
    by (cases "prune_before demo (Some ?dir) 9 (\<lambda>_. False)")
  have "list_segments (Some ?dir) = [(1, segment_name 1), (4, segment_name 4)]"
    using holds_listing [OF holds ok] by simp
  then have "\<exists>a. r = Inr a"
    using p by (auto simp: prune_before_def Let_def split: bool.splits)
  then obtain a where r: "r = Inr a" by blast
  from prune_with_empty_tail_restarts [OF holds ok _ _ _ _ p [unfolded r], of 2 calm] p r
  show ?thesis by fastforce
qed

end
