(* ===== verification/Confidentiality.thy ===== *)
theory Confidentiality
  imports Samples
begin

text \<open>
  The properties of PII encryption and of the keyring (\<open>crypto.rs\<close>, \<open>keyring.rs\<close>): sealed data can be
  opened while its key exists, and cannot once the key is shredded.
\<close>

section \<open>Helper lemmas\<close>

text \<open>Opening depends on the keyring only through the key of the sealed data.\<close>

lemma open_pii_get:
  "keyring_get k (key_id s) = keyring_get k' (key_id s) \<Longrightarrow>
   open_pii d (keyring_ops d) k s = open_pii d (keyring_ops d) k' s"
proof -
  assume "keyring_get k (key_id s) = keyring_get k' (key_id s)"
  then have eq: "unwrap_dek (keyring_ops d) k (key_id s) = unwrap_dek (keyring_ops d) k' (key_id s)"
    by (auto simp: keyring_ops_def keyring_unwrap_def)
  show ?thesis unfolding open_pii_def eq ..
qed

lemma keyring_inv_get:
  "keyring_inv d k \<Longrightarrow>
   keyring_get k i =
     ok_or (Key ''no key for key_id (shredded or never created)'') (disk_key d (kr_dir k) i)"
  by (simp add: keyring_get_def keyring_inv_def)

text \<open>A restart finds the keys that the directory holds.\<close>

lemma open_without_key:
  assumes "open_pii d (keyring_ops d) k s = Ret (Inr x)" and "keyring_get u (key_id s) = Inl e"
  shows "open_pii d (keyring_ops d) u s = Ret (Inl e)"
  using assms unfolding open_pii_Inr
  by (auto intro!: open_pii_unwrap_error simp: keyring_ops_def keyring_unwrap_def)

lemma keyring_reopen_get:
  assumes "keyring_inv d k"
  shows "keyring_get (keyring_open d (Some (kr_dir k)) auto) i = keyring_get k i"
proof -
  let ?k = "keyring_open d (Some (kr_dir k)) auto"
  have "keyring_inv d ?k"
    using assms by (intro keyring_open_inv) (simp_all add: keyring_inv_def)
  moreover have "kr_dir ?k = kr_dir k" by (simp add: keyring_open_def Let_def)
  ultimately show ?thesis using keyring_inv_get assms by simp
qed

fun seal_all ::
  "crates \<Rightarrow> (string \<times> json \<times> env) list \<Rightarrow> keyring \<Rightarrow> keyring" where
  "seal_all d [] k = k"
| "seal_all d ((i, p, v) # xs) k = seal_all d xs (fst (snd (seal d (keyring_ops d) k i p v)))"

lemma seal_all_open:
  "cipher_ok d k \<Longrightarrow> open_pii d (keyring_ops d) k s = Ret (Inr x) \<Longrightarrow>
   open_pii d (keyring_ops d) (seal_all d xs k) s = Ret (Inr x)"
proof (induction xs arbitrary: k)
  case (Cons y xs)
  obtain i p v where y: "y = (i, p, v)" by (cases y)
  obtain r k' v' where seal: "seal d (keyring_ops d) k i p v = (r, k', v')"
    by (cases "seal d (keyring_ops d) k i p v")
  have "cipher_ok d k'" using Cons.prems(1) by (simp add: cipher_ok_def)
  with Cons.IH keyring_kp.seal_keeps_open [OF Cons.prems(1) seal Cons.prems(2)] y seal
  show ?case by simp
qed simp

section \<open>Sealing and opening\<close>

lemma seal_then_open:
  assumes "aead_ok d" and "base64_ok d" and "serde_ok d"
    and "plain_json p" and "is_value p" and "json_depth p \<le> 127"
    and "seal d (keyring_ops d) k i p v = (Inr s, k', v')"
  shows "key_id s = i \<and> open_pii d (keyring_ops d) k' s = Ret (Inr p)"
proof -
  have "json_ok d p" using assms(3,4,6) by (simp add: serde_ok_def)
  moreover have "cipher_ok d k" using assms(1) by (simp add: cipher_ok_def)
  ultimately show ?thesis
    using keyring_kp.seal_open [OF _ assms(1,2) _ assms(5,7)] keyring_kp.seal_key_id [OF assms(7)]
    by blast
qed

text \<open>
  C17. What is sealed can be opened: PII that \<open>seal\<close> has encrypted under a key of the keyring, minted if
  need be, decrypts to the same JSON value, and still does after any number of further records
  have been sealed, for the same subject or others, some of them failing.
\<close>

theorem sealed_pii_stays_readable:
  assumes "aead_ok d" and "base64_ok d" and "serde_ok d"
    and "plain_json p" and "is_value p" and "json_depth p \<le> 127"
    and "seal d (keyring_ops d) k i p v = (Inr s, k', v')"
  shows "key_id s = i \<and>
    open_pii d (keyring_ops d) (seal_all d later k') s = Ret (Inr p)"
proof -
  have "cipher_ok d k'" using assms(1) by (simp add: cipher_ok_def)
  with seal_then_open [OF assms] show ?thesis by (simp add: seal_all_open)
qed

definition sample_pii :: json where
  "sample_pii = JStr ''secret''"

definition empty_ring :: keyring where
  "empty_ring = \<lparr>kr_dir = [], kr_cache = [], kr_poisoned = False, kr_auto_create = True\<rparr>"

lemma empty_ring_inv: "base64_ok d \<Longrightarrow> keyring_inv d empty_ring"
  by (simp add: empty_ring_def keyring_inv_def disk_key_def)

lemma sample_seal:
  obtains s k v where "seal demo (keyring_ops demo) empty_ring ''alice'' sample_pii calm =
    (Inr s, k, v)" and "keyring_inv demo k"
proof -
  let ?r = "seal demo (keyring_ops demo) empty_ring ''alice'' sample_pii calm"
  have enc: "xc_encrypt demo k n m = Some (demo_tag k n m @ m)" for k n m
    by (simp add: demo_def demo_encrypt_def)
  have valid: "valid_key_id ''alice''"
    by (simp add: valid_key_id_def is_ascii_alphanumeric_def)
  obtain s k v where r: "?r = (Inr s, k, v)"
    by (simp add: seal_def random_bytes_def getrandom_def calm_def enc keyring_ops_def
        keyring_wrap_def keyring_ensure_def empty_ring_def valid keyring_get_def
        wrap_with_key_def Let_def)
  moreover have "keyring_inv demo k"
  proof -
    have "\<exists>v1. wrap_dek (keyring_ops demo) empty_ring ''alice'' (fill 32 [1]) v1 =
        wrap_dek (keyring_ops demo) empty_ring ''alice'' (fill 32 [1]) v1 \<and>
        (\<exists>r v2. keyring_ensure demo empty_ring ''alice'' v1 = (r, k, v2)) \<and> env_key_fault v1 = None"
      using r
      by (simp add: seal_def random_bytes_def getrandom_def calm_def enc keyring_ops_def
          keyring_wrap_def keyring_ensure_def empty_ring_def valid keyring_get_def
          wrap_with_key_def Let_def)
        (auto intro!: exI [of _ "\<lparr>env_rng = [Some [3], Some [4], Some [5], Some [6]],
           env_clock = Some 1000, env_fault = NoFault, env_key_fault = None\<rparr>"])
    then show ?thesis using keyring_ensure_inv [OF empty_ring_inv [OF demo_base64]] by blast
  qed
  ultimately show thesis using that by blast
qed

lemma sample_pii_plain: "plain_json sample_pii" "is_value sample_pii" "json_depth sample_pii \<le> 127"
  by (simp_all add: sample_pii_def is_value_def utf8_ascii_string)

theorem sealed_pii_stays_readable_witness:
  "\<exists>s k v. seal demo (keyring_ops demo) empty_ring ''alice'' sample_pii calm = (Inr s, k, v) \<and>
     open_pii demo (keyring_ops demo) (seal_all demo [(''bob'', JNull, calm)] k) s =
       Ret (Inr sample_pii)"
proof -
  obtain s k v where "seal demo (keyring_ops demo) empty_ring ''alice'' sample_pii calm = (Inr s, k, v)"
    by (rule sample_seal)
  with sealed_pii_stays_readable [OF demo_aead demo_base64 demo_serde sample_pii_plain this]
  show ?thesis by blast
qed

text \<open>
  \<open>open\<close> panics on a sealed value whose nonce decodes to anything but 24 bytes: everything else
  about the value may be as \<open>seal\<close> made it. The length of the unwrapped key is checked, that of the
  nonce is not.
\<close>

lemma open_panics_on_short_nonce:
  assumes "base64_ok d" and "open_pii d ops k s = Ret (Inr x)" and "length n \<noteq> 24"
  shows "open_pii d ops k (s\<lparr>pii_nonce := b64_encode d n\<rparr>) = Panic"
  using assms by (auto simp: open_pii_Inr open_pii_Panic base64_decode_encode)

section \<open>Crypto-shredding\<close>

text \<open>
  C16. Shredding a key makes what was sealed under it unreadable, now and after a restart that reloads
  the directory, and leaves everything sealed under any other key as readable as before.
\<close>

theorem shred_erases_one_subject:
  assumes "keyring_inv d k" and "keyring_shred k i False = (Inr b, k')"
    and "open_pii d (keyring_ops d) k s = Ret (Inr x)"
  shows "(key_id s = i \<longrightarrow>
      open_pii d (keyring_ops d) k' s =
        Ret (Inl (Key ''no key for key_id (shredded or never created)'')) \<and>
      open_pii d (keyring_ops d) (keyring_open d (Some (kr_dir k')) auto) s =
        Ret (Inl (Key ''no key for key_id (shredded or never created)''))) \<and>
    (key_id s \<noteq> i \<longrightarrow>
      open_pii d (keyring_ops d) k' s = Ret (Inr x) \<and>
      open_pii d (keyring_ops d) (keyring_open d (Some (kr_dir k')) auto) s = Ret (Inr x))"
proof -
  note gone = keyring_shred_gone [OF assms(1,2)]
  have "keyring_inv d k'" by (rule keyring_shred_inv [OF assms(1,2)])
  then have re: "keyring_get (keyring_open d (Some (kr_dir k')) auto) j = keyring_get k' j" for j
    by (rule keyring_reopen_get)
  note unread = open_without_key [OF assms(3)]
  have keep: "open_pii d (keyring_ops d) u s = Ret (Inr x)"
    if "keyring_get u (key_id s) = keyring_get k (key_id s)" for u
    using open_pii_get [OF that] assms(3) by simp
  show ?thesis using gone(1,4) re unread keep by simp
qed

lemma alice_valid: "valid_key_id ''alice''"
  by (simp add: valid_key_id_def is_ascii_alphanumeric_def)

lemma shred_calm:
  "keyring_inv d k \<Longrightarrow> valid_key_id i \<Longrightarrow> \<exists>b k'. keyring_shred k i False = (Inr b, k')"
  by (simp add: keyring_shred_def keyring_inv_def Let_def)

theorem shred_erases_one_subject_witness:
  "\<exists>s k k' b. open_pii demo (keyring_ops demo) k s = Ret (Inr sample_pii) \<and>
     keyring_shred k ''alice'' False = (Inr b, k') \<and>
     open_pii demo (keyring_ops demo) k' s =
       Ret (Inl (Key ''no key for key_id (shredded or never created)''))"
proof -
  obtain s k v where seal: "seal demo (keyring_ops demo) empty_ring ''alice'' sample_pii calm =
      (Inr s, k, v)" and inv: "keyring_inv demo k" by (rule sample_seal)
  note r = seal_then_open [OF demo_aead demo_base64 demo_serde sample_pii_plain seal]
  obtain b k' where sh: "keyring_shred k ''alice'' False = (Inr b, k')"
    using shred_calm [OF inv alice_valid] by blast
  from shred_erases_one_subject [OF inv sh, of s sample_pii] r sh show ?thesis by blast
qed

text \<open>
  C40. If the file of the key cannot be removed, \<open>shred\<close> reports an error after it has already dropped
  the key from memory: the data is unreadable in this process and readable again after a restart.
\<close>

theorem failed_shred_resurrects:
  assumes "keyring_inv d k" and "valid_key_id i" and "keyring_get k i = Inr key"
    and "keyring_shred k i True = (r, k')"
  shows "r = Inl (Io OsError) \<and>
    keyring_get k' i = Inl (Key ''no key for key_id (shredded or never created)'') \<and>
    keyring_get (keyring_open d (Some (kr_dir k')) auto) i = Inr key"
proof -
  have disk: "disk_key d (kr_dir k) i = Some key"
    using assms(1,3) by (simp add: keyring_inv_get)
  then have "map_of (kr_dir k) (key_path i) \<noteq> None" by (auto simp: disk_key_def split: option.splits)
  then have k': "r = Inl (Io OsError)" "k' = k\<lparr>kr_cache := AList.delete i (kr_cache k)\<rparr>"
    using assms(1,2,4) by (auto simp: keyring_shred_def keyring_inv_def Let_def)
  have "keyring_get (keyring_open d (Some (kr_dir k)) auto) i = Inr key"
    using keyring_reopen_get [OF assms(1)] assms(3) by simp
  with k' show ?thesis using assms(1) by (simp add: keyring_get_def keyring_inv_def delete_conv')
qed

theorem failed_shred_resurrects_witness:
  "\<exists>k k' key. keyring_shred k ''alice'' True = (Inl (Io OsError), k') \<and>
     keyring_get (keyring_open demo (Some (kr_dir k')) True) ''alice'' = Inr key"
proof -
  obtain s k v where seal: "seal demo (keyring_ops demo) empty_ring ''alice'' sample_pii calm =
      (Inr s, k, v)" and inv: "keyring_inv demo k" by (rule sample_seal)
  note r = seal_then_open [OF demo_aead demo_base64 demo_serde sample_pii_plain seal]
  then obtain key where key: "keyring_get k ''alice'' = Inr key"
    by (cases "keyring_get k ''alice''") (auto simp: open_pii_Inr keyring_ops_def keyring_unwrap_def)
  obtain x k' where sh: "keyring_shred k ''alice'' True = (x, k')"
    by (cases "keyring_shred k ''alice'' True")
  from failed_shred_resurrects [OF inv alice_valid key sh, of True] sh show ?thesis by blast
qed

section \<open>The keyring and its directory\<close>

datatype key_cmd = KEnsure string env | KShred string

fun key_step :: "crates \<Rightarrow> key_cmd \<Rightarrow> keyring \<Rightarrow> keyring" where
  "key_step d (KEnsure i v) k = fst (snd (keyring_ensure d k i v))"
| "key_step d (KShred i) k = snd (keyring_shred k i False)"

fun key_quiet :: "key_cmd \<Rightarrow> bool" where
  "key_quiet (KEnsure i v) \<longleftrightarrow> env_key_fault v = None"
| "key_quiet (KShred i) \<longleftrightarrow> True"

lemma key_steps_inv:
  "keyring_inv d k \<Longrightarrow> \<forall>c \<in> set cs. key_quiet c \<Longrightarrow> keyring_inv d (fold (key_step d) cs k)"
proof (induction cs arbitrary: k)
  case (Cons c cs)
  have "keyring_inv d (key_step d c k)"
  proof (cases c)
    case (KEnsure i v)
    obtain r k' v' where "keyring_ensure d k i v = (r, k', v')"
      by (cases "keyring_ensure d k i v")
    with KEnsure Cons.prems keyring_ensure_inv [of d k i v] show ?thesis by simp
  next
    case (KShred i)
    obtain r k' where "keyring_shred k i False = (r, k')" by (cases "keyring_shred k i False")
    with KShred Cons.prems keyring_shred_inv [of d k i] show ?thesis by simp
  qed
  with Cons show ?case by simp
qed simp



text \<open>
  C32. A \<open>key_id\<close> cannot leave the keyring's directory: minting and shredding change at most the one
  file named after the id, only if the id is valid, and then that name has no path separator and
  belongs to no other id.
\<close>

theorem key_files_confined:
  assumes "keyring_ensure d k i v = (r, k', v')" and "keyring_shred k i rm = (r2, k2)"
  shows "(name \<noteq> key_path i \<or> \<not> valid_key_id i \<longrightarrow>
      map_of (kr_dir k') name = map_of (kr_dir k) name \<and>
      map_of (kr_dir k2) name = map_of (kr_dir k) name) \<and>
    (valid_key_id i \<longrightarrow> CHR ''/'' \<notin> set (key_path i) \<and> key_file_id (key_path i) = Some i)"
proof -
  have "CHR ''/'' \<notin> set i" if "valid_key_id i"
    using that by (auto simp: valid_key_id_def list_all_iff is_ascii_alphanumeric_def Let_def)
  then have slash: "CHR ''/'' \<notin> set (key_path i)" if "valid_key_id i"
    using that by (simp add: key_path_def)
  have "map_of (kr_dir k') name = map_of (kr_dir k) name"
    if "name \<noteq> key_path i \<or> \<not> valid_key_id i"
    using assms(1) that
    by (auto simp: keyring_ensure_def Let_def update_conv'
        split: if_splits prod.splits sum.splits option.splits)
  moreover have "map_of (kr_dir k2) name = map_of (kr_dir k) name"
    if "name \<noteq> key_path i \<or> \<not> valid_key_id i"
    using assms(2) that by (auto simp: keyring_shred_def Let_def delete_conv' split: if_splits)
  ultimately show ?thesis using slash by simp
qed

theorem key_files_confined_witness:
  "kr_dir (fst (snd (keyring_ensure demo empty_ring ''../x'' calm))) = [] \<and>
   CHR ''/'' \<notin> set (key_path ''alice'')"
proof -
  obtain r k v where e: "keyring_ensure demo empty_ring ''../x'' calm = (r, k, v)"
    by (cases "keyring_ensure demo empty_ring ''../x'' calm")
  obtain r2 k2 where s: "keyring_shred empty_ring ''../x'' False = (r2, k2)"
    by (cases "keyring_shred empty_ring ''../x'' False")
  have bad: "\<not> valid_key_id ''../x''" by (simp add: valid_key_id_def is_ascii_alphanumeric_def)
  have "map_of (kr_dir k) name = None" for name
    using key_files_confined [OF e s, of name] bad by (simp add: empty_ring_def)
  then have "kr_dir k = []" by (cases "kr_dir k") (auto, metis option.distinct(1))
  moreover obtain r k v where e: "keyring_ensure demo empty_ring ''alice'' calm = (r, k, v)"
    by (cases "keyring_ensure demo empty_ring ''alice'' calm")
  obtain r2 k2 where s: "keyring_shred empty_ring ''alice'' False = (r2, k2)"
    by (cases "keyring_shred empty_ring ''alice'' False")
  have "CHR ''/'' \<notin> set (key_path ''alice'')"
    using key_files_confined [OF e s] alice_valid by blast
  ultimately show ?thesis using \<open>keyring_ensure demo empty_ring ''../x'' calm = _\<close> by simp
qed

end
