(* ===== verification/Wire.thy ===== *)
theory Wire
  imports Verify Merkle
begin

text \<open>
  The JSON form of the values that the server and the tools print and the client and the tools read
  back: receipts, reports, checkpoints, Merkle proofs and anchors, as the derived \<open>Serialize\<close> and
  \<open>Deserialize\<close> of \<open>entry.rs\<close>, \<open>verify.rs\<close>, \<open>checkpoint.rs\<close> and \<open>merkle.rs\<close> give it.
\<close>

section \<open>Building blocks\<close>

text \<open>\<open>json!\<close> of an object: a \<open>Value\<close>, with its members in key order.\<close>

definition json_obj :: "(string \<times> json) list \<Rightarrow> json" where
  "json_obj kvs = JObj (to_map kvs)"

definition json_usize :: "nat \<Rightarrow> json" where
  "json_usize n = json_u64 (word_of_nat n)"

definition usize_of_json :: "json \<Rightarrow> nat option" where
  "usize_of_json j = map_option unat (u64_of_json j)"

definition vec_of_json :: "(json \<Rightarrow> 'a option) \<Rightarrow> json \<Rightarrow> 'a list option" where
  "vec_of_json f j = (case j of JArr vs \<Rightarrow> those (map f vs) | _ \<Rightarrow> None)"

text \<open>A required field.\<close>

definition field :: "(string \<Rightarrow> json option) \<Rightarrow> string \<Rightarrow> (json \<Rightarrow> 'a option) \<Rightarrow> 'a option" where
  "field f name dec = Option.bind (f name) dec"

text \<open>
  What a sender and a receiver of a value share: decoding what was encoded gives the value back, for
  the values that \<open>ok\<close> admits.
\<close>

locale wire =
  fixes enc :: "'a \<Rightarrow> json" and dec :: "json \<Rightarrow> 'a option" and ok :: "'a \<Rightarrow> bool"
  assumes decode: "ok x \<Longrightarrow> dec (enc x) = Some x"
begin

lemma decode_vec: "list_all ok xs \<Longrightarrow> vec_of_json dec (JArr (map enc xs)) = Some xs"
  by (induction xs) (auto simp: vec_of_json_def decode)

end

lemma usize_roundtrip [codec]: "n < 2 ^ 64 \<Longrightarrow> usize_of_json (json_usize n) = Some n"
  by (simp add: usize_of_json_def json_usize_def)

section \<open>Receipts\<close>

definition receipt_json :: "receipt \<Rightarrow> json" where
  "receipt_json r =
     JObj [(''seq'', json_u64 (rc_seq r)), (''timestamp'', json_i64 (rc_timestamp r)),
           (''entry_hash'', JStr (rc_entry_hash r)), (''prev_hash'', JStr (rc_prev_hash r))]"

definition receipt_of_json :: "json \<Rightarrow> receipt option" where
  "receipt_of_json j =
     (case struct_fields [''seq'', ''timestamp'', ''entry_hash'', ''prev_hash''] j of
        None \<Rightarrow> None
      | Some f \<Rightarrow>
          (case (field f ''seq'' u64_of_json, field f ''timestamp'' i64_of_json,
                 field f ''entry_hash'' string_of_json, field f ''prev_hash'' string_of_json) of
             (Some s, Some t, Some h, Some p) \<Rightarrow>
               Some \<lparr>rc_seq = s, rc_timestamp = t, rc_entry_hash = h, rc_prev_hash = p\<rparr>
           | _ \<Rightarrow> None))"

lemma receipt_roundtrip [simp, codec]: "receipt_of_json (receipt_json r) = Some r"
  by (simp add: receipt_of_json_def receipt_json_def struct_fields_def field_def)

interpretation receipt_wire: wire receipt_json receipt_of_json "\<lambda>_. True"
  by unfold_locales simp

section \<open>Reports\<close>

fun kind_name :: "violation_kind \<Rightarrow> string" where
  "kind_name BadHash = ''bad_hash''"
| "kind_name BrokenLink = ''broken_link''"
| "kind_name SequenceGap = ''sequence_gap''"
| "kind_name BadGenesis = ''bad_genesis''"

fun kind_of_name :: "string \<Rightarrow> violation_kind option" where
  "kind_of_name s =
     (if s = ''bad_hash'' then Some BadHash
      else if s = ''broken_link'' then Some BrokenLink
      else if s = ''sequence_gap'' then Some SequenceGap
      else if s = ''bad_genesis'' then Some BadGenesis else None)"

fun kind_of_json :: "json \<Rightarrow> violation_kind option" where
  "kind_of_json (JStr s) = kind_of_name s"
| "kind_of_json (JObj [(s, JNull)]) = kind_of_name s"
| "kind_of_json _ = None"

lemma kind_roundtrip [simp, codec]: "kind_of_json (JStr (kind_name k)) = Some k"
  by (cases k) simp_all

definition violation_json :: "violation \<Rightarrow> json" where
  "violation_json v =
     JObj [(''seq'', json_u64 (v_seq v)), (''kind'', JStr (kind_name (v_kind v))),
           (''detail'', JStr (v_detail v))]"

definition violation_of_json :: "json \<Rightarrow> violation option" where
  "violation_of_json j =
     (case struct_fields [''seq'', ''kind'', ''detail''] j of
        None \<Rightarrow> None
      | Some f \<Rightarrow>
          (case (field f ''seq'' u64_of_json, field f ''kind'' kind_of_json,
                 field f ''detail'' string_of_json) of
             (Some s, Some k, Some m) \<Rightarrow> Some \<lparr>v_seq = s, v_kind = k, v_detail = m\<rparr>
           | _ \<Rightarrow> None))"

lemma violation_roundtrip [simp, codec]: "violation_of_json (violation_json v) = Some v"
  by (cases "v_kind v")
    (simp_all add: violation_of_json_def violation_json_def struct_fields_def field_def)

interpretation violation_wire: wire violation_json violation_of_json "\<lambda>_. True"
  by unfold_locales simp

fun head_json :: "(u64 \<times> string) option \<Rightarrow> json" where
  "head_json None = JNull"
| "head_json (Some (s, h)) = JArr [json_u64 s, JStr h]"

fun head_of_json :: "json \<Rightarrow> (u64 \<times> string) option" where
  "head_of_json (JArr [s, h]) =
     (case (u64_of_json s, string_of_json h) of (Some n, Some x) \<Rightarrow> Some (n, x) | _ \<Rightarrow> None)"
| "head_of_json _ = None"

definition report_json :: "verify_report \<Rightarrow> json" where
  "report_json r =
     JObj [(''entries_checked'', json_u64 (entries_checked r)),
           (''violations'', JArr (map violation_json (violations r))),
           (''head'', head_json (report_head r))]"

definition report_of_json :: "json \<Rightarrow> verify_report option" where
  "report_of_json j =
     (case struct_fields [''entries_checked'', ''violations'', ''head''] j of
        None \<Rightarrow> None
      | Some f \<Rightarrow>
          (case (field f ''entries_checked'' u64_of_json,
                 field f ''violations'' (vec_of_json violation_of_json),
                 opt_of_json head_of_json (f ''head'')) of
             (Some n, Some vs, Some h) \<Rightarrow>
               Some \<lparr>entries_checked = n, violations = vs, report_head = h\<rparr>
           | _ \<Rightarrow> None))"

lemma report_roundtrip [simp, codec]: "report_of_json (report_json r) = Some r"
proof -
  have v: "vec_of_json violation_of_json (JArr (map violation_json vs)) = Some vs" for vs
    by (rule violation_wire.decode_vec) (simp add: list_all_iff)
  show ?thesis
    by (cases "report_head r")
      (auto simp: report_of_json_def report_json_def struct_fields_def field_def opt_of_json_def v)
qed

interpretation report_wire: wire report_json report_of_json "\<lambda>_. True"
  by unfold_locales simp

section \<open>Checkpoints\<close>

definition checkpoint_json :: "checkpoint \<Rightarrow> json" where
  "checkpoint_json c =
     JObj [(''seq'', json_u64 (cp_seq c)), (''head_hash'', JStr (cp_head_hash c)),
           (''timestamp'', json_i64 (cp_timestamp c)), (''public_key'', JStr (cp_public_key c)),
           (''signature'', JStr (cp_signature c))]"

definition checkpoint_of_json :: "json \<Rightarrow> checkpoint option" where
  "checkpoint_of_json j =
     (case struct_fields [''seq'', ''head_hash'', ''timestamp'', ''public_key'', ''signature''] j of
        None \<Rightarrow> None
      | Some f \<Rightarrow>
          (case (field f ''seq'' u64_of_json, field f ''head_hash'' string_of_json,
                 field f ''timestamp'' i64_of_json, field f ''public_key'' string_of_json,
                 field f ''signature'' string_of_json) of
             (Some s, Some h, Some t, Some p, Some g) \<Rightarrow>
               Some \<lparr>cp_seq = s, cp_head_hash = h, cp_timestamp = t, cp_public_key = p,
                     cp_signature = g\<rparr>
           | _ \<Rightarrow> None))"

lemma checkpoint_roundtrip [simp, codec]: "checkpoint_of_json (checkpoint_json c) = Some c"
  by (simp add: checkpoint_of_json_def checkpoint_json_def struct_fields_def field_def)

interpretation checkpoint_wire: wire checkpoint_json checkpoint_of_json "\<lambda>_. True"
  by unfold_locales simp

section \<open>Merkle proofs and anchors\<close>

definition step_json :: "proof_step \<Rightarrow> json" where
  "step_json s = JObj [(''hash'', JStr (ps_hash s)), (''right'', JBool (ps_right s))]"

definition step_of_json :: "json \<Rightarrow> proof_step option" where
  "step_of_json j =
     (case struct_fields [''hash'', ''right''] j of
        None \<Rightarrow> None
      | Some f \<Rightarrow>
          (case (field f ''hash'' string_of_json, field f ''right'' bool_of_json) of
             (Some h, Some r) \<Rightarrow> Some \<lparr>ps_hash = h, ps_right = r\<rparr>
           | _ \<Rightarrow> None))"

lemma step_roundtrip [simp, codec]: "step_of_json (step_json s) = Some s"
  by (simp add: step_of_json_def step_json_def struct_fields_def field_def)

interpretation step_wire: wire step_json step_of_json "\<lambda>_. True"
  by unfold_locales simp

definition proof_json :: "merkle_proof \<Rightarrow> json" where
  "proof_json p =
     JObj [(''leaf_index'', json_usize (leaf_index p)), (''leaf_count'', json_usize (leaf_count p)),
           (''path'', JArr (map step_json (mp_path p)))]"

definition proof_of_json :: "json \<Rightarrow> merkle_proof option" where
  "proof_of_json j =
     (case struct_fields [''leaf_index'', ''leaf_count'', ''path''] j of
        None \<Rightarrow> None
      | Some f \<Rightarrow>
          (case (field f ''leaf_index'' usize_of_json, field f ''leaf_count'' usize_of_json,
                 field f ''path'' (vec_of_json step_of_json)) of
             (Some i, Some n, Some p) \<Rightarrow> Some \<lparr>leaf_index = i, leaf_count = n, mp_path = p\<rparr>
           | _ \<Rightarrow> None))"

lemma proof_roundtrip [codec]:
  assumes "leaf_index p < 2 ^ 64" and "leaf_count p < 2 ^ 64"
  shows "proof_of_json (proof_json p) = Some p"
proof -
  have "vec_of_json step_of_json (JArr (map step_json ss)) = Some ss" for ss
    by (rule step_wire.decode_vec) (simp add: list_all_iff)
  then show ?thesis
    using usize_roundtrip [OF assms(1)] usize_roundtrip [OF assms(2)]
    by (simp add: proof_of_json_def proof_json_def struct_fields_def field_def)
qed

interpretation proof_wire:
  wire proof_json proof_of_json "\<lambda>p. leaf_index p < 2 ^ 64 \<and> leaf_count p < 2 ^ 64"
  by unfold_locales (simp add: proof_roundtrip)

definition merkle_anchor_json :: "merkle_anchor \<Rightarrow> json" where
  "merkle_anchor_json a =
     JObj [(''from_seq'', json_u64 (from_seq a)), (''to_seq'', json_u64 (to_seq a)),
           (''count'', json_usize (ma_count a)), (''root'', JStr (ma_root a)),
           (''timestamp'', json_i64 (ma_timestamp a)), (''public_key'', JStr (ma_public_key a)),
           (''signature'', JStr (ma_signature a))]"

definition merkle_anchor_of_json :: "json \<Rightarrow> merkle_anchor option" where
  "merkle_anchor_of_json j =
     (case struct_fields
         [''from_seq'', ''to_seq'', ''count'', ''root'', ''timestamp'', ''public_key'', ''signature''] j of
        None \<Rightarrow> None
      | Some f \<Rightarrow>
          (case (field f ''from_seq'' u64_of_json, field f ''to_seq'' u64_of_json,
                 field f ''count'' usize_of_json, field f ''root'' string_of_json,
                 field f ''timestamp'' i64_of_json, field f ''public_key'' string_of_json,
                 field f ''signature'' string_of_json) of
             (Some a, Some b, Some n, Some r, Some t, Some p, Some g) \<Rightarrow>
               Some \<lparr>from_seq = a, to_seq = b, ma_count = n, ma_root = r, ma_timestamp = t,
                     ma_public_key = p, ma_signature = g\<rparr>
           | _ \<Rightarrow> None))"

lemma merkle_anchor_roundtrip [codec]:
  "ma_count a < 2 ^ 64 \<Longrightarrow> merkle_anchor_of_json (merkle_anchor_json a) = Some a"
  by (simp add: merkle_anchor_of_json_def merkle_anchor_json_def struct_fields_def field_def
      usize_roundtrip)

interpretation anchor_wire:
  wire merkle_anchor_json merkle_anchor_of_json "\<lambda>a. ma_count a < 2 ^ 64"
  by unfold_locales (rule merkle_anchor_roundtrip)

section \<open>Changing a \<open>Value\<close> in place\<close>

text \<open>
  \<open>v[key]\<close> as an assignment target: on an object the member, inserted as null if it is not there; on
  null an object is made first; on anything else a panic.
\<close>

fun index_mut :: "string \<Rightarrow> (json \<Rightarrow> json exec) \<Rightarrow> json \<Rightarrow> json exec" where
  "index_mut k f (JObj kvs) =
     (case f (case map_of kvs k of None \<Rightarrow> JNull | Some x \<Rightarrow> x) of
        Panic \<Rightarrow> Panic
      | Ret x \<Rightarrow> Ret (JObj (map_insert k x kvs)))"
| "index_mut k f JNull =
     (case f JNull of Panic \<Rightarrow> Panic | Ret x \<Rightarrow> Ret (JObj [(k, x)]))"
| "index_mut k f v = Panic"

end
