(* ===== verification/Server.thy ===== *)
theory Server
  imports Log Wire
begin

text \<open>
  The HTTP service (\<open>crates/server/src/main.rs\<close>): its state, the bearer check, the handlers, the
  router and the start from the environment. What \<open>axum\<close> does before a handler runs (reading the
  request, percent-decoding the path and the query) is outside: a request arrives as its method,
  path segments, \<open>Authorization\<close> header and JSON body.
\<close>

section \<open>State\<close>

text \<open>
  \<open>Box<dyn Store>\<close> and \<open>Arc<dyn KeyProvider>\<close>: the two implementations of each that the service
  uses, and their dispatch.
\<close>

datatype backend = FileBackend file_store | SegBackend seg_store

datatype provider = MasterKey local_key_provider | Ring keyring

definition backend_ops :: "crates \<Rightarrow> backend store_ops" where
  "backend_ops d =
     \<lparr>st_tail = (\<lambda>b. case b of FileBackend s \<Rightarrow> st_tail (file_ops d) s
                           | SegBackend s \<Rightarrow> st_tail (seg_ops d) s),
      st_append = (\<lambda>e v b. case b of
          FileBackend s \<Rightarrow> (case st_append (file_ops d) e v s of (r, s') \<Rightarrow> (r, FileBackend s'))
        | SegBackend s \<Rightarrow> (case st_append (seg_ops d) e v s of (r, s') \<Rightarrow> (r, SegBackend s')))\<rparr>"

definition provider_ops :: "crates \<Rightarrow> provider key_ops" where
  "provider_ops d =
     \<lparr>wrap_dek = (\<lambda>p i dek v. case p of
          MasterKey k \<Rightarrow>
            (case wrap_dek (local_ops d) k i dek v of (r, k', v') \<Rightarrow> (r, MasterKey k', v'))
        | Ring k \<Rightarrow> (case wrap_dek (keyring_ops d) k i dek v of (r, k', v') \<Rightarrow> (r, Ring k', v'))),
      unwrap_dek = (\<lambda>p i w. case p of
          MasterKey k \<Rightarrow> unwrap_dek (local_ops d) k i w
        | Ring k \<Rightarrow> unwrap_dek (keyring_ops d) k i w)\<rparr>"

text \<open>
  \<open>AppState\<close>. The log is open and its writer thread runs as long as the service does: \<open>as_writer\<close> is
  the writer's state. It holds the store, whose files the read side reads at \<open>data_path\<close>, and the
  provider, which \<open>key\<close> and \<open>keyring\<close> share.
\<close>

record app_state =
  as_writer :: "(backend, provider) writer_state"
  as_signer :: "checkpoint_signer option"
  as_write_token :: string
  as_read_token :: string
  as_admin_token :: string

definition app_log :: "app_state \<Rightarrow> (backend, provider) log_handle" where
  "app_log st = \<lparr>lh_tx = True, lh_writer = Some (as_writer st)\<rparr>"

definition with_log :: "(backend, provider) log_handle \<Rightarrow> app_state \<Rightarrow> app_state" where
  "with_log l st = (case lh_writer l of None \<Rightarrow> st | Some w \<Rightarrow> st\<lparr>as_writer := w\<rparr>)"

text \<open>What is at the data path: a file, or a directory of segments.\<close>

datatype data = DataFile "bytes option" | DataDir "dir option"

definition app_data :: "app_state \<Rightarrow> data" where
  "app_data st =
     (case wr_store (as_writer st) of
        FileBackend s \<Rightarrow> DataFile (Some (fs_file s))
      | SegBackend s \<Rightarrow> DataDir (Some (sg_dir s)))"

definition app_keyring :: "app_state \<Rightarrow> keyring option" where
  "app_keyring st = (case wr_provider (as_writer st) of MasterKey _ \<Rightarrow> None | Ring k \<Rightarrow> Some k)"

definition set_keyring :: "keyring \<Rightarrow> app_state \<Rightarrow> app_state" where
  "set_keyring k st = st\<lparr>as_writer := (as_writer st)\<lparr>wr_provider := Ring k\<rparr>\<rparr>"

section \<open>Responses and errors\<close>

record response =
  rs_status :: nat
  rs_body :: json

type_synonym 'a api = "response + 'a"

text \<open>\<open>ApiError\<close> and its conversions.\<close>

definition api_error :: "nat \<Rightarrow> string \<Rightarrow> response" where
  "api_error status msg = \<lparr>rs_status = status, rs_body = json_obj [(''error'', JStr msg)]\<rparr>"

definition from_error :: "error \<Rightarrow> response" where
  "from_error e = api_error 500 (error_to_string e)"

definition ok_json :: "json \<Rightarrow> response" where
  "ok_json j = \<lparr>rs_status = 200, rs_body = j\<rparr>"

definition read_log :: "crates \<Rightarrow> data \<Rightarrow> audit_entry list api" where
  "read_log d data =
     (case (case data of DataDir dir \<Rightarrow> read_all_segmented d dir | DataFile f \<Rightarrow> read_all d f) of
        Inr es \<Rightarrow> Inr es
      | Inl (Io _) \<Rightarrow> Inr []
      | Inl e \<Rightarrow> Inl (from_error e))"

section \<open>Authentication\<close>

text \<open>The argument is the \<open>Authorization\<close> header, if there is one and it is a string.\<close>

definition bearer :: "string option \<Rightarrow> string option" where
  "bearer auth = Option.bind auth (strip_prefix ''Bearer '')"

definition require :: "string option \<Rightarrow> string \<Rightarrow> unit api" where
  "require auth expected =
     (case bearer auth of
        Some t \<Rightarrow> if expected \<noteq> [] \<and> t = expected then Inr ()
                  else Inl (api_error 401 ''invalid or missing bearer token'')
      | None \<Rightarrow> Inl (api_error 401 ''invalid or missing bearer token''))"

section \<open>Requests\<close>

record record_request =
  rq_event_type :: string
  rq_outcome :: outcome
  rq_actor :: string
  rq_instruction_id :: "string option"
  rq_data :: json
  rq_pii :: "json option"
  rq_key_id :: string

definition default_key_id :: string where
  "default_key_id = ''master''"

text \<open>A value as \<open>serde_json::Value\<close> reads it; \<open>Option<Value>\<close> reads null as \<open>None\<close>.\<close>

definition record_request_of_json :: "json \<Rightarrow> record_request option" where
  "record_request_of_json j =
     (case struct_fields [''event_type'', ''outcome'', ''actor'', ''instruction_id'', ''data'',
         ''pii'', ''key_id''] j of
        None \<Rightarrow> None
      | Some f \<Rightarrow>
          (case (field f ''event_type'' string_of_json, field f ''outcome'' outcome_of_json,
                 field f ''actor'' string_of_json, opt_of_json string_of_json (f ''instruction_id''),
                 opt_of_json (\<lambda>v. Some (value_of v)) (f ''pii''),
                 (case f ''key_id'' of None \<Rightarrow> Some default_key_id | Some v \<Rightarrow> string_of_json v)) of
             (Some ev, Some oc, Some a, Some i, Some p, Some k) \<Rightarrow>
               Some \<lparr>rq_event_type = ev, rq_outcome = oc, rq_actor = a, rq_instruction_id = i,
                     rq_data = (case f ''data'' of None \<Rightarrow> JNull | Some v \<Rightarrow> value_of v),
                     rq_pii = p, rq_key_id = k\<rparr>
           | _ \<Rightarrow> None))"

record read_query =
  q_from :: "u64 option"
  q_to :: "u64 option"
  q_decrypt :: bool

text \<open>A query string as its decoded pairs; a repeated field is an error.\<close>

definition query_field :: "(string \<times> string) list \<Rightarrow> string \<Rightarrow> (string \<Rightarrow> 'a option) \<Rightarrow> 'a option option" where
  "query_field q name dec =
     (case map_of q name of
        None \<Rightarrow> Some None
      | Some s \<Rightarrow> map_option Some (dec s))"

definition query_fields_ok :: "string list \<Rightarrow> (string \<times> string) list \<Rightarrow> bool" where
  "query_fields_ok names q \<longleftrightarrow> distinct (filter (\<lambda>k. k \<in> set names) (map fst q))"

definition parse_bool :: "string \<Rightarrow> bool option" where
  "parse_bool s = (if s = ''true'' then Some True else if s = ''false'' then Some False else None)"

definition read_query_of :: "(string \<times> string) list \<Rightarrow> read_query option" where
  "read_query_of q =
     (if \<not> query_fields_ok [''from'', ''to'', ''decrypt''] q then None
      else
        (case (query_field q ''from'' parse_u64, query_field q ''to'' parse_u64,
               query_field q ''decrypt'' parse_bool) of
           (Some f, Some t, Some b) \<Rightarrow>
             Some \<lparr>q_from = f, q_to = t, q_decrypt = (case b of None \<Rightarrow> False | Some x \<Rightarrow> x)\<rparr>
         | _ \<Rightarrow> None))"

definition proof_query_of :: "(string \<times> string) list \<Rightarrow> u64 option" where
  "proof_query_of q =
     (if \<not> query_fields_ok [''seq''] q then None
      else (case query_field q ''seq'' parse_u64 of Some (Some s) \<Rightarrow> Some s | _ \<Rightarrow> None))"

section \<open>Handlers\<close>

definition health :: response where
  "health = ok_json (json_obj [(''status'', JStr ''ok'')])"

definition request_record :: "record_request \<Rightarrow> log_record" where
  "request_record q =
     (let rec = record_key_id (rq_key_id q) (record_new (rq_event_type q) (rq_outcome q) (rq_actor q));
          rec = (case rq_instruction_id q of None \<Rightarrow> rec | Some i \<Rightarrow> record_instruction_id i rec);
          rec = record_data (rq_data q) rec;
          rec = (case rq_pii q of None \<Rightarrow> rec | Some p \<Rightarrow> record_pii p rec)
      in rec)"

lemma request_record_fields:
  "request_record rq =
     \<lparr>r_event_type = rq_event_type rq, r_outcome = rq_outcome rq, r_actor = rq_actor rq,
      r_instruction_id = rq_instruction_id rq, r_data = rq_data rq, r_pii = rq_pii rq,
      r_key_id = rq_key_id rq\<rparr>"
  by (cases "rq_instruction_id rq"; cases "rq_pii rq")
    (simp_all add: request_record_def record_new_def record_key_id_def record_instruction_id_def
      record_data_def record_pii_def)

definition append_handler ::
  "crates \<Rightarrow> string option \<Rightarrow> record_request \<Rightarrow> env \<Rightarrow> app_state \<Rightarrow> response \<times> app_state" where
  "append_handler d auth q v st =
     (case require auth (as_write_token st) of
        Inl r \<Rightarrow> (r, st)
      | Inr _ \<Rightarrow>
          (case audit_record d (backend_ops d) (provider_ops d) (request_record q) v (app_log st) of
             (Inl e, l) \<Rightarrow> (from_error e, with_log l st)
           | (Inr rc, l) \<Rightarrow> (\<lparr>rs_status = 201, rs_body = receipt_json rc\<rparr>, with_log l st)))"

definition head_handler :: "string option \<Rightarrow> app_state \<Rightarrow> response" where
  "head_handler auth st =
     (case require auth (as_read_token st) of
        Inl r \<Rightarrow> r
      | Inr _ \<Rightarrow>
          (case audit_head (app_log st) of
             Inl e \<Rightarrow> from_error e
           | Inr (s, h) \<Rightarrow> ok_json (json_obj [(''seq'', json_u64 s), (''head_hash'', JStr h)])))"

text \<open>One entry of the answer to a read, with the PII opened on demand.\<close>

definition read_entry :: "crates \<Rightarrow> provider \<Rightarrow> bool \<Rightarrow> audit_entry \<Rightarrow> json exec" where
  "read_entry d key decrypt e =
     (let v = value_of (entry_json e) in
      case (if decrypt then p_pii (e_payload e) else None) of
        None \<Rightarrow> Ret v
      | Some pii \<Rightarrow>
          (case open_pii d (provider_ops d) key pii of
             Panic \<Rightarrow> Panic
           | Ret (Inr plain) \<Rightarrow>
               index_mut ''payload'' (index_mut ''pii_plaintext'' (\<lambda>_. Ret plain)) v
           | Ret (Inl err) \<Rightarrow>
               index_mut ''payload''
                 (index_mut ''pii_error'' (\<lambda>_. Ret (JStr (error_to_string err)))) v))"

fun read_entries :: "crates \<Rightarrow> provider \<Rightarrow> bool \<Rightarrow> audit_entry list \<Rightarrow> json list exec" where
  "read_entries d key decrypt [] = Ret []"
| "read_entries d key decrypt (e # es) =
     (case read_entry d key decrypt e of
        Panic \<Rightarrow> Panic
      | Ret v \<Rightarrow>
          (case read_entries d key decrypt es of Panic \<Rightarrow> Panic | Ret vs \<Rightarrow> Ret (v # vs)))"

definition read_records :: "crates \<Rightarrow> string option \<Rightarrow> read_query \<Rightarrow> app_state \<Rightarrow> response exec" where
  "read_records d auth q st =
     (case require auth (as_read_token st) of
        Inl r \<Rightarrow> Ret r
      | Inr _ \<Rightarrow>
     (case read_log d (app_data st) of
        Inl r \<Rightarrow> Ret r
      | Inr entries \<Rightarrow>
          let from = (case q_from q of None \<Rightarrow> 0 | Some f \<Rightarrow> f);
              to = (case q_to q of None \<Rightarrow> - 1 | Some t \<Rightarrow> t) in
     (case read_entries d (wr_provider (as_writer st)) (q_decrypt q)
             (filter (\<lambda>e. e_seq e \<ge> from \<and> e_seq e \<le> to) entries) of
        Panic \<Rightarrow> Panic
      | Ret out \<Rightarrow>
          Ret (ok_json (json_obj [(''count'', json_usize (length out)), (''entries'', JArr out)])))))"

definition no_signer :: response where
  "no_signer = api_error 501 ''no signing key configured (set CHAINLOG_SIGN_KEY)''"

definition checkpoint_handler :: "crates \<Rightarrow> string option \<Rightarrow> env \<Rightarrow> app_state \<Rightarrow> response" where
  "checkpoint_handler d auth v st =
     (case require auth (as_read_token st) of
        Inl r \<Rightarrow> r
      | Inr _ \<Rightarrow>
     (case as_signer st of
        None \<Rightarrow> no_signer
      | Some signer \<Rightarrow>
     (case audit_head (app_log st) of
        Inl e \<Rightarrow> from_error e
      | Inr (s, h) \<Rightarrow> ok_json (checkpoint_json (sign d signer s h (now_ms (env_clock v)))))))"

definition verify_handler :: "crates \<Rightarrow> string option \<Rightarrow> app_state \<Rightarrow> response" where
  "verify_handler d auth st =
     (case require auth (as_read_token st) of
        Inl r \<Rightarrow> r
      | Inr _ \<Rightarrow>
     (case read_log d (app_data st) of
        Inl r \<Rightarrow> r
      | Inr entries \<Rightarrow>
          let report = verify_entries d entries in
          \<lparr>rs_status = (if is_valid report then 200 else 409), rs_body = report_json report\<rparr>))"

definition merkle_anchor_handler :: "crates \<Rightarrow> string option \<Rightarrow> env \<Rightarrow> app_state \<Rightarrow> response" where
  "merkle_anchor_handler d auth v st =
     (case require auth (as_read_token st) of
        Inl r \<Rightarrow> r
      | Inr _ \<Rightarrow>
     (case as_signer st of
        None \<Rightarrow> no_signer
      | Some signer \<Rightarrow>
     (case read_log d (app_data st) of
        Inl r \<Rightarrow> r
      | Inr entries \<Rightarrow>
          ok_json (merkle_anchor_json
            (build_merkle_anchor d signer entries (now_ms (env_clock v)))))))"

definition merkle_proof_handler :: "crates \<Rightarrow> string option \<Rightarrow> u64 \<Rightarrow> app_state \<Rightarrow> response" where
  "merkle_proof_handler d auth s st =
     (case require auth (as_read_token st) of
        Inl r \<Rightarrow> r
      | Inr _ \<Rightarrow>
     (case read_log d (app_data st) of
        Inl r \<Rightarrow> r
      | Inr entries \<Rightarrow>
     (case merkle_proof_for_seq d entries s of
        None \<Rightarrow> api_error 404 (''no entry with seq '' @ show_u64 s)
      | Some p \<Rightarrow>
          let leaf = map_option e_entry_hash (find (\<lambda>e. e_seq e = s) entries);
              root = merkle_root d (entry_leaves entries) in
          ok_json (json_obj
            [(''seq'', json_u64 s),
             (''leaf'', case leaf of None \<Rightarrow> JNull | Some h \<Rightarrow> JStr h),
             (''root'', JStr root), (''proof'', value_of (proof_json p))]))))"

definition require_keyring :: "app_state \<Rightarrow> keyring api" where
  "require_keyring st =
     (case app_keyring st of
        None \<Rightarrow>
          Inl (api_error 501 ''key management requires keyring mode (set CHAINLOG_KEYRING_DIR)'')
      | Some k \<Rightarrow> Inr k)"

definition create_key ::
  "crates \<Rightarrow> string option \<Rightarrow> string \<Rightarrow> env \<Rightarrow> app_state \<Rightarrow> response \<times> app_state" where
  "create_key d auth i v st =
     (case require auth (as_admin_token st) of
        Inl r \<Rightarrow> (r, st)
      | Inr _ \<Rightarrow>
     (case require_keyring st of
        Inl r \<Rightarrow> (r, st)
      | Inr k \<Rightarrow>
     (case keyring_ensure d k i v of
        (Inl e, k', _) \<Rightarrow> (from_error e, set_keyring k' st)
      | (Inr created, k', _) \<Rightarrow>
          (\<lparr>rs_status = 201,
             rs_body = json_obj [(''key_id'', JStr i), (''created'', JBool created)]\<rparr>,
           set_keyring k' st))))"

definition shred_key ::
  "string option \<Rightarrow> string \<Rightarrow> bool \<Rightarrow> app_state \<Rightarrow> response \<times> app_state" where
  "shred_key auth i rm_fails st =
     (case require auth (as_admin_token st) of
        Inl r \<Rightarrow> (r, st)
      | Inr _ \<Rightarrow>
     (case require_keyring st of
        Inl r \<Rightarrow> (r, st)
      | Inr k \<Rightarrow>
     (case keyring_shred k i rm_fails of
        (Inl e, k') \<Rightarrow> (from_error e, set_keyring k' st)
      | (Inr shredded, k') \<Rightarrow>
          (ok_json (json_obj [(''key_id'', JStr i), (''shredded'', JBool shredded)]),
           set_keyring k' st))))"

definition list_keys :: "string option \<Rightarrow> app_state \<Rightarrow> response" where
  "list_keys auth st =
     (case require auth (as_admin_token st) of
        Inl r \<Rightarrow> r
      | Inr _ \<Rightarrow>
     (case require_keyring st of
        Inl r \<Rightarrow> r
      | Inr k \<Rightarrow>
     (case keyring_list k of
        Inl e \<Rightarrow> from_error e
      | Inr ids \<Rightarrow> ok_json (json_obj [(''key_ids'', JArr (map JStr ids))]))))"

section \<open>The router\<close>

datatype http_method = GET | POST | DELETE

datatype endpoint =
    EHealth
  | EAppend
  | ERead
  | EHead
  | ECheckpoint
  | EMerkleAnchor
  | EMerkleProof
  | EVerify
  | EListKeys
  | ECreateKey string
  | EShredKey string

text \<open>The path is given by its decoded segments; what no route matches is answered by \<open>axum\<close>.\<close>

definition route :: "http_method \<Rightarrow> string list \<Rightarrow> endpoint option" where
  "route meth segs =
     (if segs = [''health''] then (if meth = GET then Some EHealth else None)
      else if segs = [''v1'', ''records''] then
        (if meth = POST then Some EAppend else if meth = GET then Some ERead else None)
      else if segs = [''v1'', ''head''] then (if meth = GET then Some EHead else None)
      else if segs = [''v1'', ''checkpoint''] then (if meth = GET then Some ECheckpoint else None)
      else if segs = [''v1'', ''merkle-anchor''] then (if meth = GET then Some EMerkleAnchor else None)
      else if segs = [''v1'', ''merkle-proof''] then (if meth = GET then Some EMerkleProof else None)
      else if segs = [''v1'', ''verify''] then (if meth = GET then Some EVerify else None)
      else if segs = [''v1'', ''keys''] then (if meth = GET then Some EListKeys else None)
      else case segs of
        [a, b, i] \<Rightarrow>
          if a = ''v1'' \<and> b = ''keys'' \<and> i \<noteq> [] then
            (if meth = POST then Some (ECreateKey i)
             else if meth = DELETE then Some (EShredKey i) else None)
          else None
      | _ \<Rightarrow> None)"

record request =
  hr_method :: http_method
  hr_path :: "string list"
  hr_auth :: "string option"
  hr_query :: "(string \<times> string) list"
  hr_body :: "json option"  \<comment> \<open>the JSON body, if there is one and it parses\<close>

text \<open>
  A request that is routed and whose body or query can be extracted reaches its handler; otherwise
  \<open>axum\<close> answers it (\<open>None\<close>) and nothing changes. \<open>rm_fails\<close> is the outcome of a file removal.
\<close>

definition dispatch ::
  "crates \<Rightarrow> endpoint \<Rightarrow> request \<Rightarrow> bool \<Rightarrow> env \<Rightarrow> app_state \<Rightarrow> response exec option \<times> app_state" where
  "dispatch d ep rq rm_fails v st =
     (let auth = hr_auth rq; pure = (\<lambda>r. (Some (Ret r), st));
          change = (\<lambda>(r, st'). (Some (Ret r), st')) in
      case ep of
        EHealth \<Rightarrow> pure health
      | EAppend \<Rightarrow>
          (case Option.bind (hr_body rq) record_request_of_json of
             None \<Rightarrow> (None, st)
           | Some q \<Rightarrow> change (append_handler d auth q v st))
      | ERead \<Rightarrow>
          (case read_query_of (hr_query rq) of
             None \<Rightarrow> (None, st)
           | Some q \<Rightarrow> (Some (read_records d auth q st), st))
      | EHead \<Rightarrow> pure (head_handler auth st)
      | ECheckpoint \<Rightarrow> pure (checkpoint_handler d auth v st)
      | EMerkleAnchor \<Rightarrow> pure (merkle_anchor_handler d auth v st)
      | EMerkleProof \<Rightarrow>
          (case proof_query_of (hr_query rq) of
             None \<Rightarrow> (None, st)
           | Some s \<Rightarrow> pure (merkle_proof_handler d auth s st))
      | EVerify \<Rightarrow> pure (verify_handler d auth st)
      | EListKeys \<Rightarrow> pure (list_keys auth st)
      | ECreateKey i \<Rightarrow> change (create_key d auth i v st)
      | EShredKey i \<Rightarrow> change (shred_key auth i rm_fails st))"

definition serve ::
  "crates \<Rightarrow> request \<Rightarrow> bool \<Rightarrow> env \<Rightarrow> app_state \<Rightarrow> response exec option \<times> app_state" where
  "serve d rq rm_fails v st =
     (case route (hr_method rq) (hr_path rq) of
        None \<Rightarrow> (None, st)
      | Some ep \<Rightarrow> dispatch d ep rq rm_fails v st)"

section \<open>Starting from the environment\<close>

text \<open>The environment variables that are set, and what is found at the paths they name.\<close>

record config =
  cf_key :: "string option"
  cf_key_file :: "string option"
  cf_keyring_dir :: "string option"
  cf_segment_max :: "string option"
  cf_write_token :: "string option"
  cf_read_token :: "string option"
  cf_admin_token :: "string option"
  cf_sign_key :: "string option"

record world =
  wd_key_file :: "bytes option"
  wd_keyring :: "dir option"
  wd_file :: "bytes option"  \<comment> \<open>the data path, as a file\<close>
  wd_dir :: "dir option"     \<comment> \<open>the data path, as a directory\<close>

definition load_key :: "crates \<Rightarrow> config \<Rightarrow> world \<Rightarrow> string + local_key_provider" where
  "load_key d cf wd =
     (case cf_key cf of
        Some b64 \<Rightarrow>
          (case local_from_base64 d b64 of Inl e \<Rightarrow> Inl (error_to_string e) | Inr k \<Rightarrow> Inr k)
      | None \<Rightarrow>
     (case cf_key_file cf of
        Some kfile \<Rightarrow>
          (case wd_key_file wd of
             None \<Rightarrow> Inl (''reading '' @ kfile @ '': '')
           | Some contents \<Rightarrow>
               if \<not> utf8_valid contents then Inl (''reading '' @ kfile @ '': '')
               else
                 (case local_from_base64 d (from_bytes contents) of
                    Inl e \<Rightarrow> Inl (error_to_string e)
                  | Inr k \<Rightarrow> Inr k))
      | None \<Rightarrow> Inl ''set CHAINLOG_KEY (base64) or CHAINLOG_KEY_FILE''))"

definition unwrap_or_default :: "string option \<Rightarrow> string" where
  "unwrap_or_default x = (case x of None \<Rightarrow> [] | Some s \<Rightarrow> s)"

definition segment_max :: "config \<Rightarrow> u64 option" where
  "segment_max cf = Option.bind (cf_segment_max cf) parse_u64"

text \<open>\<open>main\<close> up to the router; \<open>None\<close> is \<open>exit(1)\<close>.\<close>

definition server_start :: "crates \<Rightarrow> config \<Rightarrow> world \<Rightarrow> env \<Rightarrow> bool \<Rightarrow> app_state option" where
  "server_start d cf wd v spawn_ok =
     (case (case cf_keyring_dir cf of
              Some _ \<Rightarrow>
                (case keyring_open_at d (wd_keyring wd) True v of
                   Inl _ \<Rightarrow> None | Inr k \<Rightarrow> Some (Ring k))
            | None \<Rightarrow>
                (case load_key d cf wd of Inl _ \<Rightarrow> None | Inr k \<Rightarrow> Some (MasterKey k))) of
        None \<Rightarrow> None
      | Some key \<Rightarrow>
     (case (case segment_max cf of
              Some m \<Rightarrow>
                (case seg_open d (wd_dir wd) m v of Inl _ \<Rightarrow> None | Inr s \<Rightarrow> Some (SegBackend s))
            | None \<Rightarrow>
                (case file_open d (wd_file wd) v of Inl _ \<Rightarrow> None | Inr s \<Rightarrow> Some (FileBackend s))) of
        None \<Rightarrow> None
      | Some store \<Rightarrow>
     (case log_build (backend_ops d) (builder_store store (builder_key_provider_arc key builder_new))
             spawn_ok of
        Inl _ \<Rightarrow> None
      | Inr log \<Rightarrow>
     (case (case cf_sign_key cf of
              Some b64 \<Rightarrow>
                (case signer_from_base64 d b64 of Inl _ \<Rightarrow> None | Inr s \<Rightarrow> Some (Some s))
            | None \<Rightarrow> Some None) of
        None \<Rightarrow> None
      | Some signer \<Rightarrow>
          map_option (\<lambda>w. \<lparr>as_writer = w, as_signer = signer,
              as_write_token = unwrap_or_default (cf_write_token cf),
              as_read_token = unwrap_or_default (cf_read_token cf),
              as_admin_token = unwrap_or_default (cf_admin_token cf)\<rparr>) (lh_writer log)))))"

section \<open>The two backends and providers behind one interface\<close>

definition backend_inv :: "crates \<Rightarrow> backend \<Rightarrow> bool" where
  "backend_inv d b = (case b of FileBackend s \<Rightarrow> file_inv d s | SegBackend s \<Rightarrow> seg_inv d s)"

definition backend_entries :: "crates \<Rightarrow> backend \<Rightarrow> audit_entry list" where
  "backend_entries d b =
     (case b of FileBackend s \<Rightarrow> file_entries d s | SegBackend s \<Rightarrow> seg_entries d s)"

lemma backend_simps [simp]:
  "st_tail (backend_ops d) (FileBackend f) = st_tail (file_ops d) f"
  "st_tail (backend_ops d) (SegBackend g) = st_tail (seg_ops d) g"
  "st_append (backend_ops d) e v (FileBackend f) =
     map_prod id FileBackend (st_append (file_ops d) e v f)"
  "st_append (backend_ops d) e v (SegBackend g) =
     map_prod id SegBackend (st_append (seg_ops d) e v g)"
  "backend_inv d (FileBackend f) = file_inv d f"
  "backend_inv d (SegBackend g) = seg_inv d g"
  "backend_entries d (FileBackend f) = file_entries d f"
  "backend_entries d (SegBackend g) = seg_entries d g"
  by (simp_all add: backend_ops_def backend_inv_def backend_entries_def map_prod_def)

lemma map_prod_eqD:
  assumes "map_prod id f p = (r, s)"
  obtains t where "p = (r, t)" and "s = f t"
  using assms by (cases p) auto

interpretation server_store:
  chain_store "backend_ops d" "backend_inv d" "backend_entries d" "entry_ok d" for d
proof unfold_locales
  fix b assume "backend_inv d b"
  then show "st_tail (backend_ops d) b = Inr (tail_of (backend_entries d b))"
    by (cases b) (simp_all add: file_st.tail_law seg_st.tail_law)
next
  fix b e v b'
  assume a: "backend_inv d b" "entry_ok d e" "follows (backend_entries d b) e"
    "st_append (backend_ops d) e v b = (Inr (), b')"
  show "backend_inv d b' \<and> backend_entries d b' = backend_entries d b @ [e]"
  proof (cases b)
    case (FileBackend f)
    with a obtain t where "st_append (file_ops d) e v f = (Inr (), t)" "b' = FileBackend t"
      by (auto elim: map_prod_eqD)
    with a FileBackend file_st.append_ok [of d f e v t] show ?thesis by simp
  next
    case (SegBackend g)
    with a obtain t where "st_append (seg_ops d) e v g = (Inr (), t)" "b' = SegBackend t"
      by (auto elim: map_prod_eqD)
    with a SegBackend seg_st.append_ok [of d g e v t] show ?thesis by simp
  qed
next
  fix b e v er b'
  assume a: "backend_inv d b" "follows (backend_entries d b) e" "clean_fault (env_fault v)"
    "st_append (backend_ops d) e v b = (Inl er, b')"
  show "backend_inv d b' \<and> backend_entries d b' = backend_entries d b"
  proof (cases b)
    case (FileBackend f)
    with a obtain t where "st_append (file_ops d) e v f = (Inl er, t)" "b' = FileBackend t"
      by (auto elim: map_prod_eqD)
    with a FileBackend file_st.append_clean [of d f e v er t] show ?thesis by simp
  next
    case (SegBackend g)
    with a obtain t where "st_append (seg_ops d) e v g = (Inl er, t)" "b' = SegBackend t"
      by (auto elim: map_prod_eqD)
    with a SegBackend seg_st.append_clean [of d g e v er t] show ?thesis by simp
  qed
next
  fix b e and v :: env
  assume "backend_inv d b" "env_fault v = NoFault"
  then show "fst (st_append (backend_ops d) e v b) = Inr ()"
    by (cases b) (simp_all add: file_st.append_succeeds seg_st.append_succeeds)
qed

lemma provider_simps [simp]:
  "wrap_dek (provider_ops d) (MasterKey k) i dek v =
     map_prod id (map_prod MasterKey id) (wrap_dek (local_ops d) k i dek v)"
  "wrap_dek (provider_ops d) (Ring g) i dek v =
     map_prod id (map_prod Ring id) (wrap_dek (keyring_ops d) g i dek v)"
  "unwrap_dek (provider_ops d) (MasterKey k) i w = unwrap_dek (local_ops d) k i w"
  "unwrap_dek (provider_ops d) (Ring g) i w = unwrap_dek (keyring_ops d) g i w"
  by (simp_all add: provider_ops_def map_prod_def split: prod.splits)

interpretation server_keys: key_provider "provider_ops d" "cipher_ok d" for d
proof unfold_locales
  fix k i dek v r k' v'
  assume "cipher_ok d k" "wrap_dek (provider_ops d) k i dek v = (r, k', v')"
  then show "cipher_ok d k'" by (simp add: cipher_ok_def)
next
  fix k i dek v w k' v'
  assume a: "cipher_ok d k" "wrap_dek (provider_ops d) k i dek v = (Inr w, k', v')"
  show "unwrap_dek (provider_ops d) k' i w = Inr dek"
  proof (cases k)
    case (MasterKey m)
    obtain r p u where w: "wrap_dek (local_ops d) m i dek v = (r, p, u)" by (metis prod.exhaust)
    with a MasterKey local_kp.wrap_unwrap [of d m i dek v w p u] show ?thesis
      by (auto simp: cipher_ok_def)
  next
    case (Ring g)
    obtain r p u where w: "wrap_dek (keyring_ops d) g i dek v = (r, p, u)" by (metis prod.exhaust)
    with a Ring keyring_kp.wrap_unwrap [of d g i dek v w p u] show ?thesis
      by (auto simp: cipher_ok_def)
  qed
next
  fix k i dek v r k' v' j w x
  assume a: "cipher_ok d k" "wrap_dek (provider_ops d) k i dek v = (r, k', v')"
    "unwrap_dek (provider_ops d) k j w = Inr x"
  show "unwrap_dek (provider_ops d) k' j w = Inr x"
  proof (cases k)
    case (MasterKey m)
    obtain q p u where w: "wrap_dek (local_ops d) m i dek v = (q, p, u)" by (metis prod.exhaust)
    with a MasterKey local_kp.wrap_keeps [of d m i dek v q p u j w x] show ?thesis
      by (auto simp: cipher_ok_def)
  next
    case (Ring g)
    obtain q p u where w: "wrap_dek (keyring_ops d) g i dek v = (q, p, u)" by (metis prod.exhaust)
    with a Ring keyring_kp.wrap_keeps [of d g i dek v q p u j w x] show ?thesis
      by (auto simp: cipher_ok_def)
  qed
qed

interpretation server_log: audit_engine "backend_ops d" "backend_inv d" "backend_entries d"
  "entry_ok d" "provider_ops d" "cipher_ok d" d "record_ok d" utf8_string for d
  by unfold_locales (auto simp: record_ok_def made_entry_ok made_entry_hash_utf8)

lemma backend_read:
  assumes "backend_inv d (wr_store (as_writer st))"
  shows "read_log d (app_data st) = Inr (backend_entries d (wr_store (as_writer st)))"
proof (cases "wr_store (as_writer st)")
  case (FileBackend s)
  with assms file_inv_read show ?thesis
    by (simp add: backend_inv_def read_log_def app_data_def backend_entries_def)
next
  case (SegBackend s)
  with assms seg_inv_read show ?thesis
    by (simp add: backend_inv_def read_log_def app_data_def backend_entries_def)
qed

end
