(* ===== verification/Service.thy ===== *)
theory Service
  imports Server Durability
begin

text \<open>
  The properties of the service: who may change what, what requests can do to the stored bytes, and
  that the log it serves always verifies.
\<close>

section \<open>Helper lemmas\<close>

text \<open>The token that the endpoint requires; \<open>/health\<close> requires none.\<close>

fun endpoint_token :: "endpoint \<Rightarrow> app_state \<Rightarrow> string option" where
  "endpoint_token EHealth st = None"
| "endpoint_token EAppend st = Some (as_write_token st)"
| "endpoint_token (ECreateKey i) st = Some (as_admin_token st)"
| "endpoint_token (EShredKey i) st = Some (as_admin_token st)"
| "endpoint_token EListKeys st = Some (as_admin_token st)"
| "endpoint_token _ st = Some (as_read_token st)"

text \<open>The request carries a configured token.\<close>

definition carries :: "request \<Rightarrow> string \<Rightarrow> bool" where
  "carries rq tok \<longleftrightarrow> tok \<noteq> [] \<and> hr_auth rq = Some (''Bearer '' @ tok)"

lemma require_carries:
  "require (hr_auth rq) tok =
     (if carries rq tok then Inr () else Inl (api_error 401 ''invalid or missing bearer token''))"
proof -
  have "strip_prefix p s = Some t \<longleftrightarrow> s = p @ t" for p s t by auto
  then have "bearer (hr_auth rq) = Some t \<longleftrightarrow> hr_auth rq = Some (''Bearer '' @ t)" for t
    by (auto simp only: bearer_def bind_eq_Some_conv)
  then show ?thesis
    by (cases "bearer (hr_auth rq)") (auto simp: require_def carries_def simp del: append.simps)
qed

lemma require_bearer: "tok \<noteq> [] \<Longrightarrow> require (Some (''Bearer '' @ tok)) tok = Inr ()"
  by (simp only: require_def bearer_def bind.bind_lunit strip_prefix_append option.case) simp

lemmas handler_defs = append_handler_def head_handler_def read_records_def checkpoint_handler_def
  verify_handler_def merkle_anchor_handler_def merkle_proof_handler_def create_key_def
  shred_key_def list_keys_def

text \<open>A service as it starts, for the samples.\<close>

definition sample_app :: "backend \<Rightarrow> app_state" where
  "sample_app b =
     \<lparr>as_writer = \<lparr>wr_store = b, wr_provider = Ring (keyring_open demo None True), wr_seq = 0,
        wr_prev_hash = GENESIS_PREV_HASH\<rparr>,
      as_signer = None, as_write_token = ''w'', as_read_token = ''r'', as_admin_token = ''a''\<rparr>"

section \<open>Roles\<close>

text \<open>
  C11. A request that does not carry the token of the role its endpoint needs changes nothing and
  learns nothing: it is answered 401, unless it is so malformed that no handler runs. With the
  role's token unset every such request is refused.
\<close>

theorem roles_enforced:
  assumes "route (hr_method rq) (hr_path rq) = Some ep"
    and "endpoint_token ep st = Some tok" and "\<not> carries rq tok"
  shows "serve d rq rm_fails v st =
      (Some (Ret (api_error 401 ''invalid or missing bearer token'')), st) \<or>
    serve d rq rm_fails v st = (None, st)"
  using assms
  by (cases ep)
    (auto simp: serve_def dispatch_def handler_defs require_carries Let_def split: option.splits)

theorem roles_enforced_witness:
  "serve demo \<lparr>hr_method = GET, hr_path = [''v1'', ''verify''], hr_auth = Some ''Bearer w'',
      hr_query = [], hr_body = None\<rparr> False calm (sample_app (FileBackend \<lparr>fs_file = [], fs_tail = None\<rparr>)) =
    (Some (Ret (api_error 401 ''invalid or missing bearer token'')),
     sample_app (FileBackend \<lparr>fs_file = [], fs_tail = None\<rparr>))"
proof -
  let ?rq = "\<lparr>hr_method = GET, hr_path = [''v1'', ''verify''], hr_auth = Some ''Bearer w'',
      hr_query = [], hr_body = None\<rparr>"
  have r: "route (hr_method ?rq) (hr_path ?rq) = Some EVerify" by (simp add: route_def)
  moreover have "\<not> carries ?rq ''r''" by (simp add: carries_def)
  moreover have "serve demo ?rq False calm st \<noteq> (None, st)" for st
    using r by (simp add: serve_def dispatch_def Let_def)
  ultimately show ?thesis
    using roles_enforced [of ?rq EVerify "sample_app (FileBackend \<lparr>fs_file = [], fs_tail = None\<rparr>)"
        "''r''" demo False calm]
    by (simp add: sample_app_def)
qed

section \<open>What is stored\<close>

fun serve_all ::
  "crates \<Rightarrow> (request \<times> bool \<times> env) list \<Rightarrow> app_state \<Rightarrow> response exec option list \<times> app_state" where
  "serve_all d [] st = ([], st)"
| "serve_all d ((rq, rm_fails, v) # rqs) st =
     (case serve d rq rm_fails v st of
        (r, st') \<Rightarrow> (case serve_all d rqs st' of (rs, st'') \<Rightarrow> (r # rs, st'')))"

text \<open>Every file is still there, and still begins with the bytes it had.\<close>

definition dir_kept :: "dir \<Rightarrow> dir \<Rightarrow> bool" where
  "dir_kept fs fs' \<longleftrightarrow>
     (\<forall>name c. map_of fs name = Some c \<longrightarrow> (\<exists>more. map_of fs' name = Some (c @ more)))"

fun bytes_kept :: "backend \<Rightarrow> backend \<Rightarrow> bool" where
  "bytes_kept (FileBackend s) (FileBackend s') \<longleftrightarrow> (\<exists>more. fs_file s' = fs_file s @ more)"
| "bytes_kept (SegBackend s) (SegBackend s') \<longleftrightarrow> dir_kept (sg_dir s) (sg_dir s')"
| "bytes_kept _ _ \<longleftrightarrow> False"

lemma dir_kept_refl [simp]: "dir_kept fs fs"
  by (simp add: dir_kept_def)

lemma dir_kept_trans: "dir_kept a b \<Longrightarrow> dir_kept b c \<Longrightarrow> dir_kept a c"
  unfolding dir_kept_def by (metis append.assoc)

lemma bytes_kept_refl [simp]: "bytes_kept b b"
  by (cases b) auto

lemma bytes_kept_trans: "bytes_kept a b \<Longrightarrow> bytes_kept b c \<Longrightarrow> bytes_kept a c"
  by (cases a; cases b; cases c) (auto intro: dir_kept_trans)

lemma write_line_kept: "write_line file line v = (r, file') \<Longrightarrow> \<exists>more. file' = file @ more"
  by (auto simp: write_line_def split: fault.splits)

lemma touch_kept: "dir_kept fs (touch p fs)"
  by (auto simp: dir_kept_def touch_def update_conv')

lemma rotate_kept: "rotate_to f v s = (r, s') \<Longrightarrow> dir_kept (sg_dir s) (sg_dir s')"
  by (auto simp: rotate_to_def touch_kept Let_def split: if_splits)

lemma update_kept:
  assumes "write_line (case map_of fs p of None \<Rightarrow> [] | Some c \<Rightarrow> c) line v = (r, c')"
  shows "dir_kept fs (AList.update p c' fs)"
  using write_line_kept [OF assms] by (auto simp: dir_kept_def update_conv')

lemma seg_append_kept: "seg_append d e v s = (r, s') \<Longrightarrow> dir_kept (sg_dir s) (sg_dir s')"
  by (auto simp: seg_append_def Let_def split: prod.splits sum.splits if_splits
      dest!: rotate_kept update_kept intro: dir_kept_trans)

lemma backend_append_kept: "bytes_kept b (snd (st_append (backend_ops d) e v b))"
proof (cases b)
  case (FileBackend f)
  then show ?thesis
    by (auto simp: file_ops_def file_append_def split: prod.splits sum.splits dest!: write_line_kept)
next
  case (SegBackend g)
  obtain r g' where "seg_append d e v g = (r, g')" by (cases "seg_append d e v g")
  with SegBackend seg_append_kept show ?thesis by (simp add: seg_ops_def)
qed

lemma process_kept:
  "bytes_kept (wr_store w) (wr_store (snd (process d (backend_ops d) kops r v w)))"
  using backend_append_kept [of "wr_store w" d]
  by (auto simp: process_def Let_def split: prod.splits sum.splits) (metis snd_conv)+

text \<open>The receipts that answers to appends carry.\<close>

definition acked :: "request \<Rightarrow> response exec option \<Rightarrow> receipt list" where
  "acked rq resp =
     (case (route (hr_method rq) (hr_path rq), resp) of
        (Some EAppend, Some (Ret r)) \<Rightarrow>
          if rs_status r = 201 then
            (case receipt_of_json (rs_body r) of None \<Rightarrow> [] | Some rc \<Rightarrow> [rc])
          else []
      | _ \<Rightarrow> [])"

fun appended :: "request \<Rightarrow> record_request option" where
  "appended rq =
     (if route (hr_method rq) (hr_path rq) = Some EAppend
      then Option.bind (hr_body rq) record_request_of_json else None)"

text \<open>All that a request can do to the state.\<close>

lemma acked_other: "route (hr_method rq) (hr_path rq) \<noteq> Some EAppend \<Longrightarrow> acked rq resp = []"
  by (auto simp: acked_def split: option.splits endpoint.splits)

lemma acked_api_error: "acked rq (Some (Ret (from_error e))) = []"
  "acked rq (Some (Ret (api_error 401 m))) = []" "acked rq None = []"
  by (auto simp: acked_def from_error_def api_error_def split: option.splits endpoint.splits)

lemma acked_created:
  "route (hr_method rq) (hr_path rq) = Some EAppend \<Longrightarrow>
   acked rq (Some (Ret \<lparr>rs_status = 201, rs_body = receipt_json rc\<rparr>)) = [rc]"
  by (simp add: acked_def)

lemma serve_append:
  assumes "route (hr_method rq) (hr_path rq) = Some EAppend"
    and "serve d rq rm_fails v st = (resp, st')"
  shows "st' = st \<and> acked rq resp = [] \<or>
    (\<exists>q res w'. appended rq = Some q \<and>
       process d (backend_ops d) (provider_ops d) (request_record q) v (as_writer st) = (res, w') \<and>
       st' = st\<lparr>as_writer := w'\<rparr> \<and>
       acked rq resp = (case res of Inl _ \<Rightarrow> [] | Inr rc \<Rightarrow> [rc]))"
proof (cases "appended rq")
  case None
  then show ?thesis
    using assms by (auto simp: serve_def dispatch_def Let_def acked_api_error)
next
  case (Some q)
  obtain res w' where p:
    "process d (backend_ops d) (provider_ops d) (request_record q) v (as_writer st) = (res, w')"
    by (cases "process d (backend_ops d) (provider_ops d) (request_record q) v (as_writer st)")
  show ?thesis
  proof (cases "carries rq (as_write_token st)")
    case False
    then show ?thesis
      using assms Some
      by (auto simp: serve_def dispatch_def Let_def append_handler_def require_carries
          acked_api_error)
  next
    case True
    then have "st' = st\<lparr>as_writer := w'\<rparr>"
      and "resp = Some (Ret (case res of Inl e \<Rightarrow> from_error e
                         | Inr rc \<Rightarrow> \<lparr>rs_status = 201, rs_body = receipt_json rc\<rparr>))"
      using assms Some p
      by (auto simp: serve_def dispatch_def Let_def append_handler_def require_carries
          audit_record_def app_log_def with_log_def split: sum.splits)
    with Some p assms(1) show ?thesis
      by (cases res) (auto simp: acked_api_error acked_created)
  qed
qed

lemma serve_other:
  assumes "route (hr_method rq) (hr_path rq) \<noteq> Some EAppend"
    and "serve d rq rm_fails v st = (resp, st')"
  shows "st' = st \<or> (\<exists>k'. st' = set_keyring k' st)"
  using assms
  by (cases "route (hr_method rq) (hr_path rq)"; cases "the (route (hr_method rq) (hr_path rq))")
    (auto simp: serve_def dispatch_def Let_def create_key_def shred_key_def
      split: option.splits sum.splits prod.splits)

text \<open>The tokens never change.\<close>

lemma serve_tokens:
  assumes "serve d rq rm_fails v st = (resp, st')"
  shows "as_read_token st' = as_read_token st"
proof (cases "route (hr_method rq) (hr_path rq) = Some EAppend")
  case True
  from serve_append [OF this assms] show ?thesis by auto
next
  case False
  from serve_other [OF this assms] show ?thesis by (auto simp: set_keyring_def)
qed

lemma serve_kept:
  assumes "serve d rq rm_fails v st = (resp, st')"
  shows "bytes_kept (wr_store (as_writer st)) (wr_store (as_writer st'))"
proof (cases "route (hr_method rq) (hr_path rq) = Some EAppend")
  case True
  from serve_append [OF this assms] process_kept [of "as_writer st" d "provider_ops d"]
  show ?thesis by (auto, metis snd_conv)
next
  case False
  from serve_other [OF this assms] show ?thesis by (auto simp: set_keyring_def)
qed

text \<open>
  C10. Append-only. Whatever requests arrive, from whoever, and whatever fails while they are
  served, no stored byte is changed or removed: the log file still begins with what it held, and
  every segment file is still there and begins with what it held.
\<close>

theorem requests_only_append:
  "bytes_kept (wr_store (as_writer st)) (wr_store (as_writer (snd (serve_all d rqs st))))"
proof (induction rqs arbitrary: st)
  case (Cons c rqs)
  obtain rq rm_fails v where c: "c = (rq, rm_fails, v)" by (cases c)
  obtain r st1 where s: "serve d rq rm_fails v st = (r, st1)" by (cases "serve d rq rm_fails v st")
  from bytes_kept_trans [OF serve_kept [OF s] Cons.IH] show ?case
    using c s by (simp add: case_prod_unfold)
qed simp

section \<open>What is served\<close>

text \<open>
  The requests of a run whose failures are clean, and whose appends carry data that
  \<open>serde_json\<close> reads back.
\<close>

definition polite_request :: "request \<times> bool \<times> env \<Rightarrow> bool" where
  "polite_request c \<longleftrightarrow>
     (case c of (rq, rm_fails, v) \<Rightarrow>
        clean_fault (env_fault v) \<and>
        (case appended rq of None \<Rightarrow> True | Some q \<Rightarrow> plain_record (request_record q)))"

text \<open>What the data path holds when the service starts: nothing yet, or a log that verifies.\<close>

definition world_holds :: "crates \<Rightarrow> config \<Rightarrow> world \<Rightarrow> audit_entry list \<Rightarrow> bool" where
  "world_holds d cf wd es \<longleftrightarrow>
     (case segment_max cf of
        None \<Rightarrow> stored d es (wd_file wd) \<and> is_valid (verify_entries d es)
      | Some _ \<Rightarrow>
          (case wd_dir wd of
             None \<Rightarrow> es = []
           | Some files \<Rightarrow> \<exists>ps. segmented d None ps files \<and> es = all_entries ps))"

lemma verify_entries_from_None: "verify_entries_from d None es = verify_entries d es"
  by (simp add: verify_entries_def)

lemma builder_order:
  "builder_store s (builder_key_provider k b) = builder_key_provider k (builder_store s b)"
  by (simp add: builder_store_def builder_key_provider_def)

lemma server_start_parts:
  assumes "server_start d cf wd v True = Some st"
  shows "\<exists>store key l.
    (case segment_max cf of
       Some m \<Rightarrow> \<exists>s. seg_open d (wd_dir wd) m v = Inr s \<and> store = SegBackend s
     | None \<Rightarrow> \<exists>s. file_open d (wd_file wd) v = Inr s \<and> store = FileBackend s) \<and>
    log_build (backend_ops d) (builder_key_provider key (builder_store store builder_new)) True
      = Inr l \<and> lh_writer l = Some (as_writer st)"
  using assms by (auto simp: server_start_def builder_order split: option.splits sum.splits) blast+

lemma open_backend:
  assumes "world_holds d cf wd es"
    and "case segment_max cf of
       Some m \<Rightarrow> \<exists>s. seg_open d (wd_dir wd) m v = Inr s \<and> store = SegBackend s
     | None \<Rightarrow> \<exists>s. file_open d (wd_file wd) v = Inr s \<and> store = FileBackend s"
  shows "backend_inv d store \<and> backend_entries d store = es"
proof (cases "segment_max cf")
  case None
  with assms obtain s where s: "file_open d (wd_file wd) v = Inr s" "store = FileBackend s"
      "stored d es (wd_file wd)"
    by (auto simp: world_holds_def)
  then have "env_fault v \<noteq> OpenFault" by (auto simp: file_open_def split: sum.splits)
  from open_stored [OF s(3) this] s(1,2) show ?thesis by auto
next
  case (Some m)
  with assms obtain s where s: "seg_open d (wd_dir wd) m v = Inr s" "store = SegBackend s"
    by auto
  then have m: "m \<noteq> 0" by (auto simp: seg_open_def)
  have f: "env_fault v \<noteq> OpenFault"
    using s(1) by (auto simp: seg_open_def Let_def split: if_splits sum.splits prod.splits)
  show ?thesis
  proof (cases "wd_dir wd")
    case None
    then have "es = []" using assms(1) Some by (simp add: world_holds_def)
    moreover have "names_segments (map fst ([] :: dir)) {}" by (simp add: names_segments_def)
    from seg_open_new [OF this m f, of d] None s(1) have "seg_rep d s [(1, [])]"
      by (auto simp: seg_open_no_dir)
    from seg_rep_inv [OF this] have "seg_inv d s" "seg_entries d s = []" by simp_all
    ultimately show ?thesis using s(2) by simp
  next
    case (Some files)
    then obtain ps where ps: "segmented d None ps files" "es = all_entries ps"
      using assms(1) \<open>segment_max cf = Some m\<close> by (auto simp: world_holds_def)
    then obtain s' where "seg_open d (Some files) m v = Inr s'" "seg_rep d s' ps"
      using seg_open_pieces [OF _ _ _ _ _ m f] by (fastforce simp: segmented_def)
    with s Some ps(2) seg_rep_inv show ?thesis by fastforce
  qed
qed

text \<open>A service that starts on a log that continues the base \<open>b\<close> continues it.\<close>

lemma start_from:
  assumes "engine_crates d" and "server_start d cf wd v True = Some st"
    and "\<And>store. (case segment_max cf of
       Some m \<Rightarrow> \<exists>s. seg_open d (wd_dir wd) m v = Inr s \<and> store = SegBackend s
     | None \<Rightarrow> \<exists>s. file_open d (wd_file wd) v = Inr s \<and> store = FileBackend s) \<Longrightarrow>
       backend_inv d store \<and> backend_entries d store = es"
    and "chain_from d b es" and "es = [] \<Longrightarrow> b = genesis"
  shows "server_log.log_inv d b (as_writer st) \<and> backend_entries d (wr_store (as_writer st)) = es"
proof -
  from server_start_parts [OF assms(2)] assms(3) obtain store key l where
    opened: "backend_inv d store" "backend_entries d store = es"
    and build: "log_build (backend_ops d) (builder_key_provider key (builder_store store builder_new))
      True = Inr l" "lh_writer l = Some (as_writer st)"
    by blast
  have hex: "hex_ok d" and cipher: "cipher_ok d key"
    using assms(1) by (simp_all add: engine_crates_def cipher_ok_def)
  note chain = assms(4,5) [folded opened(2)]
  from server_log.build_resumes [OF opened(1) cipher chain(1) impI [OF chain(2)]
      head_utf8 [OF hex chain] build(1)] build(2) opened(2)
  show ?thesis by auto
qed

lemma start_inv:
  assumes "engine_crates d" and "world_holds d cf wd es"
    and "server_start d cf wd v True = Some st"
  shows "server_log.log_inv d genesis (as_writer st)"
    and "backend_entries d (wr_store (as_writer st)) = es"
proof -
  have "is_valid (verify_entries d es)"
    using assms(2)
    by (auto simp: world_holds_def segmented_def verify_entries_def split: option.splits)
  then show "server_log.log_inv d genesis (as_writer st)"
    "backend_entries d (wr_store (as_writer st)) = es"
    using start_from [OF assms(1,3) open_backend [OF assms(2)]] by auto
qed

definition all_acked :: "(request \<times> bool \<times> env) list \<Rightarrow> response exec option list \<Rightarrow> receipt list" where
  "all_acked rqs resps = concat (map2 (\<lambda>c resp. acked (fst c) resp) rqs resps)"

lemma serve_step:
  assumes "engine_crates d" and "server_log.log_inv d b (as_writer st)"
    and "polite_request (rq, rm_fails, v)"
    and "room b (backend_entries d (wr_store (as_writer st))) 1"
    and "serve d rq rm_fails v st = (resp, st')"
  shows "server_log.log_inv d b (as_writer st') \<and>
    (\<exists>new. backend_entries d (wr_store (as_writer st')) =
         backend_entries d (wr_store (as_writer st)) @ new \<and> map receipt_of new = acked rq resp)"
proof (cases "route (hr_method rq) (hr_path rq) = Some EAppend")
  case True
  from serve_append [OF this assms(5)] show ?thesis
  proof (elim disjE exE conjE)
    fix q res w'
    assume q: "appended rq = Some q" and w': "st' = st\<lparr>as_writer := w'\<rparr>"
      and acked: "acked rq resp = (case res of Inl _ \<Rightarrow> [] | Inr rc \<Rightarrow> [rc])"
      and p: "process d (backend_ops d) (provider_ops d) (request_record q) v (as_writer st)
        = (res, w')"
    have "record_ok d (request_record q)" "clean_fault (env_fault v)"
      using assms(1,3) q by (simp_all add: polite_request_def record_ok_def)
    note step = server_log.process_step [OF assms(2) this(1) assms(4) this(2) p]
    show ?thesis
      using w' acked step
      by (cases res) (auto intro!: exI [of _ "server_log.step_entry d (request_record q) v (as_writer st)"])
  qed (use assms(2) in auto)
next
  case False
  have cipher: "cipher_ok d k" for k :: provider
    using assms(1) by (simp add: engine_crates_def cipher_ok_def)
  from serve_other [OF False assms(5)] assms(2) acked_other [OF False] cipher show ?thesis
    by (auto simp: set_keyring_def server_log.log_inv_def)
qed

lemma acked_le: "length (acked rq resp) \<le> 1"
  by (auto simp: acked_def split: option.splits endpoint.splits exec.splits)

lemma serve_all_steps:
  assumes "engine_crates d" and "server_log.log_inv d b (as_writer st)"
    and "\<forall>c \<in> set rqs. polite_request c"
    and "room b (backend_entries d (wr_store (as_writer st))) (length rqs)"
    and "serve_all d rqs st = (resps, st')"
  shows "server_log.log_inv d b (as_writer st') \<and> as_read_token st' = as_read_token st \<and>
    (\<exists>new. backend_entries d (wr_store (as_writer st')) =
         backend_entries d (wr_store (as_writer st)) @ new \<and>
       map receipt_of new = all_acked rqs resps)"
  using assms(2-)
proof (induction rqs arbitrary: st resps)
  case Nil
  then show ?case by (auto simp: all_acked_def)
next
  case (Cons c rqs)
  obtain rq rm_fails v where c: "c = (rq, rm_fails, v)" by (cases c)
  obtain r st1 where s: "serve d rq rm_fails v st = (r, st1)" by (cases "serve d rq rm_fails v st")
  obtain rs where rs: "serve_all d rqs st1 = (rs, st')" "resps = r # rs"
    using Cons.prems(4) c s by (auto split: prod.splits)
  have "polite_request (rq, rm_fails, v)" using Cons.prems(2) c by simp
  moreover have "room b (backend_entries d (wr_store (as_writer st))) 1"
    using Cons.prems(3) by (rule server_log.room_mono) simp
  ultimately obtain new where new: "server_log.log_inv d b (as_writer st1)"
      "backend_entries d (wr_store (as_writer st1)) =
         backend_entries d (wr_store (as_writer st)) @ new" "map receipt_of new = acked rq r"
    using serve_step [OF assms(1) Cons.prems(1) _ _ s] by blast
  have "length new \<le> 1" using new(3) acked_le [of rq r] by (metis length_map)
  then have "room b (backend_entries d (wr_store (as_writer st1))) (length rqs)"
    using Cons.prems(3) new(2) by (simp add: room_def)
  with Cons.IH [OF new(1) _ this rs(1)] Cons.prems(2) serve_tokens [OF s] new(2) obtain new1 where
    "server_log.log_inv d b (as_writer st')" "as_read_token st' = as_read_token st"
    "backend_entries d (wr_store (as_writer st')) =
       backend_entries d (wr_store (as_writer st)) @ new @ new1"
    "map receipt_of new1 = all_acked rqs rs"
    by auto
  then show ?case
    using new(3) rs(2) c by (intro conjI exI [of _ "new @ new1"]) (simp_all add: all_acked_def)
qed

text \<open>
  C4. The service over either backend: started on a log that verifies, after any requests of any
  callers whose failures are clean, \<open>/v1/verify\<close> answers 200 with the report of a valid log, which
  holds the entries from before, followed by exactly one entry for each receipt that was answered,
  in the order of the answers.
\<close>

theorem served_log_verifies:
  assumes "engine_crates d" and "world_holds d cf wd es"
    and "server_start d cf wd v0 True = Some st" and "as_read_token st \<noteq> []"
    and "\<forall>c \<in> set rqs. polite_request c"
    and "length es + length rqs < 2 ^ 64"
    and "serve_all d rqs st = (resps, st')"
  shows "\<exists>new.
    verify_handler d (Some (''Bearer '' @ as_read_token st)) st' =
      \<lparr>rs_status = 200, rs_body = report_json (verify_entries d (es @ new))\<rparr> \<and>
    is_valid (verify_entries d (es @ new)) \<and> map receipt_of new = all_acked rqs resps"
proof -
  note start = start_inv [OF assms(1-3)]
  have "room genesis (backend_entries d (wr_store (as_writer st))) (length rqs)"
    using start(2) assms(6) by (simp add: room_def genesis_def)
  from serve_all_steps [OF assms(1) start(1) assms(5) this assms(7)] start(2) obtain new where
    new: "server_log.log_inv d genesis (as_writer st')" "as_read_token st' = as_read_token st"
      "backend_entries d (wr_store (as_writer st')) = es @ new"
      "map receipt_of new = all_acked rqs resps"
    by auto
  have valid: "is_valid (verify_entries d (es @ new))"
    using new(1,3) by (simp add: server_log.log_inv_def del: chain_from_append)
  have "read_log d (app_data st') = Inr (es @ new)"
    using backend_read new(1,3) by (simp add: server_log.log_inv_def)
  moreover have "require (Some (''Bearer '' @ as_read_token st)) (as_read_token st') = Inr ()"
    using assms(4) new(2) require_bearer by simp
  ultimately show ?thesis
    using new(4) valid by (intro exI [of _ new]) (simp add: verify_handler_def)
qed

text \<open>A service in keyring mode over a file that is not there yet, and one append.\<close>

definition sample_config :: config where
  "sample_config =
     \<lparr>cf_key = None, cf_key_file = None, cf_keyring_dir = Some ''keys'', cf_segment_max = None,
      cf_write_token = Some ''w'', cf_read_token = Some ''r'', cf_admin_token = Some ''a'',
      cf_sign_key = None\<rparr>"

definition sample_world :: world where
  "sample_world = \<lparr>wd_key_file = None, wd_keyring = None, wd_file = None, wd_dir = None\<rparr>"

definition sample_append :: request where
  "sample_append =
     \<lparr>hr_method = POST, hr_path = [''v1'', ''records''], hr_auth = Some ''Bearer w'', hr_query = [],
      hr_body = Some (JObj [(''event_type'', JStr ''login''), (''outcome'', JStr ''success''),
        (''actor'', JStr ''bob'')])\<rparr>"

lemma sample_world_holds: "world_holds demo sample_config sample_world []"
  by (simp add: world_holds_def segment_max_def sample_config_def sample_world_def stored_nil)

lemma sample_start:
  "server_start demo sample_config sample_world calm True =
     Some (sample_app (FileBackend \<lparr>fs_file = [], fs_tail = None\<rparr>))"
  by (simp add: server_start_def sample_config_def sample_world_def segment_max_def file_open_def
      read_tail_def log_build_def builder_store_def builder_key_provider_def builder_new_def
      file_ops_def sample_app_def unwrap_or_default_def keyring_open_at_def)

lemma sample_appended:
  "appended sample_append = Some \<lparr>rq_event_type = ''login'', rq_outcome = Success,
     rq_actor = ''bob'', rq_instruction_id = None, rq_data = JNull, rq_pii = None,
     rq_key_id = ''master''\<rparr>"
  by (simp add: sample_append_def route_def record_request_of_json_def struct_fields_def field_def
      opt_of_json_def default_key_id_def)

theorem served_log_verifies_witness:
  "\<exists>new. map receipt_of new = all_acked [(sample_append, False, calm)]
       (fst (serve_all demo [(sample_append, False, calm)]
         (sample_app (FileBackend \<lparr>fs_file = [], fs_tail = None\<rparr>)))) \<and>
     is_valid (verify_entries demo new)"
proof -
  let ?st = "sample_app (FileBackend \<lparr>fs_file = [], fs_tail = None\<rparr>)"
  let ?rqs = "[(sample_append, False, calm)]"
  obtain resps st' where run: "serve_all demo ?rqs ?st = (resps, st')"
    by (cases "serve_all demo ?rqs ?st")
  note sample_world_holds
  moreover have "polite_request (sample_append, False, calm)"
    by (simp add: polite_request_def sample_appended request_record_def plain_record_def
        record_key_id_def record_data_def record_new_def plain_data_def is_value_def
        plain_opt_def utf8_ascii_string del: appended.simps)
  moreover have "as_read_token ?st \<noteq> []" by (simp add: sample_app_def)
  ultimately have "\<exists>new.
      verify_handler demo (Some (''Bearer '' @ as_read_token ?st)) st' =
        \<lparr>rs_status = 200, rs_body = report_json (verify_entries demo ([] @ new))\<rparr> \<and>
      is_valid (verify_entries demo ([] @ new)) \<and> map receipt_of new = all_acked ?rqs resps"
    by (intro served_log_verifies [OF engine_demo _ sample_start _ _ _ run]) simp_all
  then show ?thesis by (elim exE conjE) (rule exI, simp only: run fst_conv append_Nil simp_thms)
qed

section \<open>A pruned log\<close>

text \<open>What the data path holds after pruning: segments that verify from the anchor.\<close>

definition pruned_world :: "crates \<Rightarrow> config \<Rightarrow> world \<Rightarrow> anchor \<Rightarrow> audit_entry list \<Rightarrow> bool" where
  "pruned_world d cf wd a es \<longleftrightarrow>
     segment_max cf \<noteq> None \<and>
     (\<exists>files ps. wd_dir wd = Some files \<and> segmented d (Some a) ps files \<and> es = all_entries ps)"

lemma pruned_start:
  assumes "engine_crates d" and "pruned_world d cf wd a es"
    and "server_start d cf wd v True = Some st"
  shows "server_log.log_inv d (base_of (Some a)) (as_writer st) \<and>
    backend_entries d (wr_store (as_writer st)) = es"
proof (rule start_from [OF assms(1,3)])
  obtain m files ps where world: "segment_max cf = Some m" "wd_dir wd = Some files"
      "segmented d (Some a) ps files" "es = all_entries ps"
    using assms(2) by (auto simp: pruned_world_def)
  then show "chain_from d (base_of (Some a)) es" "es = [] \<Longrightarrow> base_of (Some a) = genesis"
    by (simp_all add: segmented_def)
  fix store
  assume "case segment_max cf of
       Some m \<Rightarrow> \<exists>s. seg_open d (wd_dir wd) m v = Inr s \<and> store = SegBackend s
     | None \<Rightarrow> \<exists>s. file_open d (wd_file wd) v = Inr s \<and> store = FileBackend s"
  then obtain s where s: "seg_open d (Some files) m v = Inr s" "store = SegBackend s"
    using world(1,2) by auto
  then obtain s' where "seg_open d (Some files) m v = Inr s'" "seg_rep d s' ps"
    using seg_open_pieces [of d files ps m v] seg_open_Inr [OF s(1)] world(3)
    by (auto simp: segmented_def)
  with s world(4) seg_rep_inv show "backend_inv d store \<and> backend_entries d store = es" by fastforce
qed

text \<open>
  C38. The service cannot tell a pruned log from a damaged one: started on segments of which the
  leading ones have been pruned, it appends as before, and the log still verifies from the anchor
  that pruning returned; but \<open>/v1/verify\<close>, which has no way to name an anchor, answers 409 after
  every further run, however many entries are added.
\<close>

theorem pruned_log_stays_invalid:
  assumes "engine_crates d" and "pruned_world d cf wd a es" and "a_seq a \<noteq> 0"
    and "server_start d cf wd v0 True = Some st" and "as_read_token st \<noteq> []"
    and "\<forall>c \<in> set rqs. polite_request c"
    and "unat (a_seq a) + length es + length rqs < 2 ^ 64"
    and "serve_all d rqs st = (resps, st')"
  shows "\<exists>new. is_valid (verify_entries_from d (Some a) (es @ new)) \<and>
    map receipt_of new = all_acked rqs resps \<and>
    verify_handler d (Some (''Bearer '' @ as_read_token st)) st' =
      \<lparr>rs_status = 409, rs_body = report_json (verify_entries d (es @ new))\<rparr>"
proof -
  have start: "server_log.log_inv d (base_of (Some a)) (as_writer st)"
      "backend_entries d (wr_store (as_writer st)) = es"
    using pruned_start [OF assms(1,2,4)] by simp_all
  have "room (base_of (Some a)) (backend_entries d (wr_store (as_writer st))) (length rqs)"
    using start(2) assms(7) by (simp add: room_def base_of_def)
  from serve_all_steps [OF assms(1) start(1) assms(6) this assms(8)] start(2) obtain new where
    new: "server_log.log_inv d (base_of (Some a)) (as_writer st')"
      "as_read_token st' = as_read_token st"
      "backend_entries d (wr_store (as_writer st')) = es @ new"
      "map receipt_of new = all_acked rqs resps"
    by auto
  have chain: "chain_from d (base_of (Some a)) (es @ new)"
    using new(1,3) by (simp add: server_log.log_inv_def del: chain_from_append)
  obtain e es' where es: "es = e # es'"
    using assms(2) by (cases es) (auto simp: pruned_world_def segmented_def)
  have "e_seq e = a_seq a + 1" using chain es by (simp add: base_of_def)
  then have "\<not> is_valid (verify_entries d (es @ new))"
    using assms(3) es by (simp add: genesis_def)
  moreover have "read_log d (app_data st') = Inr (es @ new)"
    using backend_read new(1,3) by (simp add: server_log.log_inv_def)
  moreover have "require (Some (''Bearer '' @ as_read_token st)) (as_read_token st') = Inr ()"
    using assms(5) new(2) require_bearer by simp
  moreover have "is_valid (verify_entries_from d (Some a) (es @ new))"
    using chain by (simp del: chain_from_append)
  ultimately show ?thesis
    using new(4) by (intro exI [of _ new])
      (simp add: verify_handler_def del: verify_valid_iff verify_entries_valid_iff)
qed

text \<open>The sample log of three entries, of which the first two have been pruned.\<close>

lemma sample_pruned:
  obtains a wd es st where
    "pruned_world demo (sample_config\<lparr>cf_segment_max := Some (show_u64 2)\<rparr>) wd a es"
    and "a_seq a = 2" and "length es = 1" and "as_read_token st = ''r''"
    and "server_start demo (sample_config\<lparr>cf_segment_max := Some (show_u64 2)\<rparr>) wd calm True = Some st"
proof -
  let ?cf = "sample_config\<lparr>cf_segment_max := Some (show_u64 2)\<rparr>"
  obtain x y z where es: "chain_of 3 = [x, y, z]" "e_seq x = 1" "e_seq y = 2" "e_seq z = 3"
    by (rule chain_of_3)
  let ?ps = "[(3, [z])] :: pieces" and ?files = "[(segment_name 3, file_of demo [z])]"
  let ?a = "\<lparr>a_seq = 2, a_hash = e_entry_hash y\<rparr>" and ?wd = "sample_world\<lparr>wd_dir := Some ?files\<rparr>"
  have z: "list_all (entry_ok demo) [z]" using chain_of_ok [of 3] es(1) by simp
  have chain: "chain_from demo (base_of (Some ?a)) [z]"
    using chain_of_chain [of 3] unfolding es(1) by (simp add: base_of_def es(3))
  have holds: "holds demo ?files ?ps"
    using z by (simp add: holds_def names_segments_def)
  have parts: "pieces_ok ?ps" "last_ok ?ps" "fits (snd (last ?ps))"
    using es(4) by (simp_all add: last_ok_def fits_def)
  have max: "segment_max ?cf = Some 2"
    by (simp add: segment_max_def)
  have "segmented demo (Some ?a) ?ps ?files"
    using holds parts chain by (simp add: segmented_def del: chain_from.simps)
  then have world: "pruned_world demo ?cf ?wd ?a [z]"
    using max by (auto simp: pruned_world_def sample_world_def intro!: exI [of _ ?ps])
  obtain s where s: "seg_open demo (Some ?files) 2 calm = Inr s" "seg_inv demo s"
    using seg_open_pieces [OF holds parts(1,2) _ parts(3), of 2 calm] seg_rep_inv by auto
  then have inv: "backend_inv demo (SegBackend s)" by (simp add: backend_inv_def)
  let ?k = "Ring (keyring_open demo None True)"
  from server_log.build_succeeds [OF inv, of ?k] obtain l where l:
    "log_build (backend_ops demo) (builder_key_provider ?k (builder_store (SegBackend s) builder_new))
      True = Inr l" ..
  then obtain w where "lh_writer l = Some w"
    by (auto simp: log_build_def builder_key_provider_def builder_store_def builder_new_def Let_def
        split: sum.splits option.splits)
  then have "\<exists>st. server_start demo ?cf ?wd calm True = Some st \<and> as_read_token st = ''r''"
    using l s(1) max
    by (simp add: server_start_def sample_config_def sample_world_def keyring_open_at_def
        unwrap_or_default_def builder_order)
  with world that [of ?wd ?a "[z]"] show thesis by auto
qed

theorem pruned_log_stays_invalid_witness:
  "\<exists>st es. verify_handler demo (Some ''Bearer r'') st =
     \<lparr>rs_status = 409, rs_body = report_json (verify_entries demo es)\<rparr>"
proof -
  obtain a wd es st where start: "pruned_world demo (sample_config\<lparr>cf_segment_max := Some (show_u64 2)\<rparr>) wd a es"
      "a_seq a = 2" "length es = 1" "as_read_token st = ''r''"
      "server_start demo (sample_config\<lparr>cf_segment_max := Some (show_u64 2)\<rparr>) wd calm True = Some st"
    by (rule sample_pruned)
  then have "\<exists>new. is_valid (verify_entries_from demo (Some a) (es @ new)) \<and>
      map receipt_of new = all_acked [] [] \<and>
      verify_handler demo (Some (''Bearer '' @ as_read_token st)) st =
        \<lparr>rs_status = 409, rs_body = report_json (verify_entries demo (es @ new))\<rparr>"
    by (intro pruned_log_stays_invalid [OF engine_demo start(1) _ start(5)]) simp_all
  with start(4) show ?thesis by auto
qed

lemma value_of_step [simp]: "value_of (step_json s) = step_json s"
  by (simp add: step_json_def to_map_def list_less_def)

lemma proof_value_roundtrip:
  assumes "leaf_index p < 2 ^ 64" and "leaf_count p < 2 ^ 64"
  shows "proof_of_json (value_of (proof_json p)) = Some p"
proof -
  have v: "value_of (proof_json p) = JObj [(''leaf_count'', json_usize (leaf_count p)),
      (''leaf_index'', json_usize (leaf_index p)), (''path'', JArr (map step_json (mp_path p)))]"
    by (simp add: proof_json_def json_usize_def json_u64_def to_map_def comp_def)
  have "vec_of_json step_of_json (JArr (map step_json ss)) = Some ss" for ss
    by (rule step_wire.decode_vec) (simp add: list_all_iff)
  then show ?thesis
    using usize_roundtrip [OF assms(1)] usize_roundtrip [OF assms(2)]
    by (simp add: proof_of_json_def v struct_fields_def field_def)
qed

text \<open>
  C28. \<open>/v1/merkle-proof\<close> answers, for every stored sequence number, with a leaf, a root and a proof
  that a client can decode and verify offline; the root is the one that \<open>/v1/merkle-anchor\<close> signs
  for the same entries. Any other sequence number is answered 404.
\<close>

theorem served_proof_verifies:
  assumes "blake3_ok d" and "hex_ok d" and "backend_inv d (wr_store (as_writer st))"
    and "as_read_token st \<noteq> []"
    and "es = backend_entries d (wr_store (as_writer st))" and "length es < 2 ^ 64"
    and "resp = merkle_proof_handler d (Some (''Bearer '' @ as_read_token st)) s st"
  shows "if s \<in> e_seq ` set es then
      \<exists>e \<in> set es. \<exists>p root. e_seq e = s \<and>
        resp = ok_json (json_obj [(''seq'', json_u64 s), (''leaf'', JStr (e_entry_hash e)),
          (''root'', JStr root), (''proof'', value_of (proof_json p))]) \<and>
        proof_of_json (value_of (proof_json p)) = Some p \<and>
        verify_merkle_proof d (as_bytes (e_entry_hash e)) p root = Inr True \<and>
        (\<forall>signer t. ma_root (build_merkle_anchor d signer es t) = root)
    else rs_status resp = 404"
proof -
  have read: "read_log d (app_data st) = Inr es" using backend_read assms(3,5) by simp
  have auth: "require (Some (''Bearer '' @ as_read_token st)) (as_read_token st) = Inr ()"
    using assms(4) by (rule require_bearer)
  show ?thesis
  proof (cases "s \<in> e_seq ` set es")
    case False
    then have "position (\<lambda>e. e_seq e = s) es = None" by (auto simp: position_None)
    then have "merkle_proof_for_seq d es s = None" by (simp add: merkle_proof_for_seq_def)
    with False read auth assms(7) show ?thesis
      by (simp add: merkle_proof_handler_def api_error_def del: append.simps)
  next
    case True
    from position_find [of es "\<lambda>e. e_seq e = s"] True obtain i where
      i: "position (\<lambda>e. e_seq e = s) es = Some i" "find (\<lambda>e. e_seq e = s) es = Some (es ! i)"
      by (cases "position (\<lambda>e. e_seq e = s) es") (auto simp: position_None)
    note at = position_Some [OF i(1)]
    then obtain p where p: "build_merkle_proof d (entry_leaves es) i = Some p"
      by (simp add: build_merkle_proof_def entry_leaves_def Let_def)
    let ?root = "merkle_root d (entry_leaves es)"
    have small: "leaf_index p < 2 ^ 64" "leaf_count p < 2 ^ 64"
      using p at assms(6) by (auto simp: build_merkle_proof_Some entry_leaves_def)
    have "verify_merkle_proof d (entry_leaves es ! i) p ?root = Inr True"
      using verify_build_merkle_proof [OF assms(1,2) p] .
    then have "verify_merkle_proof d (as_bytes (e_entry_hash (es ! i))) p ?root = Inr True"
      using at by (simp add: entry_leaves_def)
    moreover have "resp = ok_json (json_obj [(''seq'', json_u64 s),
        (''leaf'', JStr (e_entry_hash (es ! i))), (''root'', JStr ?root),
        (''proof'', value_of (proof_json p))])"
      using read auth assms(7) i p
      by (simp add: merkle_proof_handler_def merkle_proof_for_seq_def del: append.simps)
    ultimately show ?thesis
      using True at proof_value_roundtrip [OF small] ma_root_build
      by (simp add: bexI [of _ "es ! i"] exI [of _ p])
  qed
qed

theorem served_proof_verifies_witness:
  "rs_status (merkle_proof_handler demo (Some ''Bearer r'') 2 (sample_app (FileBackend
     \<lparr>fs_file = file_of demo (chain_of 3), fs_tail = tail_of (chain_of 3)\<rparr>))) = 200"
proof -
  let ?s = "\<lparr>fs_file = file_of demo (chain_of 3), fs_tail = tail_of (chain_of 3)\<rparr>"
  let ?st = "sample_app (FileBackend ?s)"
  have s: "file_inv demo ?s" "file_entries demo ?s = chain_of 3"
    using file_invI [of demo "chain_of 3" ?s] by simp_all
  have "e_seq (chain_of 3 ! 1) = 2" using chain_of_seq [of 1 3] by simp
  then have "2 \<in> e_seq ` set (chain_of 3)"
    by (metis image_eqI length_chain_of nth_mem one_less_numeral_iff semiring_norm(77))
  moreover have st: "as_read_token ?st = ''r''" "wr_store (as_writer ?st) = FileBackend ?s"
    by (simp_all add: sample_app_def)
  ultimately show ?thesis
    using served_proof_verifies [OF demo_blake3 demo_hex, of ?st "chain_of 3" _ 2] s
    by (auto simp: ok_json_def)
qed

lemma read_content_torn:
  assumes "list_all (entry_ok d) es" and "10 \<notin> set l" and "\<not> utf8_valid (l @ [10])"
  shows "read_content d (file_of d es @ l @ 10 # rest) = Inl (Io InvalidUtf8)"
  using assms(1)
proof (induction es)
  case Nil
  then show ?case using assms(2,3) by (simp add: read_content_def raw_lines_line)
qed (simp add: read_content_def read_lines_entry)

text \<open>
  C36. \<open>read_log\<close> takes every I/O error for a log that is not there yet, also the one for a line that
  is not UTF-8. So one torn character hides the whole log: \<open>/v1/verify\<close> answers 200 with the report
  of a valid, empty log, although all the entries before the damage are intact.
\<close>

theorem torn_line_hides_log:
  assumes "list_all (entry_ok d) es" and "10 \<notin> set l" and "\<not> utf8_valid (l @ [10])"
    and "wr_store (as_writer st) = FileBackend s"
    and "fs_file s = file_of d es @ l @ 10 # rest"
    and "as_read_token st \<noteq> []"
  shows "verify_handler d (Some (''Bearer '' @ as_read_token st)) st =
      \<lparr>rs_status = 200, rs_body = report_json (verify_entries d [])\<rparr>"
proof -
  have "read_log d (app_data st) = Inr []"
    using read_content_torn [OF assms(1-3)] assms(4,5)
    by (simp add: read_log_def app_data_def read_all_def)
  moreover have "is_valid (verify_entries d [])" by simp
  ultimately show ?thesis
    using require_bearer [OF assms(6)] by (simp add: verify_handler_def del: append.simps)
qed

theorem torn_line_hides_log_witness:
  "verify_handler demo (Some ''Bearer r'') (sample_app (FileBackend
       \<lparr>fs_file = file_of demo (chain_of 3) @ [0xC3, 10], fs_tail = tail_of (chain_of 3)\<rparr>)) =
     \<lparr>rs_status = 200, rs_body = report_json (verify_entries demo [])\<rparr>"
proof -
  have "\<not> utf8_valid ([0xC3] @ [10])" by (simp add: utf8_valid_def cont_def)
  from torn_line_hides_log [OF chain_of_ok [of 3] _ this, of "sample_app (FileBackend
       \<lparr>fs_file = file_of demo (chain_of 3) @ [0xC3, 10], fs_tail = tail_of (chain_of 3)\<rparr>)" _ "[]"]
  show ?thesis by (simp add: sample_app_def)
qed

section \<open>One request too deep\<close>

lemma process_file_backend:
  assumes "wr_store w = FileBackend s"
    and "process d (file_ops d) kops r v
      \<lparr>wr_store = s, wr_provider = wr_provider w, wr_seq = wr_seq w, wr_prev_hash = wr_prev_hash w\<rparr>
      = (res, w')"
  shows "process d (backend_ops d) kops r v w =
    (res, \<lparr>wr_store = FileBackend (wr_store w'), wr_provider = wr_provider w', wr_seq = wr_seq w',
           wr_prev_hash = wr_prev_hash w'\<rparr>)"
  using assms
  by (auto simp: process_def Let_def map_prod_def split: prod.splits sum.splits)

lemma start_fails:
  assumes "segment_max cf = None" and "wd_file wd = Some bs" and "read_all d (Some bs) = Inl e"
  shows "server_start d cf wd v spawn_ok = None"
  using assms
  by (auto simp: server_start_def file_open_def read_tail_def split: option.splits sum.splits)

text \<open>
  C37. One append can put a service over a file out of action for good: a request whose data is
  nested more than 125 deep (a body nested up to 127 deep passes \<open>serde_json\<close> on the way in) is
  answered 201 with a receipt; from then on reading the log fails, so that \<open>/v1/verify\<close> answers
  500, and the service does not start again on that file.
\<close>

theorem deep_request_stops_service:
  assumes "engine_crates d" and "serde_limit d" and "server_log.log_inv d genesis (as_writer st)"
    and "wr_store (as_writer st) = FileBackend s"
    and "appended rq = Some q" and "carries rq (as_write_token st)" and "as_read_token st \<noteq> []"
    and "rq_pii q = None" and "plain_json (rq_data q)" and "125 < json_depth (rq_data q)"
    and "utf8_string (rq_event_type q)" and "utf8_string (rq_actor q)"
    and "plain_opt (rq_instruction_id q)" and "env_fault v = NoFault"
    and "serve d rq rm_fails v st = (resp, st')"
  shows "(\<exists>rc. resp = Some (Ret \<lparr>rs_status = 201, rs_body = receipt_json rc\<rparr>)) \<and>
    rs_status (verify_handler d (Some (''Bearer '' @ as_read_token st)) st') = 500 \<and>
    (\<exists>s'. wr_store (as_writer st') = FileBackend s' \<and>
      (\<forall>cf wd v'. segment_max cf = None \<longrightarrow> wd_file wd = Some (fs_file s') \<longrightarrow>
         server_start d cf wd v' True = None))"
proof -
  let ?r = "request_record q"
  let ?w = "\<lparr>wr_store = s, wr_provider = wr_provider (as_writer st), wr_seq = wr_seq (as_writer st),
    wr_prev_hash = wr_prev_hash (as_writer st)\<rparr>"
  obtain res w' where p: "process d (file_ops d) (provider_ops d) ?r v ?w = (res, w')"
    by (cases "process d (file_ops d) (provider_ops d) ?r v ?w")
  have fields: "r_pii ?r = rq_pii q" "r_data ?r = rq_data q" "r_event_type ?r = rq_event_type q"
    "r_actor ?r = rq_actor q" "r_instruction_id ?r = rq_instruction_id q"
    by (simp_all add: request_record_fields)
  have "file_inv d (wr_store ?w)" "utf8_string (wr_prev_hash ?w)"
    using assms(3,4) by (simp_all add: server_log.log_inv_def)
  then obtain rc where rc: "res = Inr rc" "read_all d (Some (fs_file (wr_store w'))) = Inl Serde"
    using deep_record_blocks_reader [OF assms(1,2) _ _ _ _ _ _ _ _ assms(14) p] assms(8-13) fields
    by auto
  note b = process_file_backend [OF assms(4) p]
  have route: "route (hr_method rq) (hr_path rq) = Some EAppend"
    and body: "Option.bind (hr_body rq) record_request_of_json = Some q"
    using assms(5) by (auto split: if_splits)
  have resp: "resp = Some (Ret \<lparr>rs_status = 201, rs_body = receipt_json rc\<rparr>)"
    and st': "wr_store (as_writer st') = FileBackend (wr_store w')" "as_read_token st' = as_read_token st"
    using assms(6,15) b rc(1) route body
    by (auto simp: serve_def dispatch_def append_handler_def require_carries audit_record_def
        app_log_def with_log_def Let_def)
  have "read_log d (app_data st') = Inl (from_error Serde)"
    using st'(1) rc(2) by (simp add: read_log_def app_data_def)
  then have "rs_status (verify_handler d (Some (''Bearer '' @ as_read_token st)) st') = 500"
    using require_bearer [OF assms(7)] st'(2)
    by (simp add: verify_handler_def from_error_def api_error_def del: append.simps)
  with resp st'(1) start_fails [OF _ _ rc(2)] show ?thesis by blast
qed

lemma nested_value: "value_of (nested n) = nested n"
  by (induction n) simp_all

definition deep_append :: request where
  "deep_append =
     \<lparr>hr_method = POST, hr_path = [''v1'', ''records''], hr_auth = Some ''Bearer w'', hr_query = [],
      hr_body = Some (JObj [(''event_type'', JStr ''login''), (''outcome'', JStr ''success''),
        (''actor'', JStr ''bob''), (''data'', nested 126)])\<rparr>"

text \<open>The body is within the limit of the parser, which reads up to 127 levels.\<close>

lemma deep_append_depth: "map_option json_depth (hr_body deep_append) = Some 127"
  using nested_plain [of 126] by (simp add: deep_append_def)

lemma deep_appended:
  "appended deep_append = Some \<lparr>rq_event_type = ''login'', rq_outcome = Success,
     rq_actor = ''bob'', rq_instruction_id = None, rq_data = nested 126, rq_pii = None,
     rq_key_id = ''master''\<rparr>"
  by (simp add: deep_append_def route_def record_request_of_json_def struct_fields_def field_def
      opt_of_json_def default_key_id_def nested_value)

theorem deep_request_stops_service_witness:
  "rs_status (verify_handler demo (Some ''Bearer r'') (snd (serve demo deep_append False calm
     (sample_app (FileBackend \<lparr>fs_file = [], fs_tail = None\<rparr>))))) = 500"
proof -
  let ?st = "sample_app (FileBackend \<lparr>fs_file = [], fs_tail = None\<rparr>)"
  obtain resp st' where run: "serve demo deep_append False calm ?st = (resp, st')"
    by (cases "serve demo deep_append False calm ?st")
  note inv = start_inv(1) [OF engine_demo sample_world_holds sample_start]
  have st: "wr_store (as_writer ?st) = FileBackend \<lparr>fs_file = [], fs_tail = None\<rparr>"
    "as_read_token ?st = ''r''" "as_write_token ?st = ''w''"
    by (simp_all add: sample_app_def)
  have "carries deep_append (as_write_token ?st)" by (simp add: st carries_def deep_append_def)
  moreover have "utf8_string ''login''" "utf8_string ''bob''"
    by (simp_all add: utf8_ascii_string)
  moreover have "plain_json (nested 126)" "125 < json_depth (nested 126)"
    using nested_plain [of 126] by simp_all
  ultimately show ?thesis
    using deep_request_stops_service [OF engine_demo demo_serde_limit inv st(1) deep_appended _ _ _
        _ _ _ _ _ calm_faults(1) run] st(2) run
    by (simp add: plain_opt_def)
qed

end
