(* ===== verification/Reading.thy ===== *)
theory Reading
  imports Service Confidentiality
begin

text \<open>
  Reading PII back through the service: what an append has sealed, a decrypting read shows, after
  any further requests that do not shred its key.
\<close>

section \<open>Helper lemmas\<close>

text \<open>The member of a JSON object at a path of names.\<close>

fun json_at :: "string list \<Rightarrow> json \<Rightarrow> json option" where
  "json_at [] j = Some j"
| "json_at (k # ks) (JObj kvs) = Option.bind (map_of kvs k) (json_at ks)"
| "json_at (k # ks) _ = None"

lemma entry_payload_value:
  "\<exists>kvs. value_of (entry_json e) = JObj kvs \<and>
     map_of kvs ''payload'' = Some (value_of (payload_json (e_payload e)))"
  by (cases "e_instruction_id e") (simp_all add: entry_json_def)

lemma payload_value: "\<exists>kvs. value_of (payload_json p) = JObj kvs"
  by (simp add: payload_json_def)

lemma read_entry_opened:
  assumes "p_pii (e_payload e) = Some s"
    and "open_pii d (provider_ops d) key s = Ret (Inr x)"
  shows "\<exists>v. read_entry d key True e = Ret v \<and> json_at [''payload'', ''pii_plaintext''] v = Some x"
proof -
  obtain kvs where kvs: "value_of (entry_json e) = JObj kvs"
      "map_of kvs ''payload'' = Some (value_of (payload_json (e_payload e)))"
    using entry_payload_value by blast
  obtain pvs where "value_of (payload_json (e_payload e)) = JObj pvs"
    using payload_value by blast
  with kvs assms show ?thesis by (simp add: read_entry_def)
qed

lemma open_mono:
  assumes "open_pii d ops k s = Ret (Inr x)"
    and "\<And>w dek. unwrap_dek ops k (key_id s) w = Inr dek \<Longrightarrow> unwrap_dek ops k' (key_id s) w = Inr dek"
  shows "open_pii d ops k' s = Ret (Inr x)"
  using assms unfolding open_pii_Inr by blast

lemma ring_mono:
  assumes "open_pii d (provider_ops d) (Ring k) s = Ret (Inr x)"
    and "\<And>key. keyring_get k (key_id s) = Inr key \<Longrightarrow> keyring_get k' (key_id s) = Inr key"
  shows "open_pii d (provider_ops d) (Ring k') s = Ret (Inr x)"
  using assms
  by (auto simp: keyring_ops_def keyring_unwrap_def elim!: open_mono split: sum.splits)

lemma shred_other: "keyring_shred k i rm = (r, k') \<Longrightarrow> j \<noteq> i \<Longrightarrow> keyring_get k' j = keyring_get k j"
  by (auto simp: keyring_shred_def Let_def keyring_get_def delete_conv' split: if_splits)

section \<open>What requests do to the provider\<close>

lemma serve_keys:
  assumes "route (hr_method rq) (hr_path rq) \<noteq> Some EAppend"
    and "serve d rq rm_fails v st = (resp, st')"
  shows "st' = st \<or> (\<exists>k k' i r u. wr_provider (as_writer st) = Ring k \<and> st' = set_keyring k' st \<and>
    (keyring_ensure d k i v = (r, k', u) \<or>
     route (hr_method rq) (hr_path rq) = Some (EShredKey i) \<and> keyring_shred k i rm_fails = (r, k')))"
proof (cases "route (hr_method rq) (hr_path rq)")
  case (Some ep)
  show ?thesis
  proof (cases "\<exists>i. ep = ECreateKey i \<or> ep = EShredKey i")
    case True
    then show ?thesis
      using assms(2) Some
      by (auto simp: serve_def dispatch_def Let_def create_key_def shred_key_def
          require_keyring_def app_keyring_def
          split: option.splits sum.splits prod.splits provider.splits)
  next
    case False
    with assms Some show ?thesis
      by (cases ep) (auto simp: serve_def dispatch_def Let_def split: option.splits)
  qed
qed (use assms(2) in \<open>simp add: serve_def\<close>)

lemma process_provider:
  "process d sops kops r v w = (res, w') \<Longrightarrow>
   \<exists>x. seal_record d kops (wr_provider w) r v = (x, wr_provider w')"
  by (auto simp: process_def Let_def split: prod.splits sum.splits)

lemma serve_keeps_open:
  assumes "aead_ok d" and "serve d rq rm_fails v st = (resp, st')"
    and "open_pii d (provider_ops d) (wr_provider (as_writer st)) s = Ret (Inr x)"
    and "route (hr_method rq) (hr_path rq) \<noteq> Some (EShredKey (key_id s))"
  shows "open_pii d (provider_ops d) (wr_provider (as_writer st')) s = Ret (Inr x)"
proof (cases "route (hr_method rq) (hr_path rq) = Some EAppend")
  case True
  from serve_append [OF this assms(2)] show ?thesis
  proof (elim disjE exE conjE)
    fix q res w'
    assume w': "st' = st\<lparr>as_writer := w'\<rparr>"
      and p: "process d (backend_ops d) (provider_ops d) (request_record q) v (as_writer st)
        = (res, w')"
    from process_provider [OF p] obtain y where
      "seal_record d (provider_ops d) (wr_provider (as_writer st)) (request_record q) v
        = (y, wr_provider w')" ..
    then show ?thesis
      using assms(1,3) w'
      by (auto simp: seal_record_def cipher_ok_def split: option.splits prod.splits sum.splits
          dest: server_keys.seal_keeps_open [rotated])
  qed (use assms(3) in simp)
next
  case False
  from serve_keys [OF this assms(2)] show ?thesis
  proof (elim disjE exE conjE)
    fix k k' i r u
    assume k: "wr_provider (as_writer st) = Ring k" "st' = set_keyring k' st"
      "keyring_ensure d k i v = (r, k', u)"
    with assms(3) ring_mono [of d k s x k'] keyring_ensure_get [OF k(3)] show ?thesis
      by (simp add: set_keyring_def)
  next
    fix k k' i r
    assume k: "wr_provider (as_writer st) = Ring k" "st' = set_keyring k' st"
      "route (hr_method rq) (hr_path rq) = Some (EShredKey i)" "keyring_shred k i rm_fails = (r, k')"
    then have "key_id s \<noteq> i" using assms(4) by auto
    with k assms(3) ring_mono [of d k s x k'] shred_other [OF k(4)] show ?thesis
      by (simp add: set_keyring_def)
  qed (use assms(3) in simp)
qed

lemma serve_all_keeps_open:
  assumes "aead_ok d" and "serve_all d rqs st = (resps, st')"
    and "open_pii d (provider_ops d) (wr_provider (as_writer st)) s = Ret (Inr x)"
    and "\<forall>c \<in> set rqs. route (hr_method (fst c)) (hr_path (fst c)) \<noteq> Some (EShredKey (key_id s))"
  shows "open_pii d (provider_ops d) (wr_provider (as_writer st')) s = Ret (Inr x)"
  using assms(2-)
proof (induction rqs arbitrary: st resps)
  case (Cons c rqs)
  obtain rq rm_fails v where c: "c = (rq, rm_fails, v)" by (cases c)
  obtain r st1 where s: "serve d rq rm_fails v st = (r, st1)" by (cases "serve d rq rm_fails v st")
  obtain rs where "serve_all d rqs st1 = (rs, st')"
    using Cons.prems(1) c s by (auto split: prod.splits)
  moreover have "open_pii d (provider_ops d) (wr_provider (as_writer st1)) s = Ret (Inr x)"
    using serve_keeps_open [OF assms(1) s Cons.prems(2)] Cons.prems(3) c by simp
  ultimately show ?case using Cons.IH Cons.prems(3) by simp
qed simp

text \<open>What a successful step has sealed can be opened with the provider that it leaves.\<close>

lemma step_seals:
  assumes "engine_crates d" and "process d (backend_ops d) (provider_ops d) r v w = (Inr rc, w')"
    and "r_pii r = Some p" and "plain_json p" and "is_value p" and "json_depth p \<le> 127"
    and "e \<in> set (server_log.step_entry d r v w)"
  shows "\<exists>s. p_pii (e_payload e) = Some s \<and> key_id s = r_key_id r \<and>
    open_pii d (provider_ops d) (wr_provider w') s = Ret (Inr p)"
proof -
  obtain x where x: "seal_record d (provider_ops d) (wr_provider w) r v = (x, wr_provider w')"
    using process_provider [OF assms(2)] by blast
  with assms(2,3,7) obtain s u where s: "p_pii (e_payload e) = Some s"
      "seal d (provider_ops d) (wr_provider w) (r_key_id r) p v = (Inr s, wr_provider w', u)"
    by (auto simp: server_log.step_entry_def seal_record_def split: prod.splits sum.splits)
  have "cipher_ok d (wr_provider w)" "aead_ok d" "base64_ok d" "json_ok d p"
    using assms(1,4,6) by (simp_all add: engine_crates_def cipher_ok_def serde_ok_def)
  from server_keys.seal_open [OF this assms(5) s(2)] server_keys.seal_key_id [OF s(2)] s(1)
  show ?thesis by blast
qed

section \<open>Decrypting reads\<close>


text \<open>An append is acknowledged when its PII can be sealed and its line written.\<close>

lemma serve_created:
  assumes "appended rq = Some q" and "carries rq (as_write_token st)"
    and "backend_inv d (wr_store (as_writer st))" and "env_fault v = NoFault"
    and "seal_record d (provider_ops d) (wr_provider (as_writer st)) (request_record q) v = (Inr x, k')"
  shows "\<exists>rc st'. serve d rq rm_fails v st =
    (Some (Ret \<lparr>rs_status = 201, rs_body = receipt_json rc\<rparr>), st')"
proof -
  define e where "e = made_entry d (request_record q) x (now_ms (env_clock v))
    (wr_seq (as_writer st) + 1) (wr_prev_hash (as_writer st))"
  obtain b' where "st_append (backend_ops d) e v (wr_store (as_writer st)) = (Inr (), b')"
    using server_store.append_succeeds [OF assms(3,4), of e] by (metis prod.collapse)
  then have "\<exists>rc w'. process d (backend_ops d) (provider_ops d) (request_record q) v (as_writer st) =
      (Inr rc, w')"
    using assms(5) by (simp add: process_def Let_def e_def)
  then show ?thesis
    using assms(1,2)
    by (auto simp: serve_def dispatch_def append_handler_def require_carries audit_record_def
        app_log_def Let_def split: if_splits)
qed

definition pii_append :: request where
  "pii_append =
     \<lparr>hr_method = POST, hr_path = [''v1'', ''records''], hr_auth = Some ''Bearer w'', hr_query = [],
      hr_body = Some (JObj [(''event_type'', JStr ''login''), (''outcome'', JStr ''success''),
        (''actor'', JStr ''bob''), (''pii'', sample_pii), (''key_id'', JStr ''alice'')])\<rparr>"

lemma pii_appended:
  "appended pii_append = Some \<lparr>rq_event_type = ''login'', rq_outcome = Success,
     rq_actor = ''bob'', rq_instruction_id = None, rq_data = JNull, rq_pii = Some sample_pii,
     rq_key_id = ''alice''\<rparr>"
  by (simp add: pii_append_def route_def record_request_of_json_def struct_fields_def field_def
      opt_of_json_def default_key_id_def sample_pii_def)

lemma pii_sealed:
  "\<exists>s k'. seal demo (provider_ops demo) (Ring (keyring_open demo None True)) ''alice'' sample_pii calm =
     (Inr s, Ring k', calm\<lparr>env_rng := [Some [5], Some [6]]\<rparr>)"
proof -
  have enc: "xc_encrypt demo k n m = Some (demo_tag k n m @ m)" for k n m
    by (simp add: demo_def demo_encrypt_def)
  have valid: "valid_key_id ''alice''"
    by (simp add: valid_key_id_def is_ascii_alphanumeric_def)
  show ?thesis
    by (simp add: seal_def random_bytes_def getrandom_def calm_def enc keyring_ops_def
        keyring_wrap_def keyring_ensure_def keyring_open_def valid keyring_get_def
        wrap_with_key_def Let_def)
qed

lemma polite_samples: "polite_request (pii_append, False, calm)" "polite_request (sample_append, False, calm)"
  by (simp_all add: polite_request_def pii_appended sample_appended request_record_def
      plain_record_def record_key_id_def record_data_def record_new_def record_pii_def plain_data_def
      is_value_def plain_opt_def utf8_ascii_string sample_pii_def del: appended.simps)


end
