(* ===== verification/Restart.thy ===== *)
theory Restart
  imports Reading
begin

text \<open>
  Stopping the service and starting it again on the files that it has left: nothing that was
  acknowledged is lost, and every read answers as it did before.
\<close>

section \<open>What a run leaves behind\<close>

text \<open>The environment after a run: the data path and the key directory as the service left them.\<close>

definition left_world :: "world \<Rightarrow> app_state \<Rightarrow> world" where
  "left_world wd st =
     (let wd' = (case wr_store (as_writer st) of
          FileBackend s \<Rightarrow> wd\<lparr>wd_file := Some (fs_file s)\<rparr>
        | SegBackend s \<Rightarrow> wd\<lparr>wd_dir := Some (sg_dir s)\<rparr>)
      in case wr_provider (as_writer st) of
          MasterKey _ \<Rightarrow> wd'
        | Ring k \<Rightarrow> wd'\<lparr>wd_keyring := Some (kr_dir k)\<rparr>)"

lemma left_world_key_file [simp]: "wd_key_file (left_world wd st) = wd_key_file wd"
  by (simp add: left_world_def Let_def split: backend.splits provider.splits)

lemma left_world_load_key [simp]: "load_key d cf (left_world wd st) = load_key d cf wd"
  by (simp add: load_key_def split: option.splits)

text \<open>A request during which the file operations of the key directory succeed.\<close>

definition quiet_request :: "request \<times> bool \<times> env \<Rightarrow> bool" where
  "quiet_request c \<longleftrightarrow> (case c of (_, rm_fails, v) \<Rightarrow> \<not> rm_fails \<and> env_key_fault v = None)"

text \<open>
  What does not change while a service runs: which backend and which kind of provider the
  environment chose, the signer and the tokens; and the keyring's cache stays what a restart would
  load.
\<close>

definition runs_from :: "crates \<Rightarrow> config \<Rightarrow> world \<Rightarrow> app_state \<Rightarrow> bool" where
  "runs_from d cf wd st \<longleftrightarrow>
     (case segment_max cf of
        None \<Rightarrow> \<exists>s. wr_store (as_writer st) = FileBackend s
      | Some m \<Rightarrow> m \<noteq> 0 \<and> (\<exists>s. wr_store (as_writer st) = SegBackend s)) \<and>
     (case cf_keyring_dir cf of
        None \<Rightarrow> \<exists>k. load_key d cf wd = Inr k \<and> wr_provider (as_writer st) = MasterKey k
      | Some _ \<Rightarrow> \<exists>k. wr_provider (as_writer st) = Ring k \<and> keyring_inv d k) \<and>
     (case cf_sign_key cf of
        None \<Rightarrow> as_signer st = None
      | Some b64 \<Rightarrow> \<exists>s. signer_from_base64 d b64 = Inr s \<and> as_signer st = Some s) \<and>
     as_write_token st = unwrap_or_default (cf_write_token cf) \<and>
     as_read_token st = unwrap_or_default (cf_read_token cf) \<and>
     as_admin_token st = unwrap_or_default (cf_admin_token cf)"

lemma keyring_open_None: "keyring_open d None auto = keyring_open d (Some []) auto"
  by (simp add: keyring_open_def)

lemma start_runs_from:
  assumes "base64_ok d" and "server_start d cf wd v True = Some st"
    and "\<And>files. wd_keyring wd = Some files \<Longrightarrow> distinct (map fst files)"
  shows "runs_from d cf wd st"
proof -
  have ring: "keyring_inv d (keyring_open d (wd_keyring wd) auto)" for auto
    using keyring_open_inv [OF assms(1)] assms(3)
    by (cases "wd_keyring wd") (auto simp: keyring_open_None)
  have seg: "m \<noteq> 0" if "seg_open d dir m v' = Inr s" for dir m v' s
    using that by (auto simp: seg_open_def)
  show ?thesis
    using assms(2) ring
    by (auto simp: server_start_def runs_from_def keyring_open_at_def log_build_def
        builder_store_def builder_key_provider_def builder_new_def Let_def
        split: option.splits sum.splits if_splits prod.splits dest: seg)
qed

section \<open>The invariant during a run\<close>

lemma random_bytes_key_fault: "random_bytes n v = (x, v') \<Longrightarrow> env_key_fault v' = env_key_fault v"
  by (auto simp: random_bytes_def getrandom_def split: list.splits option.splits prod.splits)

lemma seal_quiet_ring:
  assumes "seal d (provider_ops d) (Ring k) i p v = (r, p', u)" and "env_key_fault v = None"
    and "keyring_inv d k"
  shows "\<exists>k'. p' = Ring k' \<and> keyring_inv d k'"
proof -
  have "\<exists>k'. q = Ring k' \<and> keyring_inv d k'"
    if w: "wrap_dek (provider_ops d) (Ring k) i dek v' = (x, q, v'')" and v': "env_key_fault v' = None"
    for dek v' x q v''
    using w assms(3) keyring_ensure_inv [OF assms(3) _ v']
    by (auto simp: keyring_ops_def keyring_wrap_def map_prod_def
        split: if_splits prod.splits sum.splits)
  then show ?thesis
    using assms
    by (auto simp: seal_def Let_def split: prod.splits sum.splits option.splits
        dest!: random_bytes_key_fault)
qed

lemma seal_master:
  assumes "seal d (provider_ops d) (MasterKey k) i p v = (r, p', u)"
  shows "p' = MasterKey k"
  using assms
  by (auto simp: seal_def Let_def local_ops_def map_prod_def
      split: prod.splits sum.splits option.splits)

lemma process_backend_kind:
  assumes "process d (backend_ops d) kops r v w = (res, w')"
  shows "(\<exists>s. wr_store w = FileBackend s) \<Longrightarrow> \<exists>s. wr_store w' = FileBackend s"
    and "(\<exists>s. wr_store w = SegBackend s) \<Longrightarrow> \<exists>s. wr_store w' = SegBackend s"
  using assms
  by (auto simp: process_def Let_def map_prod_def split: prod.splits sum.splits)

lemma process_provider_kept:
  assumes "process d (backend_ops d) (provider_ops d) r v w = (res, w')" and "env_key_fault v = None"
  shows "wr_provider w = MasterKey m \<Longrightarrow> wr_provider w' = MasterKey m"
    and "wr_provider w = Ring k \<Longrightarrow> keyring_inv d k \<Longrightarrow>
      \<exists>k'. wr_provider w' = Ring k' \<and> keyring_inv d k'"
proof -
  obtain x where x: "seal_record d (provider_ops d) (wr_provider w) r v = (x, wr_provider w')"
    using process_provider [OF assms(1)] by blast
  show "wr_provider w = MasterKey m \<Longrightarrow> wr_provider w' = MasterKey m"
    using x by (auto simp: seal_record_def split: option.splits prod.splits sum.splits
        dest: seal_master)
  show "\<exists>k'. wr_provider w' = Ring k' \<and> keyring_inv d k'"
    if "wr_provider w = Ring k" "keyring_inv d k"
    using x that seal_quiet_ring [OF _ assms(2) that(2)]
    by (fastforce simp: seal_record_def split: option.splits prod.splits sum.splits)
qed

lemma serve_runs_from:
  assumes "runs_from d cf wd st" and "quiet_request (rq, rm_fails, v)"
    and "serve d rq rm_fails v st = (resp, st')"
  shows "runs_from d cf wd st'"
proof (cases "route (hr_method rq) (hr_path rq) = Some EAppend")
  case True
  have v: "env_key_fault v = None" using assms(2) by (simp add: quiet_request_def)
  from serve_append [OF True assms(3)] show ?thesis
  proof (elim disjE exE conjE)
    fix q res w'
    assume w': "st' = st\<lparr>as_writer := w'\<rparr>"
      and p: "process d (backend_ops d) (provider_ops d) (request_record q) v (as_writer st)
        = (res, w')"
    show ?thesis
      using assms(1) w' process_backend_kind [OF p] process_provider_kept [OF p v]
      by (auto simp: runs_from_def split: option.splits)
  qed (use assms(1) in simp)
next
  case False
  from serve_keys [OF this assms(3)] show ?thesis
  proof (elim disjE exE conjE)
    fix k k' i r u
    assume "wr_provider (as_writer st) = Ring k" "st' = set_keyring k' st"
      "keyring_ensure d k i v = (r, k', u)"
    then show ?thesis
      using assms(1,2) keyring_ensure_inv [of d k i v r k' u]
      by (auto simp: runs_from_def set_keyring_def quiet_request_def split: option.splits)
  next
    fix k k' i r
    assume "wr_provider (as_writer st) = Ring k" "st' = set_keyring k' st"
      "keyring_shred k i rm_fails = (r, k')"
    then show ?thesis
      using assms(1,2) keyring_shred_inv [of d k i r k']
      by (auto simp: runs_from_def set_keyring_def quiet_request_def split: option.splits)
  qed (use assms(1) in simp)
qed

lemma serve_all_runs_from:
  "runs_from d cf wd st \<Longrightarrow> \<forall>c \<in> set rqs. quiet_request c \<Longrightarrow>
   serve_all d rqs st = (resps, st') \<Longrightarrow> runs_from d cf wd st'"
proof (induction rqs arbitrary: st resps)
  case (Cons c rqs)
  obtain rq rm_fails v where c: "c = (rq, rm_fails, v)" by (cases c)
  obtain r st1 where s: "serve d rq rm_fails v st = (r, st1)" by (cases "serve d rq rm_fails v st")
  obtain rs where "serve_all d rqs st1 = (rs, st')"
    using Cons.prems(3) c s by (auto split: prod.splits)
  moreover have "runs_from d cf wd st1"
    using serve_runs_from [OF Cons.prems(1) _ s] Cons.prems(2) c by simp
  ultimately show ?case using Cons.IH Cons.prems(2) by simp
qed simp

section \<open>Two states that answer every read alike\<close>

fun provider_agrees :: "crates \<Rightarrow> provider \<Rightarrow> provider \<Rightarrow> bool" where
  "provider_agrees d (MasterKey a) (MasterKey b) \<longleftrightarrow> a = b"
| "provider_agrees d (Ring a) (Ring b) \<longleftrightarrow> keyring_inv d a \<and> keyring_inv d b \<and> kr_dir a = kr_dir b"
| "provider_agrees d _ _ \<longleftrightarrow> False"

definition reads_alike :: "crates \<Rightarrow> app_state \<Rightarrow> app_state \<Rightarrow> bool" where
  "reads_alike d st st' \<longleftrightarrow>
     wr_seq (as_writer st') = wr_seq (as_writer st) \<and>
     wr_prev_hash (as_writer st') = wr_prev_hash (as_writer st) \<and>
     backend_inv d (wr_store (as_writer st)) \<and> backend_inv d (wr_store (as_writer st')) \<and>
     backend_entries d (wr_store (as_writer st')) = backend_entries d (wr_store (as_writer st)) \<and>
     provider_agrees d (wr_provider (as_writer st)) (wr_provider (as_writer st')) \<and>
     as_signer st' = as_signer st \<and> as_write_token st' = as_write_token st \<and>
     as_read_token st' = as_read_token st \<and> as_admin_token st' = as_admin_token st"

lemma ring_agrees:
  assumes "provider_agrees d (Ring a) (Ring b)"
  shows "keyring_get b i = keyring_get a i" and "keyring_list b = keyring_list a"
proof -
  have inv: "keyring_inv d a" "keyring_inv d b" "kr_dir a = kr_dir b" using assms by simp_all
  show "keyring_get b i = keyring_get a i"
    by (simp add: keyring_inv_get [OF inv(1)] keyring_inv_get [OF inv(2)] inv(3))
  have "set (map fst (kr_cache b)) = set (map fst (kr_cache a))"
    using assms by (force simp: keyring_inv_def simp flip: dom_map_of_conv_image_fst intro!: arg_cong [where f=dom])
  then show "keyring_list b = keyring_list a"
    using assms by (auto simp: keyring_list_def keyring_inv_def intro: sorted_distinct_set_unique)
qed

lemma agrees_open:
  assumes "provider_agrees d p q"
  shows "open_pii d (provider_ops d) q s = open_pii d (provider_ops d) p s"
proof -
  have "unwrap_dek (provider_ops d) q = unwrap_dek (provider_ops d) p"
  proof (cases p; cases q)
    fix a b assume p: "p = Ring a" "q = Ring b"
    with assms have "keyring_get b i = keyring_get a i" for i by (intro ring_agrees(1) [where d=d]) simp
    with p show ?thesis by (intro ext) (simp add: keyring_ops_def keyring_unwrap_def)
  qed (use assms in auto)
  then show ?thesis by (simp only: open_pii_def)
qed

lemma agrees_read_entries:
  assumes "provider_agrees d p q"
  shows "read_entries d q b es = read_entries d p b es"
proof -
  have "read_entry d q b e = read_entry d p b e" for e
    unfolding read_entry_def agrees_open [OF assms] ..
  then show ?thesis by (induction es) (simp_all split: exec.split)
qed

definition reading :: "endpoint \<Rightarrow> bool" where
  "reading ep \<longleftrightarrow> ep \<noteq> EAppend \<and> (\<forall>i. ep \<noteq> ECreateKey i \<and> ep \<noteq> EShredKey i)"

lemma reads_alike_answers:
  assumes "reads_alike d st st'" and "route (hr_method rq) (hr_path rq) = Some ep" and "reading ep"
  shows "fst (serve d rq rm_fails v st') = fst (serve d rq rm_fails v st)"
proof -
  have log: "read_log d (app_data st') = read_log d (app_data st)"
    using assms(1) backend_read by (simp add: reads_alike_def)
  have head: "audit_head (app_log st') = audit_head (app_log st)"
    using assms(1) by (simp add: reads_alike_def audit_head_def app_log_def)
  have entries: "read_entries d (wr_provider (as_writer st')) b es =
      read_entries d (wr_provider (as_writer st)) b es" for b es
    using assms(1) agrees_read_entries by (simp add: reads_alike_def)
  have keys: "list_keys auth st' = list_keys auth st" for auth
  proof (cases "wr_provider (as_writer st)"; cases "wr_provider (as_writer st')")
    fix a b assume p: "wr_provider (as_writer st) = Ring a" "wr_provider (as_writer st') = Ring b"
    with assms(1) have "keyring_list b = keyring_list a"
      by (intro ring_agrees(2) [where d=d]) (simp add: reads_alike_def)
    moreover have "require_keyring st = Inr a" "require_keyring st' = Inr b"
      using p by (simp_all add: require_keyring_def app_keyring_def)
    moreover have "as_admin_token st' = as_admin_token st"
      using assms(1) by (simp add: reads_alike_def)
    ultimately show ?thesis by (simp add: list_keys_def split: sum.split)
  qed (use assms(1) in \<open>auto simp: reads_alike_def list_keys_def require_keyring_def app_keyring_def split: sum.split\<close>)
  have same: "as_read_token st' = as_read_token st" "as_signer st' = as_signer st"
    using assms(1) by (simp_all add: reads_alike_def)
  have "head_handler auth st' = head_handler auth st"
    "read_records d auth q st' = read_records d auth q st"
    "checkpoint_handler d auth v st' = checkpoint_handler d auth v st"
    "verify_handler d auth st' = verify_handler d auth st"
    "merkle_anchor_handler d auth v st' = merkle_anchor_handler d auth v st"
    "merkle_proof_handler d auth sq st' = merkle_proof_handler d auth sq st" for auth q sq
    unfolding handler_defs log head entries same by (rule refl)+
  then show ?thesis
    using assms(2,3) keys
    by (cases ep) (simp_all add: serve_def dispatch_def Let_def reading_def split: option.split)
qed

section \<open>Starting again\<close>

text \<open>The store that the service has left can be opened, and holds what it held.\<close>

lemma reopen_backend:
  assumes "backend_inv d (wr_store (as_writer st))" and "runs_from d cf wd st"
    and "env_fault v \<noteq> OpenFault"
  shows "\<exists>store. backend_inv d store \<and>
    backend_entries d store = backend_entries d (wr_store (as_writer st)) \<and>
    (case segment_max cf of
       Some m \<Rightarrow> \<exists>s. seg_open d (wd_dir (left_world wd st)) m v = Inr s \<and> store = SegBackend s
     | None \<Rightarrow> \<exists>s. file_open d (wd_file (left_world wd st)) v = Inr s \<and> store = FileBackend s)"
proof (cases "segment_max cf")
  case None
  with assms(2) obtain s where s: "wr_store (as_writer st) = FileBackend s"
    by (auto simp: runs_from_def)
  with assms(1) have inv: "file_inv d s" by (simp add: backend_inv_def)
  then have "stored d (file_entries d s) (Some (fs_file s))"
    by (simp add: stored_def file_inv_def)
  from open_stored [OF this assms(3)] obtain s' where
    "file_open d (Some (fs_file s)) v = Inr s'" "file_inv d s'" "file_entries d s' = file_entries d s"
    by blast
  moreover have "wd_file (left_world wd st) = Some (fs_file s)"
    using s by (simp add: left_world_def Let_def split: provider.split)
  ultimately show ?thesis
    using None s by (auto simp: backend_inv_def backend_entries_def)
next
  case (Some m)
  with assms(2) obtain s where s: "wr_store (as_writer st) = SegBackend s" and m: "m \<noteq> 0"
    by (auto simp: runs_from_def)
  with assms(1) obtain ps where ps: "seg_rep d s ps"
    by (auto simp: backend_inv_def seg_inv_def)
  then have holds: "holds d (sg_dir s) ps" "pieces_ok ps" "last_ok ps" "ps \<noteq> []"
    by (simp_all add: seg_rep_def)
  have "fits (snd (last ps))"
    using ps unsigned_less [where 'a=nat, of "sg_cur_count s"] by (simp add: seg_rep_def fits_def)
  from seg_open_pieces [OF holds this m assms(3)] obtain s' where
    "seg_open d (Some (sg_dir s)) m v = Inr s'" "seg_rep d s' ps" by blast
  moreover have "wd_dir (left_world wd st) = Some (sg_dir s)"
    using s by (simp add: left_world_def Let_def split: provider.split)
  ultimately show ?thesis
    using Some s ps seg_rep_inv [of d s' ps] seg_rep_entries [OF ps]
    by (auto simp: backend_inv_def backend_entries_def)
qed

text \<open>The provider that a restart makes.\<close>

lemma reopen_provider:
  assumes "runs_from d cf wd st" and "env_fault v \<noteq> OpenFault"
  shows "\<exists>key. provider_agrees d (wr_provider (as_writer st)) key \<and>
    (case cf_keyring_dir cf of
       Some _ \<Rightarrow> \<exists>k. keyring_open_at d (wd_keyring (left_world wd st)) True v = Inr k \<and> key = Ring k
     | None \<Rightarrow> \<exists>k. load_key d cf wd = Inr k \<and> key = MasterKey k)"
proof (cases "cf_keyring_dir cf")
  case None
  with assms(1) show ?thesis by (auto simp: runs_from_def)
next
  case (Some dir)
  with assms(1) obtain k where k: "wr_provider (as_writer st) = Ring k" "keyring_inv d k"
    by (auto simp: runs_from_def)
  have "wd_keyring (left_world wd st) = Some (kr_dir k)"
    using k(1) by (simp add: left_world_def Let_def split: backend.split)
  moreover have "keyring_inv d (keyring_open d (Some (kr_dir k)) True)"
    using k(2) by (intro keyring_open_inv) (simp_all add: keyring_inv_def)
  moreover have "kr_dir (keyring_open d (Some (kr_dir k)) True) = kr_dir k"
    by (simp add: keyring_open_def Let_def)
  ultimately show ?thesis
    using Some k assms(2) by (simp add: keyring_open_at_def)
qed

lemma start_steps:
  assumes "case cf_keyring_dir cf of
      Some _ \<Rightarrow> \<exists>k. keyring_open_at d (wd_keyring wd) True v = Inr k \<and> key = Ring k
    | None \<Rightarrow> \<exists>k. load_key d cf wd = Inr k \<and> key = MasterKey k"
    and "case segment_max cf of
      Some m \<Rightarrow> \<exists>s. seg_open d (wd_dir wd) m v = Inr s \<and> store = SegBackend s
    | None \<Rightarrow> \<exists>s. file_open d (wd_file wd) v = Inr s \<and> store = FileBackend s"
    and "log_build (backend_ops d) (builder_key_provider key (builder_store store builder_new)) True
      = Inr l"
    and "case cf_sign_key cf of
      None \<Rightarrow> signer = None
    | Some b64 \<Rightarrow> \<exists>s. signer_from_base64 d b64 = Inr s \<and> signer = Some s"
  shows "server_start d cf wd v True = map_option (\<lambda>w. \<lparr>as_writer = w, as_signer = signer,
      as_write_token = unwrap_or_default (cf_write_token cf),
      as_read_token = unwrap_or_default (cf_read_token cf),
      as_admin_token = unwrap_or_default (cf_admin_token cf)\<rparr>) (lh_writer l)"
proof -
  have "(case cf_keyring_dir cf of
      Some _ \<Rightarrow> (case keyring_open_at d (wd_keyring wd) True v of Inl _ \<Rightarrow> None | Inr k \<Rightarrow> Some (Ring k))
    | None \<Rightarrow> (case load_key d cf wd of Inl _ \<Rightarrow> None | Inr k \<Rightarrow> Some (MasterKey k))) = Some key"
    using assms(1) by (auto split: option.splits)
  moreover have "(case segment_max cf of
      Some m \<Rightarrow> (case seg_open d (wd_dir wd) m v of Inl _ \<Rightarrow> None | Inr s \<Rightarrow> Some (SegBackend s))
    | None \<Rightarrow> (case file_open d (wd_file wd) v of Inl _ \<Rightarrow> None | Inr s \<Rightarrow> Some (FileBackend s)))
      = Some store"
    using assms(2) by (auto split: option.splits)
  moreover have "(case cf_sign_key cf of
      Some b64 \<Rightarrow> (case signer_from_base64 d b64 of Inl _ \<Rightarrow> None | Inr s \<Rightarrow> Some (Some s))
    | None \<Rightarrow> Some None) = Some signer"
    using assms(4) by (auto split: option.splits)
  ultimately show ?thesis
    using assms(3) unfolding server_start_def builder_arc builder_order by simp
qed

lemma restart_reads_alike:
  assumes "engine_crates d" and "server_log.log_inv d genesis (as_writer st)"
    and "runs_from d cf wd st" and "env_fault v \<noteq> OpenFault"
  shows "\<exists>st'. server_start d cf (left_world wd st) v True = Some st' \<and> reads_alike d st st'"
proof -
  have inv: "backend_inv d (wr_store (as_writer st))"
      "chain_from d genesis (backend_entries d (wr_store (as_writer st)))"
      "(wr_seq (as_writer st), wr_prev_hash (as_writer st)) =
        head_of genesis (backend_entries d (wr_store (as_writer st)))"
    using assms(2) by (simp_all add: server_log.log_inv_def)
  obtain store where store: "backend_inv d store"
      "backend_entries d store = backend_entries d (wr_store (as_writer st))"
      "case segment_max cf of
         Some m \<Rightarrow> \<exists>s. seg_open d (wd_dir (left_world wd st)) m v = Inr s \<and> store = SegBackend s
       | None \<Rightarrow> \<exists>s. file_open d (wd_file (left_world wd st)) v = Inr s \<and> store = FileBackend s"
    using reopen_backend [OF inv(1) assms(3,4)] by blast
  obtain key where key: "provider_agrees d (wr_provider (as_writer st)) key"
      "case cf_keyring_dir cf of
         Some _ \<Rightarrow> \<exists>k. keyring_open_at d (wd_keyring (left_world wd st)) True v = Inr k \<and> key = Ring k
       | None \<Rightarrow> \<exists>k. load_key d cf wd = Inr k \<and> key = MasterKey k"
    using reopen_provider [OF assms(3,4)] by blast
  obtain l where build: "log_build (backend_ops d)
      (builder_key_provider key (builder_store store builder_new)) True = Inr l"
    using server_log.build_succeeds [OF store(1)] ..
  have hex: "hex_ok d" and cipher: "cipher_ok d key"
    using assms(1) by (simp_all add: engine_crates_def cipher_ok_def)
  have chain: "chain_from d genesis (backend_entries d store)" using inv(2) store(2) by simp
  from server_log.build_resumes [OF store(1) cipher chain impI [OF refl]
      chain_head_utf8_genesis [OF hex chain] build] obtain w where
    w: "l = \<lparr>lh_tx = True, lh_writer = Some w\<rparr>" "server_log.log_inv d genesis w"
      "wr_store w = store" "wr_provider w = key" by blast
  have head: "(wr_seq w, wr_prev_hash w) = (wr_seq (as_writer st), wr_prev_hash (as_writer st))"
    using w(2,3) store(2) inv(3) by (simp add: server_log.log_inv_def)
  let ?st = "\<lparr>as_writer = w, as_signer = as_signer st, as_write_token = as_write_token st,
    as_read_token = as_read_token st, as_admin_token = as_admin_token st\<rparr>"
  have "server_start d cf (left_world wd st) v True = Some ?st"
    using start_steps [OF key(2)[folded left_world_load_key [of d cf wd st]] store(3) build, of "as_signer st"]
      assms(3) w(1)
    by (simp add: runs_from_def)
  moreover have "reads_alike d st ?st"
    using head inv(1) store(1,2) key(1) w(3,4) by (simp add: reads_alike_def)
  ultimately show ?thesis by blast
qed



end
