(* ===== verification/Client.thy ===== *)
theory Client
  imports Server
begin

text \<open>
  The HTTP client (\<open>crates/client/src/lib.rs\<close>): its builder, the records it appends, and each call
  as the request that it sends and the answer that it reads. \<open>reqwest\<close>, which carries a request to a
  server and brings the answer back, is a parameter of the calls.
\<close>

section \<open>Requests, answers and errors\<close>

text \<open>What is built with \<open>reqwest::RequestBuilder\<close>, and what comes back for it.\<close>

record http_request =
  ht_method :: http_method
  ht_url :: string
  ht_bearer :: string
  ht_query :: "(string \<times> string) list"
  ht_json :: "json option"

record http_response =
  hp_status :: nat
  hp_json :: "json option"  \<comment> \<open>the body, if it is JSON\<close>
  hp_text :: string         \<comment> \<open>the body as text\<close>

datatype client_error =
    Http
  | Status nat string
  | MissingToken string

type_synonym 'a client_result = "client_error + 'a"

text \<open>\<open>RequestBuilder::send\<close>: \<open>None\<close> is a transport error.\<close>

type_synonym transport = "http_request \<Rightarrow> http_response option"

section \<open>Building a client\<close>

record client_builder =
  cb_base :: string
  cb_write_token :: "string option"
  cb_read_token :: "string option"
  cb_admin_token :: "string option"

record client =
  cl_base :: string
  cl_write_token :: "string option"
  cl_read_token :: "string option"
  cl_admin_token :: "string option"

definition client_builder_new :: "string \<Rightarrow> client_builder" where
  "client_builder_new base =
     \<lparr>cb_base = base, cb_write_token = None, cb_read_token = None, cb_admin_token = None\<rparr>"

definition builder_write_token :: "string \<Rightarrow> client_builder \<Rightarrow> client_builder" where
  "builder_write_token t b = b\<lparr>cb_write_token := Some t\<rparr>"

definition builder_read_token :: "string \<Rightarrow> client_builder \<Rightarrow> client_builder" where
  "builder_read_token t b = b\<lparr>cb_read_token := Some t\<rparr>"

definition builder_admin_token :: "string \<Rightarrow> client_builder \<Rightarrow> client_builder" where
  "builder_admin_token t b = b\<lparr>cb_admin_token := Some t\<rparr>"

definition trim_end_matches :: "char \<Rightarrow> string \<Rightarrow> string" where
  "trim_end_matches c s = rev (dropWhile (\<lambda>x. x = c) (rev s))"

definition client_build :: "client_builder \<Rightarrow> client" where
  "client_build b =
     \<lparr>cl_base = trim_end_matches (CHR ''/'') (cb_base b), cl_write_token = cb_write_token b,
      cl_read_token = cb_read_token b, cl_admin_token = cb_admin_token b\<rparr>"

section \<open>Records to append\<close>

record append_request =
  aq_event_type :: string
  aq_outcome :: outcome
  aq_actor :: string
  aq_instruction_id :: "string option"
  aq_data :: json
  aq_pii :: "json option"
  aq_key_id :: "string option"

definition append_new :: "string \<Rightarrow> outcome \<Rightarrow> string \<Rightarrow> append_request" where
  "append_new ev oc actor =
     \<lparr>aq_event_type = ev, aq_outcome = oc, aq_actor = actor, aq_instruction_id = None,
      aq_data = JNull, aq_pii = None, aq_key_id = None\<rparr>"

definition append_instruction_id :: "string \<Rightarrow> append_request \<Rightarrow> append_request" where
  "append_instruction_id i q = q\<lparr>aq_instruction_id := Some i\<rparr>"

definition append_data :: "json \<Rightarrow> append_request \<Rightarrow> append_request" where
  "append_data x q = q\<lparr>aq_data := x\<rparr>"

definition append_pii :: "json \<Rightarrow> append_request \<Rightarrow> append_request" where
  "append_pii x q = q\<lparr>aq_pii := Some x\<rparr>"

definition append_key_id :: "string \<Rightarrow> append_request \<Rightarrow> append_request" where
  "append_key_id i q = q\<lparr>aq_key_id := Some i\<rparr>"

text \<open>\<open>Serialize\<close>: the optional fields are left out when they are \<open>None\<close>, the data when it is null.\<close>

definition append_json :: "append_request \<Rightarrow> json" where
  "append_json q =
     JObj ([(''event_type'', JStr (aq_event_type q)), (''outcome'', outcome_json (aq_outcome q)),
            (''actor'', JStr (aq_actor q))]
       @ (case aq_instruction_id q of None \<Rightarrow> [] | Some i \<Rightarrow> [(''instruction_id'', JStr i)])
       @ (if aq_data q = JNull then [] else [(''data'', aq_data q)])
       @ (case aq_pii q of None \<Rightarrow> [] | Some p \<Rightarrow> [(''pii'', p)])
       @ (case aq_key_id q of None \<Rightarrow> [] | Some k \<Rightarrow> [(''key_id'', JStr k)]))"

section \<open>Answers\<close>

record head =
  hd_seq :: u64
  hd_head_hash :: string

definition head_answer_of_json :: "json \<Rightarrow> head option" where
  "head_answer_of_json j =
     (case struct_fields [''seq'', ''head_hash''] j of
        None \<Rightarrow> None
      | Some f \<Rightarrow>
          (case (field f ''seq'' u64_of_json, field f ''head_hash'' string_of_json) of
             (Some s, Some h) \<Rightarrow> Some \<lparr>hd_seq = s, hd_head_hash = h\<rparr>
           | _ \<Rightarrow> None))"

record read_response =
  rr_count :: nat
  rr_entries :: "json list"

definition read_response_of_json :: "json \<Rightarrow> read_response option" where
  "read_response_of_json j =
     (case struct_fields [''count'', ''entries''] j of
        None \<Rightarrow> None
      | Some f \<Rightarrow>
          (case (field f ''count'' usize_of_json,
                 field f ''entries'' (vec_of_json (\<lambda>v. Some (value_of v)))) of
             (Some n, Some vs) \<Rightarrow> Some \<lparr>rr_count = n, rr_entries = vs\<rparr>
           | _ \<Rightarrow> None))"

record merkle_proof_response =
  mr_seq :: u64
  mr_leaf :: "string option"
  mr_root :: string
  mr_proof :: merkle_proof

definition merkle_proof_response_of_json :: "json \<Rightarrow> merkle_proof_response option" where
  "merkle_proof_response_of_json j =
     (case struct_fields [''seq'', ''leaf'', ''root'', ''proof''] j of
        None \<Rightarrow> None
      | Some f \<Rightarrow>
          (case (field f ''seq'' u64_of_json, opt_of_json string_of_json (f ''leaf''),
                 field f ''root'' string_of_json, field f ''proof'' proof_of_json) of
             (Some s, Some l, Some r, Some p) \<Rightarrow>
               Some \<lparr>mr_seq = s, mr_leaf = l, mr_root = r, mr_proof = p\<rparr>
           | _ \<Rightarrow> None))"

record create_key_response =
  ck_key_id :: string
  ck_created :: bool

definition create_key_response_of_json :: "json \<Rightarrow> create_key_response option" where
  "create_key_response_of_json j =
     (case struct_fields [''key_id'', ''created''] j of
        None \<Rightarrow> None
      | Some f \<Rightarrow>
          (case (field f ''key_id'' string_of_json, field f ''created'' bool_of_json) of
             (Some i, Some b) \<Rightarrow> Some \<lparr>ck_key_id = i, ck_created = b\<rparr>
           | _ \<Rightarrow> None))"

record shred_key_response =
  sk_key_id :: string
  sk_shredded :: bool

definition shred_key_response_of_json :: "json \<Rightarrow> shred_key_response option" where
  "shred_key_response_of_json j =
     (case struct_fields [''key_id'', ''shredded''] j of
        None \<Rightarrow> None
      | Some f \<Rightarrow>
          (case (field f ''key_id'' string_of_json, field f ''shredded'' bool_of_json) of
             (Some i, Some b) \<Rightarrow> Some \<lparr>sk_key_id = i, sk_shredded = b\<rparr>
           | _ \<Rightarrow> None))"

definition key_list_of_json :: "json \<Rightarrow> string list option" where
  "key_list_of_json j =
     (case struct_fields [''key_ids''] j of
        None \<Rightarrow> None
      | Some f \<Rightarrow> field f ''key_ids'' (vec_of_json string_of_json))"

section \<open>The calls\<close>

definition client_url :: "client \<Rightarrow> string \<Rightarrow> string" where
  "client_url c p = cl_base c @ p"

definition write_tok :: "client \<Rightarrow> string client_result" where
  "write_tok c =
     (case cl_write_token c of None \<Rightarrow> Inl (MissingToken ''write'') | Some t \<Rightarrow> Inr t)"

definition read_tok :: "client \<Rightarrow> string client_result" where
  "read_tok c =
     (case cl_read_token c of None \<Rightarrow> Inl (MissingToken ''read'') | Some t \<Rightarrow> Inr t)"

definition admin_tok :: "client \<Rightarrow> string client_result" where
  "admin_tok c =
     (case cl_admin_token c of None \<Rightarrow> Inl (MissingToken ''admin'') | Some t \<Rightarrow> Inr t)"

definition is_success :: "nat \<Rightarrow> bool" where
  "is_success s \<longleftrightarrow> 200 \<le> s \<and> s < 300"

text \<open>\<open>resp.json::<T>()\<close>.\<close>

definition json_body :: "(json \<Rightarrow> 'a option) \<Rightarrow> http_response \<Rightarrow> 'a client_result" where
  "json_body dec r =
     (case Option.bind (hp_json r) dec of None \<Rightarrow> Inl Http | Some x \<Rightarrow> Inr x)"

definition client_send :: "transport \<Rightarrow> (json \<Rightarrow> 'a option) \<Rightarrow> http_request \<Rightarrow> 'a client_result" where
  "client_send http dec rb =
     (case http rb of
        None \<Rightarrow> Inl Http
      | Some r \<Rightarrow>
          if \<not> is_success (hp_status r) then Inl (Status (hp_status r) (hp_text r))
          else json_body dec r)"

text \<open>What a service sends of a value, the client gets.\<close>

context wire
begin

lemma json_body_ok:
  "ok x \<Longrightarrow> json_body dec \<lparr>hp_status = s, hp_json = Some (enc x), hp_text = t\<rparr> = Inr x"
  by (simp add: json_body_def decode)

lemma send_ok:
  "ok x \<Longrightarrow> is_success s \<Longrightarrow>
   http rb = Some \<lparr>hp_status = s, hp_json = Some (enc x), hp_text = t\<rparr> \<Longrightarrow>
   client_send http dec rb = Inr x"
  by (simp add: client_send_def json_body_ok)

end

text \<open>A \<open>GET\<close> or other call without a body.\<close>

definition bare :: "http_method \<Rightarrow> client \<Rightarrow> string \<Rightarrow> string \<Rightarrow> http_request" where
  "bare meth c p token =
     \<lparr>ht_method = meth, ht_url = client_url c p, ht_bearer = token, ht_query = [], ht_json = None\<rparr>"

definition client_append :: "transport \<Rightarrow> client \<Rightarrow> append_request \<Rightarrow> receipt client_result" where
  "client_append http c q =
     (case write_tok c of
        Inl e \<Rightarrow> Inl e
      | Inr token \<Rightarrow>
          client_send http receipt_of_json
            ((bare POST c ''/v1/records'' token)\<lparr>ht_json := Some (append_json q)\<rparr>))"

definition client_read ::
  "transport \<Rightarrow> client \<Rightarrow> u64 option \<Rightarrow> u64 option \<Rightarrow> bool \<Rightarrow> read_response client_result" where
  "client_read http c from to decrypt =
     (case read_tok c of
        Inl e \<Rightarrow> Inl e
      | Inr token \<Rightarrow>
          let q = [(''decrypt'', if decrypt then ''true'' else ''false'')]
              @ (case from of None \<Rightarrow> [] | Some f \<Rightarrow> [(''from'', show_u64 f)])
              @ (case to of None \<Rightarrow> [] | Some t \<Rightarrow> [(''to'', show_u64 t)]) in
          client_send http read_response_of_json
            ((bare GET c ''/v1/records'' token)\<lparr>ht_query := q\<rparr>))"

definition client_head :: "transport \<Rightarrow> client \<Rightarrow> head client_result" where
  "client_head http c =
     (case read_tok c of
        Inl e \<Rightarrow> Inl e
      | Inr token \<Rightarrow> client_send http head_answer_of_json (bare GET c ''/v1/head'' token))"

text \<open>\<open>verify\<close> reads the report from a 409 as well.\<close>

definition client_verify :: "transport \<Rightarrow> client \<Rightarrow> verify_report client_result" where
  "client_verify http c =
     (case read_tok c of
        Inl e \<Rightarrow> Inl e
      | Inr token \<Rightarrow>
          (case http (bare GET c ''/v1/verify'' token) of
             None \<Rightarrow> Inl Http
           | Some r \<Rightarrow>
               if is_success (hp_status r) \<or> hp_status r = 409 then json_body report_of_json r
               else Inl (Status (hp_status r) (hp_text r))))"

definition client_checkpoint :: "transport \<Rightarrow> client \<Rightarrow> checkpoint client_result" where
  "client_checkpoint http c =
     (case read_tok c of
        Inl e \<Rightarrow> Inl e
      | Inr token \<Rightarrow> client_send http checkpoint_of_json (bare GET c ''/v1/checkpoint'' token))"

definition client_merkle_anchor :: "transport \<Rightarrow> client \<Rightarrow> merkle_anchor client_result" where
  "client_merkle_anchor http c =
     (case read_tok c of
        Inl e \<Rightarrow> Inl e
      | Inr token \<Rightarrow> client_send http merkle_anchor_of_json (bare GET c ''/v1/merkle-anchor'' token))"

definition client_merkle_proof :: "transport \<Rightarrow> client \<Rightarrow> u64 \<Rightarrow> merkle_proof_response client_result" where
  "client_merkle_proof http c s =
     (case read_tok c of
        Inl e \<Rightarrow> Inl e
      | Inr token \<Rightarrow>
          client_send http merkle_proof_response_of_json
            ((bare GET c ''/v1/merkle-proof'' token)\<lparr>ht_query := [(''seq'', show_u64 s)]\<rparr>))"

definition client_create_key :: "transport \<Rightarrow> client \<Rightarrow> string \<Rightarrow> create_key_response client_result" where
  "client_create_key http c i =
     (case admin_tok c of
        Inl e \<Rightarrow> Inl e
      | Inr token \<Rightarrow>
          client_send http create_key_response_of_json (bare POST c (''/v1/keys/'' @ i) token))"

definition client_shred_key :: "transport \<Rightarrow> client \<Rightarrow> string \<Rightarrow> shred_key_response client_result" where
  "client_shred_key http c i =
     (case admin_tok c of
        Inl e \<Rightarrow> Inl e
      | Inr token \<Rightarrow>
          client_send http shred_key_response_of_json (bare DELETE c (''/v1/keys/'' @ i) token))"

definition client_list_keys :: "transport \<Rightarrow> client \<Rightarrow> string list client_result" where
  "client_list_keys http c =
     (case admin_tok c of
        Inl e \<Rightarrow> Inl e
      | Inr token \<Rightarrow> client_send http key_list_of_json (bare GET c ''/v1/keys'' token))"

end
