(* ===== verification/Remote.thy ===== *)
theory Remote
  imports Service Client
begin

text \<open>
  The client against the service: what a call of \<open>chainlog-client\<close> returns, and what it has done to
  the log, when \<open>reqwest\<close> and \<open>axum\<close> carry the request and the answer unchanged.
\<close>

section \<open>Carrying a request\<close>

fun split_slash :: "string \<Rightarrow> string list" where
  "split_slash [] = [[]]"
| "split_slash (c # cs) =
     (if c = CHR ''/'' then [] # split_slash cs
      else (case split_slash cs of [] \<Rightarrow> [[c]] | s # ss \<Rightarrow> (c # s) # ss))"

text \<open>The request that arrives at a service with base URL \<open>base\<close>.\<close>

definition as_request :: "string \<Rightarrow> http_request \<Rightarrow> request option" where
  "as_request base rq =
     map_option (\<lambda>p. \<lparr>hr_method = ht_method rq, hr_path = split_slash p,
         hr_auth = Some (''Bearer '' @ ht_bearer rq), hr_query = ht_query rq,
         hr_body = ht_json rq\<rparr>)
       (strip_prefix (base @ ''/'') (ht_url rq))"

text \<open>
  The transport delivers to the service in state \<open>st\<close> and brings its answer back; nothing is said
  of answers that \<open>axum\<close> gives by itself.
\<close>

definition reaches :: "transport \<Rightarrow> crates \<Rightarrow> string \<Rightarrow> bool \<Rightarrow> env \<Rightarrow> app_state \<Rightarrow> bool" where
  "reaches http d base rm_fails v st \<longleftrightarrow>
     (\<forall>rq r resp. as_request base rq = Some r \<longrightarrow>
        fst (serve d r rm_fails v st) = Some (Ret resp) \<longrightarrow>
        (\<exists>text. http rq =
           Some \<lparr>hp_status = rs_status resp, hp_json = Some (rs_body resp), hp_text = text\<rparr>))"

lemma reachesD:
  assumes "reaches http d base rm_fails v st" and "as_request base rq = Some r"
    and "serve d r rm_fails v st = (Some (Ret resp), st')"
  shows "\<exists>text. http rq =
    Some \<lparr>hp_status = rs_status resp, hp_json = Some (rs_body resp), hp_text = text\<rparr>"
  using assms unfolding reaches_def by (metis fst_conv)

lemma as_request_bare:
  "as_request (cl_base c) (bare meth c (CHR ''/'' # p) tok) =
     Some \<lparr>hr_method = meth, hr_path = split_slash p, hr_auth = Some (''Bearer '' @ tok),
           hr_query = [], hr_body = None\<rparr>"
  using strip_prefix_append [of "cl_base c @ ''/''" p]
  by (simp add: as_request_def bare_def client_url_def)

section \<open>Appending\<close>

text \<open>The server reads what the client wrote, except that it takes a null PII for none.\<close>

lemma append_json_read:
  assumes "is_value (aq_data q)" and "\<And>p. aq_pii q = Some p \<Longrightarrow> is_value p"
  shows "record_request_of_json (append_json q) =
    Some \<lparr>rq_event_type = aq_event_type q, rq_outcome = aq_outcome q, rq_actor = aq_actor q,
      rq_instruction_id = aq_instruction_id q, rq_data = aq_data q,
      rq_pii = (if aq_pii q = Some JNull then None else aq_pii q),
      rq_key_id = (case aq_key_id q of None \<Rightarrow> default_key_id | Some k \<Rightarrow> k)\<rparr>"
proof -
  have pii: "opt_of_json (\<lambda>v. Some (value_of v)) (aq_pii q) =
      Some (if aq_pii q = Some JNull then None else aq_pii q)"
    using assms(2) by (auto simp: opt_of_json_def is_value_def split: option.splits json.splits)
  show ?thesis
    using assms(1) pii
    by (cases "aq_instruction_id q"; cases "aq_pii q"; cases "aq_key_id q"; cases "aq_data q = JNull")
      (simp_all add: record_request_of_json_def append_json_def struct_fields_def field_def
        opt_of_json_def [of string_of_json] is_value_def)
qed

text \<open>The request that \<open>append\<close> sends, as it arrives.\<close>

definition arriving_append :: "string \<Rightarrow> append_request \<Rightarrow> request" where
  "arriving_append tok q =
     \<lparr>hr_method = POST, hr_path = [''v1'', ''records''], hr_auth = Some (''Bearer '' @ tok),
      hr_query = [], hr_body = Some (append_json q)\<rparr>"

lemma split_slash_paths [simp]:
  "split_slash ''v1/records'' = [''v1'', ''records'']"
  "split_slash ''v1/verify'' = [''v1'', ''verify'']"
  by simp_all

lemma as_request_append:
  "as_request (cl_base c)
     ((bare POST c ''/v1/records'' tok)\<lparr>ht_json := Some (append_json q)\<rparr>) =
   Some (arriving_append tok q)"
  using as_request_bare [of c POST "''v1/records''" tok]
  by (simp add: as_request_def arriving_append_def bare_def)

lemma route_append [simp]:
  "route (hr_method (arriving_append tok q)) (hr_path (arriving_append tok q)) = Some EAppend"
  by (simp add: arriving_append_def route_def)

text \<open>What the engine is asked to record for a request.\<close>

definition sent_record :: "append_request \<Rightarrow> log_record" where
  "sent_record q =
     \<lparr>r_event_type = aq_event_type q, r_outcome = aq_outcome q, r_actor = aq_actor q,
      r_instruction_id = aq_instruction_id q, r_data = aq_data q,
      r_pii = (if aq_pii q = Some JNull then None else aq_pii q),
      r_key_id = (case aq_key_id q of None \<Rightarrow> default_key_id | Some k \<Rightarrow> k)\<rparr>"

lemma appended_sent:
  assumes "is_value (aq_data q)" and "\<And>p. aq_pii q = Some p \<Longrightarrow> is_value p"
  shows "\<exists>rq. appended (arriving_append tok q) = Some rq \<and> request_record rq = sent_record q"
  using append_json_read [OF assms]
  by (simp add: arriving_append_def route_def request_record_fields sent_record_def)

lemma seal_record_None:
  "seal_record d kops k r v = (Inr pii, k') \<Longrightarrow> pii = None \<longleftrightarrow> r_pii r = None"
  by (auto simp: seal_record_def split: option.splits prod.splits sum.splits)

lemma step_entry_fields:
  assumes "e \<in> set (server_log.step_entry d r v w)"
  shows "e_event_type e = r_event_type r \<and> e_outcome e = r_outcome r \<and> e_actor e = r_actor r \<and>
    e_instruction_id e = r_instruction_id r \<and> p_data (e_payload e) = r_data r \<and>
    (p_pii (e_payload e) = None \<longleftrightarrow> r_pii r = None)"
proof -
  obtain x k' where seal: "seal_record d (provider_ops d) (wr_provider w) r v = (x, k')"
    by (cases "seal_record d (provider_ops d) (wr_provider w) r v")
  with assms obtain pii where "x = Inr pii"
      "e = made_entry d r pii (now_ms (env_clock v)) (wr_seq w + 1) (wr_prev_hash w)"
    by (auto simp: server_log.step_entry_def split: prod.splits sum.splits)
  with seal_record_None seal show ?thesis by fastforce
qed

text \<open>An append through the client: one step of the writer, and its outcome on both sides.\<close>

lemma append_runs:
  assumes "is_value (aq_data q)" and "\<forall>p. aq_pii q = Some p \<longrightarrow> is_value p"
    and "cl_write_token c = Some (as_write_token st)" and "as_write_token st \<noteq> []"
    and "reaches http d (cl_base c) rm_fails v st"
    and "serve d (arriving_append (as_write_token st) q) rm_fails v st = (resp, st')"
    and "process d (backend_ops d) (provider_ops d) (sent_record q) v (as_writer st) = (res, w')"
  shows "st' = st\<lparr>as_writer := w'\<rparr>"
    and "res = Inl e \<Longrightarrow> \<exists>body. client_append http c q = Inl (Status 500 body)"
    and "res = Inr rc \<Longrightarrow> client_append http c q = Inr rc"
proof -
  let ?rq = "arriving_append (as_write_token st) q"
  let ?answer = "case res of Inl e \<Rightarrow> from_error e | Inr rc \<Rightarrow> \<lparr>rs_status = 201, rs_body = receipt_json rc\<rparr>"
  obtain rq where rq: "appended ?rq = Some rq" "request_record rq = sent_record q"
    using appended_sent [of q "as_write_token st"] assms(1,2) by auto
  have "carries ?rq (as_write_token st)"
    using assms(4) by (simp add: carries_def arriving_append_def)
  then have serve: "resp = Some (Ret ?answer)" "st' = st\<lparr>as_writer := w'\<rparr>"
    using assms(6,7) rq
    by (auto simp: serve_def dispatch_def Let_def append_handler_def require_carries
        audit_record_def app_log_def with_log_def split: sum.splits)
  then show "st' = st\<lparr>as_writer := w'\<rparr>" by simp
  from assms(6) serve(1) obtain body where http:
    "http ((bare POST c ''/v1/records'' (as_write_token st))\<lparr>ht_json := Some (append_json q)\<rparr>) =
      Some \<lparr>hp_status = rs_status ?answer, hp_json = Some (rs_body ?answer), hp_text = body\<rparr>"
    using reachesD [OF assms(5) as_request_append] by blast
  show "\<exists>body. client_append http c q = Inl (Status 500 body)" if "res = Inl e"
    using http assms(3) that
    by (simp add: client_append_def write_tok_def client_send_def is_success_def from_error_def
        api_error_def)
  show "client_append http c q = Inr rc" if "res = Inr rc"
    using http assms(3) that receipt_wire.send_ok [where x = rc and s = 201 and t = body]
    by (simp add: client_append_def write_tok_def is_success_def)
qed


text \<open>A transport that is the service itself, for the samples.\<close>

definition direct :: "crates \<Rightarrow> string \<Rightarrow> bool \<Rightarrow> env \<Rightarrow> app_state \<Rightarrow> transport" where
  "direct d base rm_fails v st rq =
     Option.bind (as_request base rq) (\<lambda>r.
       case fst (serve d r rm_fails v st) of
         Some (Ret resp) \<Rightarrow>
           Some \<lparr>hp_status = rs_status resp, hp_json = Some (rs_body resp), hp_text = []\<rparr>
       | _ \<Rightarrow> None)"

lemma direct_reaches: "reaches (direct d base rm_fails v st) d base rm_fails v st"
  by (auto simp: reaches_def direct_def)

definition sample_client :: client where
  "sample_client =
     client_build (builder_read_token ''r'' (builder_write_token ''w'' (client_builder_new ''http://h/'')))"

lemma sample_client_fields [simp]:
  "cl_base sample_client = ''http://h''" "cl_write_token sample_client = Some ''w''"
  "cl_read_token sample_client = Some ''r''"
  by (simp_all add: sample_client_def client_build_def builder_read_token_def
      builder_write_token_def client_builder_new_def trim_end_matches_def)


section \<open>Verifying\<close>

text \<open>
  Whatever readable log the service holds, valid or tampered with, the client's \<open>verify\<close> returns
  exactly the report that the verifier computes for it: the report of an invalid chain, which the
  service sends with a 409, is not an error to the client.
\<close>

lemma client_verify_reports:
  assumes "cl_read_token c = Some (as_read_token st)" and "as_read_token st \<noteq> []"
    and "reaches http d (cl_base c) rm_fails v st" and "read_log d (app_data st) = Inr es"
  shows "client_verify http c = Inr (verify_entries d es)"
proof -
  let ?tok = "as_read_token st" and ?report = "verify_entries d es"
  let ?rq = "\<lparr>hr_method = GET, hr_path = [''v1'', ''verify''], hr_auth = Some (''Bearer '' @ ?tok),
    hr_query = [], hr_body = None\<rparr>"
  have arrives: "as_request (cl_base c) (bare GET c ''/v1/verify'' ?tok) = Some ?rq"
    using as_request_bare [of c GET "''v1/verify''" ?tok] by simp
  have "carries ?rq ?tok" using assms(2) by (simp add: carries_def)
  then have "serve d ?rq rm_fails v st =
      (Some (Ret \<lparr>rs_status = (if is_valid ?report then 200 else 409),
         rs_body = report_json ?report\<rparr>), st)"
    using assms(4) require_bearer [OF assms(2)]
    by (simp add: serve_def route_def dispatch_def verify_handler_def del: append.simps)
  from reachesD [OF assms(3) arrives this] assms(1) show ?thesis
    by (auto simp: client_verify_def read_tok_def is_success_def report_wire.json_body_ok)
qed

end
