(* ===== verification/Calls.thy ===== *)
theory Calls
  imports Remote Restart
begin

text \<open>
  Every call of the client against the service: what each returns, in terms of the state of the
  service. The answers that the service builds with \<open>json!\<close> are what the client's structs decode.
\<close>

section \<open>The answers on the wire\<close>

definition head_answer_json :: "head \<Rightarrow> json" where
  "head_answer_json h = json_obj [(''seq'', json_u64 (hd_seq h)), (''head_hash'', JStr (hd_head_hash h))]"

interpretation head_wire: wire head_answer_json head_answer_of_json "\<lambda>_. True"
  by unfold_locales
    (simp add: head_answer_json_def head_answer_of_json_def json_obj_def to_map_def struct_fields_def
      field_def list_less_def)

definition read_answer_json :: "read_response \<Rightarrow> json" where
  "read_answer_json r =
     json_obj [(''count'', json_usize (rr_count r)), (''entries'', JArr (rr_entries r))]"

interpretation read_wire: wire read_answer_json read_response_of_json
  "\<lambda>r. rr_count r < 2 ^ 64 \<and> list_all is_value (rr_entries r)"
proof unfold_locales
  fix r :: read_response
  assume ok: "rr_count r < 2 ^ 64 \<and> list_all is_value (rr_entries r)"
  have "list_all is_value vs \<Longrightarrow> vec_of_json (\<lambda>v. Some (value_of v)) (JArr vs) = Some vs" for vs
    by (induction vs) (auto simp: vec_of_json_def is_value_def)
  with ok show "read_response_of_json (read_answer_json r) = Some r"
    by (simp add: read_answer_json_def read_response_of_json_def json_obj_def to_map_def
        struct_fields_def field_def list_less_def usize_roundtrip)
qed

definition proof_answer_json :: "merkle_proof_response \<Rightarrow> json" where
  "proof_answer_json r =
     json_obj [(''seq'', json_u64 (mr_seq r)),
       (''leaf'', case mr_leaf r of None \<Rightarrow> JNull | Some h \<Rightarrow> JStr h), (''root'', JStr (mr_root r)),
       (''proof'', value_of (proof_json (mr_proof r)))]"

interpretation proof_answer_wire: wire proof_answer_json merkle_proof_response_of_json
  "\<lambda>r. leaf_index (mr_proof r) < 2 ^ 64 \<and> leaf_count (mr_proof r) < 2 ^ 64"
proof unfold_locales
  fix r :: merkle_proof_response
  assume "leaf_index (mr_proof r) < 2 ^ 64 \<and> leaf_count (mr_proof r) < 2 ^ 64"
  then have "proof_of_json (value_of (proof_json (mr_proof r))) = Some (mr_proof r)"
    by (simp add: proof_value_roundtrip)
  then show "merkle_proof_response_of_json (proof_answer_json r) = Some r"
    by (cases "mr_leaf r")
      (simp_all add: proof_answer_json_def merkle_proof_response_of_json_def json_obj_def to_map_def
        struct_fields_def field_def opt_of_json_def list_less_def)
qed

definition created_json :: "create_key_response \<Rightarrow> json" where
  "created_json r = json_obj [(''key_id'', JStr (ck_key_id r)), (''created'', JBool (ck_created r))]"

interpretation created_wire: wire created_json create_key_response_of_json "\<lambda>_. True"
  by unfold_locales
    (simp add: created_json_def create_key_response_of_json_def json_obj_def to_map_def
      struct_fields_def field_def list_less_def)

definition shredded_json :: "shred_key_response \<Rightarrow> json" where
  "shredded_json r =
     json_obj [(''key_id'', JStr (sk_key_id r)), (''shredded'', JBool (sk_shredded r))]"

interpretation shredded_wire: wire shredded_json shred_key_response_of_json "\<lambda>_. True"
  by unfold_locales
    (simp add: shredded_json_def shred_key_response_of_json_def json_obj_def to_map_def
      struct_fields_def field_def list_less_def)

definition key_list_json :: "string list \<Rightarrow> json" where
  "key_list_json ids = json_obj [(''key_ids'', JArr (map JStr ids))]"

interpretation key_list_wire: wire key_list_json key_list_of_json "\<lambda>_. True"
proof unfold_locales
  fix ids :: "string list"
  have "vec_of_json string_of_json (JArr (map JStr ids)) = Some ids"
    by (induction ids) (auto simp: vec_of_json_def)
  then show "key_list_of_json (key_list_json ids) = Some ids"
    by (simp add: key_list_json_def key_list_of_json_def json_obj_def to_map_def
        struct_fields_def field_def)
qed

section \<open>One call\<close>

text \<open>What a successful answer of the service gives, and what any other answer gives.\<close>

context wire
begin

lemma call_ok:
  assumes "reaches http d base rm_fails v st" and "as_request base rb = Some r"
    and "serve d r rm_fails v st = (Some (Ret resp), st')" and "rs_body resp = enc x"
    and "is_success (rs_status resp)" and "ok x"
  shows "client_send http dec rb = Inr x"
  using reachesD [OF assms(1-3)] assms(4-6) send_ok by auto

end

lemma call_refused:
  assumes "reaches http d base rm_fails v st" and "as_request base rb = Some r"
    and "serve d r rm_fails v st = (Some (Ret resp), st')" and "\<not> is_success (rs_status resp)"
  shows "\<exists>t. client_send http decode_answer rb = Inl (Status (rs_status resp) t)"
  using reachesD [OF assms(1-3)] assms(4) by (auto simp: client_send_def)

text \<open>The request that a call sends, as it arrives.\<close>

definition arriving ::
  "http_method \<Rightarrow> string list \<Rightarrow> string \<Rightarrow> (string \<times> string) list \<Rightarrow> request" where
  "arriving meth segs tok q =
     \<lparr>hr_method = meth, hr_path = segs, hr_auth = Some (''Bearer '' @ tok), hr_query = q,
      hr_body = None\<rparr>"

lemma as_request_arriving:
  "as_request (cl_base c) ((bare meth c (CHR ''/'' # p) tok)\<lparr>ht_query := q\<rparr>) =
     Some (arriving meth (split_slash p) tok q)"
  "as_request (cl_base c) (bare meth c (CHR ''/'' # p) tok) =
     Some (arriving meth (split_slash p) tok [])"
  using strip_prefix_append [of "cl_base c @ ''/''" p]
  by (simp_all add: as_request_def bare_def client_url_def arriving_def)

lemma split_slash_plain: "CHR ''/'' \<notin> set s \<Longrightarrow> split_slash s = [s]"
  by (induction s) auto

lemma split_slash_key: "CHR ''/'' \<notin> set i \<Longrightarrow> split_slash (''v1/keys/'' @ i) = [''v1'', ''keys'', i]"
  by (simp add: split_slash_plain)

section \<open>What a read lists\<close>

lemma is_value_obj:
  "is_value (JObj kvs) \<longleftrightarrow> sorted_wrt (<) (map fst kvs) \<and> list_all (is_value \<circ> snd) kvs"
proof
  assume "is_value (JObj kvs)"
  then have kvs: "to_map (map (map_prod id value_of) kvs) = kvs" by (simp add: is_value_def)
  then have sorted: "sorted_wrt (<) (map fst kvs)" by (metis sorted_to_map)
  have "map fst (map (map_prod id value_of) kvs) = map fst kvs" by simp
  with sorted kvs have "map (map_prod id value_of) kvs = kvs" by (metis to_map_sorted)
  then have "list_all (is_value \<circ> snd) kvs"
    by (auto simp: list_all_iff is_value_def map_idI dest!: arg_cong [where f = "map snd"])
      (metis (no_types, lifting) map_eq_conv snd_conv snd_map_prod comp_apply list.map_comp)
  with sorted show "sorted_wrt (<) (map fst kvs) \<and> list_all (is_value \<circ> snd) kvs" ..
next
  assume *: "sorted_wrt (<) (map fst kvs) \<and> list_all (is_value \<circ> snd) kvs"
  then have "map (map_prod id value_of) kvs = kvs"
    by (intro map_idI) (auto simp: list_all_iff is_value_def)
  with * show "is_value (JObj kvs)" by (simp add: is_value_def to_map_sorted)
qed

lemma index_mut_value:
  assumes "index_mut k f j = Ret v" and "is_value j"
    and "\<And>x y. is_value x \<Longrightarrow> f x = Ret y \<Longrightarrow> is_value y"
  shows "is_value v"
proof (cases j)
  case JNull
  then obtain y where "f JNull = Ret y" "v = JObj [(k, y)]"
    using assms(1) by (auto split: exec.splits)
  moreover have "is_value JNull" by (simp add: is_value_def)
  ultimately show ?thesis using assms(3) by (simp add: is_value_obj)
next
  case (JObj kvs)
  let ?x = "case map_of kvs k of None \<Rightarrow> JNull | Some x \<Rightarrow> x"
  have kvs: "sorted_wrt (<) (map fst kvs)" "list_all (is_value \<circ> snd) kvs"
    using assms(2) JObj by (simp_all add: is_value_obj)
  then have "is_value ?x"
    by (auto simp: list_all_iff is_value_def split: option.split dest!: map_of_SomeD)
  moreover obtain y where "f ?x = Ret y" "v = JObj (map_insert k y kvs)"
    using assms(1) JObj by (auto split: exec.splits)
  moreover have "set (map_insert k y kvs) \<subseteq> insert (k, y) (set kvs)" for y
    by (induction k y kvs rule: map_insert.induct) auto
  ultimately show ?thesis
    using kvs assms(3) by (fastforce simp: is_value_obj list_all_iff sorted_map_insert)
qed (use assms(1) in auto)

lemma read_entry_value:
  assumes "read_entry d key b e = Ret v"
  shows "is_value v"
proof (cases "if b then p_pii (e_payload e) else None")
  case None
  with assms show ?thesis by (auto simp: read_entry_def is_value_def)
next
  case (Some s)
  have e: "is_value (value_of (entry_json e))" by (simp add: is_value_def)
  from Some assms show ?thesis
    by (auto simp: read_entry_def Let_def open_pii_Inr is_value_def [of "JStr _"] is_value_def [of "value_of _"]
        split: exec.splits sum.splits
        intro: index_mut_value [OF _ e index_mut_value] index_mut_value)
qed

lemma read_entries_values: "read_entries d key b es = Ret out \<Longrightarrow> list_all is_value out \<and> length out = length es"
  by (induction es arbitrary: out) (auto split: exec.splits dest: read_entry_value)

section \<open>The calls of a reader\<close>

lemma build_anchor_count: "ma_count (build_merkle_anchor d s es t) = length es"
  by (simp add: build_merkle_anchor_def Let_def)

lemma proof_for_seq_small:
  "merkle_proof_for_seq d es n = Some p \<Longrightarrow> leaf_index p < length es \<and> leaf_count p = length es"
  by (auto simp: merkle_proof_for_seq_def build_merkle_proof_Some entry_leaves_def
      split: option.splits dest: position_Some)

lemma read_query_sent:
  "read_query_of ([(''decrypt'', if b then ''true'' else ''false'')]
     @ (case from of None \<Rightarrow> [] | Some f \<Rightarrow> [(''from'', show_u64 f)])
     @ (case to of None \<Rightarrow> [] | Some t \<Rightarrow> [(''to'', show_u64 t)])) =
   Some \<lparr>q_from = from, q_to = to, q_decrypt = b\<rparr>"
  by (cases "from"; cases to)
    (simp_all add: read_query_of_def query_fields_ok_def query_field_def parse_bool_def)

text \<open>The entries in a range of sequence numbers, both ends included.\<close>

definition in_range :: "u64 option \<Rightarrow> u64 option \<Rightarrow> audit_entry list \<Rightarrow> audit_entry list" where
  "in_range from to es =
     filter (\<lambda>e. (\<forall>f. from = Some f \<longrightarrow> f \<le> e_seq e) \<and> (\<forall>t. to = Some t \<longrightarrow> e_seq e \<le> t)) es"

lemma in_range_query:
  "filter (\<lambda>e. (case from of None \<Rightarrow> 0 | Some f \<Rightarrow> f) \<le> e_seq e \<and>
     e_seq e \<le> (case to of None \<Rightarrow> - 1 | Some t \<Rightarrow> t)) es = in_range from to es"
  by (auto simp: in_range_def intro!: filter_cong split: option.splits)

lemma reader_head:
  assumes "cl_read_token c = Some (as_read_token st)" and "as_read_token st \<noteq> []"
    and "reaches http d (cl_base c) rm_fails v st"
  shows "client_head http c =
    Inr \<lparr>hd_seq = wr_seq (as_writer st), hd_head_hash = wr_prev_hash (as_writer st)\<rparr>"
proof -
  let ?h = "\<lparr>hd_seq = wr_seq (as_writer st), hd_head_hash = wr_prev_hash (as_writer st)\<rparr>"
  have "serve d (arriving GET [''v1'', ''head''] (as_read_token st) []) rm_fails v st =
      (Some (Ret (ok_json (head_answer_json ?h))), st)"
    using require_bearer [OF assms(2)]
    by (simp add: serve_def route_def dispatch_def head_handler_def audit_head_def app_log_def
        arriving_def head_answer_json_def del: append.simps)
  from head_wire.call_ok [OF assms(3) as_request_arriving(2) [of c GET "''v1/head''", simplified] this]
  show ?thesis
    using assms(1) by (simp add: client_head_def read_tok_def ok_json_def is_success_def)
qed

lemma reader_signed:
  assumes "cl_read_token c = Some (as_read_token st)" and "as_read_token st \<noteq> []"
    and "reaches http d (cl_base c) rm_fails v st" and "as_signer st = Some s"
  shows "client_checkpoint http c =
      Inr (sign d s (wr_seq (as_writer st)) (wr_prev_hash (as_writer st)) (now_ms (env_clock v)))"
    and "read_log d (app_data st) = Inr es \<Longrightarrow> length es < 2 ^ 64 \<Longrightarrow>
      client_merkle_anchor http c = Inr (build_merkle_anchor d s es (now_ms (env_clock v)))"
proof -
  note auth = require_bearer [OF assms(2)]
  have "serve d (arriving GET [''v1'', ''checkpoint''] (as_read_token st) []) rm_fails v st =
      (Some (Ret (ok_json (checkpoint_json
        (sign d s (wr_seq (as_writer st)) (wr_prev_hash (as_writer st)) (now_ms (env_clock v)))))), st)"
    using auth assms(4)
    by (simp add: serve_def route_def dispatch_def checkpoint_handler_def audit_head_def app_log_def
        arriving_def del: append.simps)
  from checkpoint_wire.call_ok [OF assms(3)
      as_request_arriving(2) [of c GET "''v1/checkpoint''", simplified] this]
  show "client_checkpoint http c =
      Inr (sign d s (wr_seq (as_writer st)) (wr_prev_hash (as_writer st)) (now_ms (env_clock v)))"
    using assms(1) by (simp add: client_checkpoint_def read_tok_def ok_json_def is_success_def)
  show "client_merkle_anchor http c = Inr (build_merkle_anchor d s es (now_ms (env_clock v)))"
    if es: "read_log d (app_data st) = Inr es" "length es < 2 ^ 64"
  proof -
    have "serve d (arriving GET [''v1'', ''merkle-anchor''] (as_read_token st) []) rm_fails v st =
        (Some (Ret (ok_json (merkle_anchor_json
          (build_merkle_anchor d s es (now_ms (env_clock v)))))), st)"
      using auth assms(4) es
      by (simp add: serve_def route_def dispatch_def merkle_anchor_handler_def arriving_def
          del: append.simps)
    from anchor_wire.call_ok [OF assms(3)
        as_request_arriving(2) [of c GET "''v1/merkle-anchor''", simplified] this]
    show ?thesis
      using assms(1) es(2)
      by (simp add: client_merkle_anchor_def read_tok_def ok_json_def is_success_def build_anchor_count)
  qed
qed

lemma reader_unsigned:
  assumes "cl_read_token c = Some (as_read_token st)" and "as_read_token st \<noteq> []"
    and "reaches http d (cl_base c) rm_fails v st" and "as_signer st = None"
  shows "\<exists>t. client_checkpoint http c = Inl (Status 501 t)"
    and "\<exists>t. client_merkle_anchor http c = Inl (Status 501 t)"
proof -
  note auth = require_bearer [OF assms(2)]
  have "serve d (arriving GET [''v1'', ''checkpoint''] (as_read_token st) []) rm_fails v st =
      (Some (Ret no_signer), st)"
    using auth assms(4)
    by (simp add: serve_def route_def dispatch_def checkpoint_handler_def arriving_def
        del: append.simps)
  from call_refused [OF assms(3) as_request_arriving(2) [of c GET "''v1/checkpoint''", simplified] this,
      of checkpoint_of_json]
  show "\<exists>t. client_checkpoint http c = Inl (Status 501 t)"
    using assms(1)
    by (simp add: client_checkpoint_def read_tok_def no_signer_def api_error_def is_success_def)
  have "serve d (arriving GET [''v1'', ''merkle-anchor''] (as_read_token st) []) rm_fails v st =
      (Some (Ret no_signer), st)"
    using auth assms(4)
    by (simp add: serve_def route_def dispatch_def merkle_anchor_handler_def arriving_def
        del: append.simps)
  from call_refused [OF assms(3) as_request_arriving(2) [of c GET "''v1/merkle-anchor''", simplified]
      this, of merkle_anchor_of_json]
  show "\<exists>t. client_merkle_anchor http c = Inl (Status 501 t)"
    using assms(1)
    by (simp add: client_merkle_anchor_def read_tok_def no_signer_def api_error_def is_success_def)
qed

lemma proof_query_sent: "proof_query_of [(''seq'', show_u64 n)] = Some n"
  by (simp add: proof_query_of_def query_fields_ok_def query_field_def)

lemma reader_proof:
  assumes "cl_read_token c = Some (as_read_token st)" and "as_read_token st \<noteq> []"
    and "reaches http d (cl_base c) rm_fails v st"
    and "read_log d (app_data st) = Inr es" and "length es < 2 ^ 64"
  shows "case merkle_proof_for_seq d es n of
      None \<Rightarrow> \<exists>t. client_merkle_proof http c n = Inl (Status 404 t)
    | Some p \<Rightarrow> client_merkle_proof http c n =
        Inr \<lparr>mr_seq = n, mr_leaf = map_option e_entry_hash (find (\<lambda>e. e_seq e = n) es),
             mr_root = merkle_root d (entry_leaves es), mr_proof = p\<rparr>"
proof -
  note auth = require_bearer [OF assms(2)]
  note arrives = as_request_arriving(1) [where c = c and meth = GET and p = "''v1/merkle-proof''" and
      q = "[(''seq'', show_u64 n)]", simplified]
  show ?thesis
  proof (cases "merkle_proof_for_seq d es n")
    case None
    then have "serve d (arriving GET [''v1'', ''merkle-proof''] (as_read_token st)
        [(''seq'', show_u64 n)]) rm_fails v st =
        (Some (Ret (api_error 404 (''no entry with seq '' @ show_u64 n))), st)"
      using auth assms(4)
      by (simp add: serve_def route_def dispatch_def merkle_proof_handler_def arriving_def
          proof_query_sent del: append.simps)
    from call_refused [OF assms(3) arrives this, of merkle_proof_response_of_json] None
    show ?thesis
      using assms(1)
      by (simp add: client_merkle_proof_def read_tok_def api_error_def is_success_def)
  next
    case (Some p)
    let ?r = "\<lparr>mr_seq = n, mr_leaf = map_option e_entry_hash (find (\<lambda>e. e_seq e = n) es),
      mr_root = merkle_root d (entry_leaves es), mr_proof = p\<rparr>"
    have "serve d (arriving GET [''v1'', ''merkle-proof''] (as_read_token st)
        [(''seq'', show_u64 n)]) rm_fails v st = (Some (Ret (ok_json (proof_answer_json ?r))), st)"
      using auth assms(4) Some
      by (simp add: serve_def route_def dispatch_def merkle_proof_handler_def arriving_def
          proof_query_sent proof_answer_json_def Let_def del: append.simps)
    from proof_answer_wire.call_ok [OF assms(3) arrives this]
    show ?thesis
      using assms(1,5) Some proof_for_seq_small [OF Some]
      by (simp add: client_merkle_proof_def read_tok_def ok_json_def is_success_def)
  qed
qed

lemma reader_records:
  assumes "cl_read_token c = Some (as_read_token st)" and "as_read_token st \<noteq> []"
    and "reaches http d (cl_base c) rm_fails v st"
    and "read_log d (app_data st) = Inr es" and "length es < 2 ^ 64"
    and "read_entries d (wr_provider (as_writer st)) b (in_range from to es) = Ret out"
  shows "client_read http c from to b = Inr \<lparr>rr_count = length out, rr_entries = out\<rparr>"
proof -
  let ?q = "[(''decrypt'', if b then ''true'' else ''false'')]
     @ (case from of None \<Rightarrow> [] | Some f \<Rightarrow> [(''from'', show_u64 f)])
     @ (case to of None \<Rightarrow> [] | Some t \<Rightarrow> [(''to'', show_u64 t)])"
  note auth = require_bearer [OF assms(2)]
  have serve: "serve d (arriving GET [''v1'', ''records''] (as_read_token st) ?q) rm_fails v st =
      (Some (Ret (ok_json (read_answer_json \<lparr>rr_count = length out, rr_entries = out\<rparr>))), st)"
    using auth assms(4,6) read_query_sent [of b "from" to]
    by (simp add: serve_def route_def dispatch_def read_records_def arriving_def read_answer_json_def
        in_range_query Let_def del: append.simps)
  have ok: "length out < 2 ^ 64" "list_all is_value out"
    using assms(5) read_entries_values [OF assms(6)]
    by (simp_all add: in_range_def le_less_trans [OF length_filter_le])
  have "client_send http read_response_of_json
      ((bare GET c ''/v1/records'' (as_read_token st))\<lparr>ht_query := ?q\<rparr>) =
      Inr \<lparr>rr_count = length out, rr_entries = out\<rparr>"
    by (rule read_wire.call_ok [OF assms(3)
        as_request_arriving(1) [where c = c and meth = GET and p = "''v1/records''" and q = ?q,
          unfolded split_slash_paths] serve])
      (use ok in \<open>simp_all add: ok_json_def is_success_def\<close>)
  then show ?thesis
    using assms(1) by (cases b) (simp_all add: client_read_def read_tok_def Let_def)
qed



section \<open>The calls of an administrator\<close>

definition key_ids :: "app_state \<Rightarrow> string set" where
  "key_ids st = (case wr_provider (as_writer st) of
     MasterKey _ \<Rightarrow> {} | Ring k \<Rightarrow> dom (map_of (kr_cache k)))"

lemma ensure_ids:
  assumes "keyring_ensure d k i v = (r, k', u)"
  shows "case r of
      Inl _ \<Rightarrow> dom (map_of (kr_cache k')) = dom (map_of (kr_cache k))
    | Inr created \<Rightarrow> created = (i \<notin> dom (map_of (kr_cache k))) \<and>
        dom (map_of (kr_cache k')) = insert i (dom (map_of (kr_cache k)))"
  using assms
  by (auto simp: keyring_ensure_def Let_def update_conv' dom_def
      split: if_splits prod.splits sum.splits option.splits)

lemma shred_ids:
  assumes "keyring_shred k i False = (r, k')"
  shows "case r of
      Inl _ \<Rightarrow> dom (map_of (kr_cache k')) = dom (map_of (kr_cache k))
    | Inr shredded \<Rightarrow> shredded = (i \<in> dom (map_of (kr_cache k)) \<or> map_of (kr_dir k) (key_path i) \<noteq> None) \<and>
        dom (map_of (kr_cache k')) = dom (map_of (kr_cache k)) - {i}"
  using assms
  by (auto simp: keyring_shred_def Let_def delete_conv' dom_def split: if_splits)


definition sample_admin :: client where
  "sample_admin = client_build (builder_admin_token ''a'' (client_builder_new ''http://h/''))"


end
