(* ===== verification/Cli.thy ===== *)
theory Cli
  imports Server
begin

text \<open>
  The command line tool (\<open>crates/cli/src/main.rs\<close>): its commands on a file system, with what they
  print, what they leave behind and how they end. Parsing the command line is \<open>clap\<close>'s; the two
  options of \<open>prune\<close> and of \<open>inspect\<close> that \<open>clap\<close> declares to be in conflict are resolved as the
  code does it.
\<close>

section \<open>The file system\<close>

datatype node = NFile bytes | NDir dir

type_synonym fsys = "string \<rightharpoonup> node"

text \<open>\<open>Box<dyn Error>\<close>: an error of the core crate, of the file system or of \<open>serde_json\<close>.\<close>

datatype cli_error = CoreError error | IoError io_error | JsonError

type_synonym 'a cli_call = "cli_error + 'a"

definition core :: "'a result \<Rightarrow> 'a cli_call" where
  "core r = (case r of Inl e \<Rightarrow> Inl (CoreError e) | Inr x \<Rightarrow> Inr x)"

definition read_to_string :: "fsys \<Rightarrow> string \<Rightarrow> bytes cli_call" where
  "read_to_string fs p =
     (case fs p of
        None \<Rightarrow> Inl (IoError NotFound)
      | Some (NDir _) \<Rightarrow> Inl (IoError OsError)
      | Some (NFile bs) \<Rightarrow> if utf8_valid bs then Inr bs else Inl (IoError InvalidUtf8))"

text \<open>\<open>serde_json::from_str::<T>\<close>.\<close>

definition from_str :: "crates \<Rightarrow> (json \<Rightarrow> 'a option) \<Rightarrow> bytes \<Rightarrow> 'a cli_call" where
  "from_str d dec bs =
     (case Option.bind (sj_from_slice d bs) dec of None \<Rightarrow> Inl JsonError | Some x \<Rightarrow> Inr x)"

definition load_json :: "crates \<Rightarrow> (json \<Rightarrow> 'a option) \<Rightarrow> fsys \<Rightarrow> string \<Rightarrow> 'a cli_call" where
  "load_json d dec fs p =
     (case read_to_string fs p of Inl e \<Rightarrow> Inl e | Inr raw \<Rightarrow> from_str d dec raw)"

text \<open>A file whose text parses to an encoded value is loaded as that value.\<close>

context wire
begin

lemma load_ok:
  "ok x \<Longrightarrow> fs p = Some (NFile bs) \<Longrightarrow> utf8_valid bs \<Longrightarrow> sj_from_slice d bs = Some (enc x) \<Longrightarrow>
   load_json d dec fs p = Inr x"
  by (simp add: load_json_def read_to_string_def from_str_def decode)

end

definition load_checkpoint :: "crates \<Rightarrow> fsys \<Rightarrow> string \<Rightarrow> checkpoint cli_call" where
  "load_checkpoint d fs p = load_json d checkpoint_of_json fs p"

definition load_entries :: "crates \<Rightarrow> fsys \<Rightarrow> string \<Rightarrow> audit_entry list cli_call" where
  "load_entries d fs p =
     core (case fs p of
             Some (NDir files) \<Rightarrow> read_all_segmented d (Some files)
           | Some (NFile bs) \<Rightarrow> read_all d (Some bs)
           | None \<Rightarrow> read_all d None)"

text \<open>The directory at a path as \<open>fs::read_dir\<close> sees it, and the change of one.\<close>

definition dir_at :: "fsys \<Rightarrow> string \<Rightarrow> dir option" where
  "dir_at fs p = (case fs p of Some (NDir files) \<Rightarrow> Some files | _ \<Rightarrow> None)"

definition put_dir :: "string \<Rightarrow> dir option \<Rightarrow> fsys \<Rightarrow> fsys" where
  "put_dir p dir fs = (case dir of None \<Rightarrow> fs | Some files \<Rightarrow> fs(p \<mapsto> NDir files))"

text \<open>\<open>KeyringProvider::open\<close> at a path: the directory is made if there is nothing.\<close>

definition open_keyring :: "crates \<Rightarrow> fsys \<Rightarrow> string \<Rightarrow> env \<Rightarrow> keyring cli_call" where
  "open_keyring d fs p v =
     (case fs p of
        Some (NFile _) \<Rightarrow> Inl (CoreError (Io OsError))
      | _ \<Rightarrow> core (keyring_open_at d (dir_at fs p) False v))"

section \<open>Runs\<close>

text \<open>What goes to the standard output: pretty or compact JSON, or text.\<close>

datatype printed = Pretty json | Compact json | Line string

datatype ended = Success_code | Failure_code | Failed cli_error | Panicked

record run_result =
  ru_end :: ended
  ru_out :: "printed list"
  ru_err :: "string list"
  ru_fs :: fsys

definition run_of :: "fsys \<Rightarrow> ended \<Rightarrow> printed list \<Rightarrow> string list \<Rightarrow> run_result" where
  "run_of fs x out err = \<lparr>ru_end = x, ru_out = out, ru_err = err, ru_fs = fs\<rparr>"

definition fail :: "fsys \<Rightarrow> cli_error \<Rightarrow> run_result" where
  "fail fs e = run_of fs (Failed e) [] []"

definition exit_code :: "bool \<Rightarrow> ended" where
  "exit_code ok = (if ok then Success_code else Failure_code)"

datatype command =
    Keygen "string option"
  | GenSignKey
  | Verify string "string option" "string option"  \<comment> \<open>path, checkpoint, anchor\<close>
  | Checkpoint string string
  | Head string
  | Prune string "u64 option" "i64 option"
  | Inspect string "u64 option" "u64 option" "string option" "string option"
  | Shred string string
  | MerkleAnchor string string
  | MerkleProof string u64
  | MerkleVerify string "string option"

section \<open>Keys\<close>

text \<open>\<open>fs::write\<close>: the file is made or emptied, then written.\<close>

definition write_file :: "string \<Rightarrow> bytes \<Rightarrow> env \<Rightarrow> fsys \<Rightarrow> unit cli_call \<times> fsys" where
  "write_file p bs v fs =
     (case (fs p, env_fault v) of
        (Some (NDir _), _) \<Rightarrow> (Inl (IoError OsError), fs)
      | (_, OpenFault) \<Rightarrow> (Inl (IoError OsError), fs)
      | (_, WriteFault n) \<Rightarrow> (Inl (IoError OsError), fs(p \<mapsto> NFile (take n bs)))
      | _ \<Rightarrow> (Inr (), fs(p \<mapsto> NFile bs)))"

definition keygen :: "crates \<Rightarrow> string option \<Rightarrow> env \<Rightarrow> fsys \<Rightarrow> run_result" where
  "keygen d out v fs =
     (case local_generate v of
        Inl e \<Rightarrow> fail fs (CoreError e)
      | Inr key \<Rightarrow>
          let b64 = local_to_base64 d key in
          (case out of
             Some p \<Rightarrow>
               (case write_file p (as_bytes b64) v fs of
                  (Inl e, fs') \<Rightarrow> fail fs' e
                | (Inr _, fs') \<Rightarrow> run_of fs' Success_code [] [''wrote master key to '' @ p])
           | None \<Rightarrow> run_of fs Success_code [Line b64] []))"

definition gen_sign_key :: "crates \<Rightarrow> env \<Rightarrow> fsys \<Rightarrow> run_result" where
  "gen_sign_key d v fs =
     (case signer_generate v of
        Inl e \<Rightarrow> fail fs (CoreError e)
      | Inr signer \<Rightarrow>
          run_of fs Success_code
            [Pretty (json_obj [(''secret'', JStr (secret_base64 d signer)),
                               (''public'', JStr (public_base64 d signer))])] [])"

section \<open>Verifying\<close>

definition load_anchor :: "crates \<Rightarrow> fsys \<Rightarrow> string option \<Rightarrow> anchor option cli_call" where
  "load_anchor d fs anc =
     (case anc of
        None \<Rightarrow> Inr None
      | Some p \<Rightarrow>
          (case load_checkpoint d fs p of
             Inl e \<Rightarrow> Inl e
           | Inr cp \<Rightarrow>
               (case verify_checkpoint d cp of
                  Inl e \<Rightarrow> Inl (CoreError e)
                | Inr _ \<Rightarrow> Inr (Some \<lparr>a_seq = cp_seq cp, a_hash = cp_head_hash cp\<rparr>))))"

definition verdict :: "verify_report \<Rightarrow> string" where
  "verdict report =
     (if is_valid report
      then ''OK: '' @ show_u64 (entries_checked report) @ '' entries, chain intact''
      else ''FAIL: '' @ show_nat (length (violations report)) @ '' violation(s) across ''
           @ show_u64 (entries_checked report) @ '' entries'')"

text \<open>The comparison of the head with a signed checkpoint: whether it holds, and what is printed.\<close>

definition check_head :: "crates \<Rightarrow> verify_report \<Rightarrow> checkpoint \<Rightarrow> bool \<times> string" where
  "check_head d report cp =
     (case verify_checkpoint d cp of
        Inl e \<Rightarrow> (False, ''FAIL: checkpoint signature invalid: '' @ error_to_string e)
      | Inr _ \<Rightarrow>
          (case report_head report of
             None \<Rightarrow> (False, ''FAIL: log is empty but a checkpoint was supplied'')
           | Some (s, h) \<Rightarrow>
               if s = cp_seq cp \<and> h = cp_head_hash cp
               then (True, ''OK: head matches signed checkpoint (seq '' @ show_u64 (cp_seq cp) @ '')'')
               else (False, ''FAIL: head ('' @ show_u64 s @ '', '' @ h @ '') != checkpoint (''
                            @ show_u64 (cp_seq cp) @ '', '' @ cp_head_hash cp @ '')'')))"

definition verify_cmd ::
  "crates \<Rightarrow> string \<Rightarrow> string option \<Rightarrow> string option \<Rightarrow> fsys \<Rightarrow> run_result" where
  "verify_cmd d p cpath anc fs =
     (case load_entries d fs p of
        Inl e \<Rightarrow> fail fs e
      | Inr entries \<Rightarrow>
     (case load_anchor d fs anc of
        Inl e \<Rightarrow> fail fs e
      | Inr anchor_val \<Rightarrow>
          let report = verify_entries_from d anchor_val entries;
              ok = is_valid report;
              out = [Pretty (report_json report)];
              err = [verdict report] in
          (case cpath of
             None \<Rightarrow> run_of fs (exit_code ok) out err
           | Some q \<Rightarrow>
               (case load_checkpoint d fs q of
                  Inl e \<Rightarrow> run_of fs (Failed e) out err
                | Inr cp \<Rightarrow>
                    (case check_head d report cp of
                       (matches, msg) \<Rightarrow> run_of fs (exit_code (ok \<and> matches)) out (err @ [msg]))))))"

definition checkpoint_cmd :: "crates \<Rightarrow> string \<Rightarrow> string \<Rightarrow> env \<Rightarrow> fsys \<Rightarrow> run_result" where
  "checkpoint_cmd d p sign_key v fs =
     (case load_entries d fs p of
        Inl e \<Rightarrow> fail fs e
      | Inr entries \<Rightarrow>
          let (s, h) = (case last_opt entries of
                          Some e \<Rightarrow> (e_seq e, e_entry_hash e)
                        | None \<Rightarrow> (0, GENESIS_PREV_HASH)) in
          (case signer_from_base64 d sign_key of
             Inl e \<Rightarrow> fail fs (CoreError e)
           | Inr signer \<Rightarrow>
               run_of fs Success_code
                 [Pretty (checkpoint_json (sign d signer s h (now_ms (env_clock v))))] []))"

definition head_cmd :: "crates \<Rightarrow> string \<Rightarrow> fsys \<Rightarrow> run_result" where
  "head_cmd d p fs =
     (case load_entries d fs p of
        Inl e \<Rightarrow> fail fs e
      | Inr entries \<Rightarrow>
          run_of fs Success_code
            [case last_opt entries of
               Some e \<Rightarrow>
                 Pretty (json_obj [(''seq'', json_u64 (e_seq e)),
                   (''head_hash'', JStr (e_entry_hash e)),
                   (''timestamp'', json_i64 (e_timestamp e))])
             | None \<Rightarrow> Line (''{'' @ [CHR 0x22] @ ''seq'' @ [CHR 0x22] @ '':0,'' @ [CHR 0x22]
                         @ ''head_hash'' @ [CHR 0x22] @ '':null}'')] [])"

section \<open>Retention\<close>

text \<open>\<open>now_ms() - days * 86_400_000\<close>, in 64 bits.\<close>

definition prune_cutoff :: "env \<Rightarrow> i64 \<Rightarrow> i64" where
  "prune_cutoff v days = now_ms (env_clock v) - days * 86400000"

text \<open>An operation on a directory; \<open>fs::read_dir\<close> fails on what exists and is a file.\<close>

definition at_dir ::
  "fsys \<Rightarrow> string \<Rightarrow> (dir option \<Rightarrow> 'a result \<times> dir option) \<Rightarrow> 'a result \<times> dir option" where
  "at_dir fs p f =
     (case fs p of
        Some (NFile _) \<Rightarrow> (Inl (Io OsError), None)
      | _ \<Rightarrow> f (dir_at fs p))"

definition prune_cmd ::
  "crates \<Rightarrow> string \<Rightarrow> u64 option \<Rightarrow> i64 option \<Rightarrow> (string \<Rightarrow> bool) \<Rightarrow> env \<Rightarrow> fsys \<Rightarrow> run_result" where
  "prune_cmd d p before_seq before_days rm_fails v fs =
     (case (case (before_seq, before_days) of
              (Some s, _) \<Rightarrow> Some (at_dir fs p (\<lambda>dir. prune_before d dir s rm_fails))
            | (None, Some days) \<Rightarrow>
                Some (at_dir fs p
                  (\<lambda>dir. prune_before_timestamp d dir (prune_cutoff v days) rm_fails))
            | (None, None) \<Rightarrow> None) of
        None \<Rightarrow> run_of fs Failure_code [] [''error: specify --before-seq or --before-days'']
      | Some (r, dir') \<Rightarrow>
          let fs' = put_dir p dir' fs in
          (case r of
             Inl e \<Rightarrow> fail fs' (CoreError e)
           | Inr (Some a) \<Rightarrow>
               run_of fs' Success_code
                 [Pretty (json_obj [(''anchor_seq'', json_u64 (a_seq a)),
                                    (''anchor_hash'', JStr (a_hash a))])]
                 [''pruned; sign and keep this anchor so the log still verifies:'']
           | Inr None \<Rightarrow>
               run_of fs' Success_code []
                 [''nothing pruned (need >1 segment and entries below the boundary)'']))"

section \<open>Inspecting and shredding\<close>

definition inspect_entry :: "crates \<Rightarrow> provider option \<Rightarrow> audit_entry \<Rightarrow> json exec" where
  "inspect_entry d prov e =
     (let v = value_of (entry_json e) in
      case (prov, p_pii (e_payload e)) of
        (Some k, Some pii) \<Rightarrow>
          (case open_pii d (provider_ops d) k pii of
             Panic \<Rightarrow> Panic
           | Ret (Inr plain) \<Rightarrow>
               index_mut ''payload'' (index_mut ''pii_plaintext'' (\<lambda>_. Ret plain)) v
           | Ret (Inl err) \<Rightarrow>
               index_mut ''payload''
                 (index_mut ''pii_error'' (\<lambda>_. Ret (JStr (error_to_string err)))) v)
      | _ \<Rightarrow> Ret v)"

text \<open>The loop prints entry after entry; a panic ends it after what has been printed.\<close>

fun inspect_loop :: "crates \<Rightarrow> provider option \<Rightarrow> audit_entry list \<Rightarrow> printed list \<Rightarrow> ended \<times> printed list" where
  "inspect_loop d prov [] out = (Success_code, out)"
| "inspect_loop d prov (e # es) out =
     (case inspect_entry d prov e of
        Panic \<Rightarrow> (Panicked, out)
      | Ret v \<Rightarrow> inspect_loop d prov es (out @ [Compact v]))"

definition inspect_cmd ::
  "crates \<Rightarrow> string \<Rightarrow> u64 option \<Rightarrow> u64 option \<Rightarrow> string option \<Rightarrow> string option \<Rightarrow> env \<Rightarrow> fsys
   \<Rightarrow> run_result" where
  "inspect_cmd d p from to key ring v fs =
     (case load_entries d fs p of
        Inl e \<Rightarrow> fail fs e
      | Inr entries \<Rightarrow>
     (case (case (key, ring) of
              (Some b64, _) \<Rightarrow>
                (case local_from_base64 d b64 of
                   Inl e \<Rightarrow> Inl (CoreError e) | Inr k \<Rightarrow> Inr (Some (MasterKey k), fs))
            | (None, Some q) \<Rightarrow>
                (case open_keyring d fs q v of
                   Inl e \<Rightarrow> Inl e | Inr k \<Rightarrow> Inr (Some (Ring k), put_dir q (Some (kr_dir k)) fs))
            | (None, None) \<Rightarrow> Inr (None, fs)) of
        Inl e \<Rightarrow> fail fs e
      | Inr (prov, fs') \<Rightarrow>
          let lo = (case from of None \<Rightarrow> 0 | Some f \<Rightarrow> f);
              hi = (case to of None \<Rightarrow> - 1 | Some t \<Rightarrow> t) in
          (case inspect_loop d prov (filter (\<lambda>e. e_seq e \<ge> lo \<and> e_seq e \<le> hi) entries) [] of
             (x, out) \<Rightarrow> run_of fs' x out [])))"

definition shred_cmd :: "crates \<Rightarrow> string \<Rightarrow> string \<Rightarrow> bool \<Rightarrow> env \<Rightarrow> fsys \<Rightarrow> run_result" where
  "shred_cmd d p i rm_fails v fs =
     (case open_keyring d fs p v of
        Inl e \<Rightarrow> fail fs e
      | Inr k \<Rightarrow>
          (case keyring_shred k i rm_fails of
             (r, k') \<Rightarrow>
               let fs' = put_dir p (Some (kr_dir k')) fs in
               (case r of
                  Inl e \<Rightarrow> fail fs' (CoreError e)
                | Inr True \<Rightarrow>
                    run_of fs' Success_code [] [''crypto-shredded key_id ; its PII is now unrecoverable'']
                | Inr False \<Rightarrow> run_of fs' Failure_code [] [''no key found for key_id ''])))"

section \<open>Merkle anchors and proofs\<close>

definition merkle_anchor_cmd :: "crates \<Rightarrow> string \<Rightarrow> string \<Rightarrow> env \<Rightarrow> fsys \<Rightarrow> run_result" where
  "merkle_anchor_cmd d p sign_key v fs =
     (case load_entries d fs p of
        Inl e \<Rightarrow> fail fs e
      | Inr entries \<Rightarrow>
     (case signer_from_base64 d sign_key of
        Inl e \<Rightarrow> fail fs (CoreError e)
      | Inr signer \<Rightarrow>
          run_of fs Success_code
            [Pretty (merkle_anchor_json
              (build_merkle_anchor d signer entries (now_ms (env_clock v))))] []))"

record proof_bundle =
  pb_seq :: u64
  pb_leaf :: string
  pb_root :: string
  pb_proof :: merkle_proof

definition bundle_json :: "proof_bundle \<Rightarrow> json" where
  "bundle_json b =
     JObj [(''seq'', json_u64 (pb_seq b)), (''leaf'', JStr (pb_leaf b)),
           (''root'', JStr (pb_root b)), (''proof'', proof_json (pb_proof b))]"

definition bundle_of_json :: "json \<Rightarrow> proof_bundle option" where
  "bundle_of_json j =
     (case struct_fields [''seq'', ''leaf'', ''root'', ''proof''] j of
        None \<Rightarrow> None
      | Some f \<Rightarrow>
          (case (field f ''seq'' u64_of_json, field f ''leaf'' string_of_json,
                 field f ''root'' string_of_json, field f ''proof'' proof_of_json) of
             (Some s, Some l, Some r, Some p) \<Rightarrow>
               Some \<lparr>pb_seq = s, pb_leaf = l, pb_root = r, pb_proof = p\<rparr>
           | _ \<Rightarrow> None))"

lemma bundle_roundtrip:
  assumes "leaf_index (pb_proof b) < 2 ^ 64" and "leaf_count (pb_proof b) < 2 ^ 64"
  shows "bundle_of_json (bundle_json b) = Some b"
  using proof_roundtrip [OF assms]
  by (simp add: bundle_of_json_def bundle_json_def struct_fields_def field_def)

interpretation bundle_wire: wire bundle_json bundle_of_json
  "\<lambda>b. leaf_index (pb_proof b) < 2 ^ 64 \<and> leaf_count (pb_proof b) < 2 ^ 64"
  by unfold_locales (simp add: bundle_roundtrip)

definition merkle_proof_cmd :: "crates \<Rightarrow> string \<Rightarrow> u64 \<Rightarrow> fsys \<Rightarrow> run_result" where
  "merkle_proof_cmd d p s fs =
     (case load_entries d fs p of
        Inl e \<Rightarrow> fail fs e
      | Inr entries \<Rightarrow>
     (case merkle_proof_for_seq d entries s of
        None \<Rightarrow> run_of fs Failure_code [] [''no entry with seq '' @ show_u64 s]
      | Some pr \<Rightarrow>
          let leaf = unwrap_or_default (map_option e_entry_hash (find (\<lambda>e. e_seq e = s) entries));
              bundle = \<lparr>pb_seq = s, pb_leaf = leaf,
                        pb_root = merkle_root d (entry_leaves entries), pb_proof = pr\<rparr> in
          run_of fs Success_code [Pretty (bundle_json bundle)] []))"

definition check_root :: "crates \<Rightarrow> proof_bundle \<Rightarrow> merkle_anchor \<Rightarrow> bool \<times> string" where
  "check_root d b a =
     (case verify_merkle_anchor d a of
        Inr _ \<Rightarrow>
          if ma_root a = pb_root b
          then (True, ''OK: anchor signature valid and root matches'')
          else (False, ''FAIL: anchor root '' @ ma_root a @ '' != proof root '' @ pb_root b)
      | Inl e \<Rightarrow> (False, ''FAIL: anchor signature invalid: '' @ error_to_string e))"

definition merkle_verify_cmd :: "crates \<Rightarrow> string \<Rightarrow> string option \<Rightarrow> fsys \<Rightarrow> run_result" where
  "merkle_verify_cmd d p apath fs =
     (case load_json d bundle_of_json fs p of
        Inl e \<Rightarrow> fail fs e
      | Inr b \<Rightarrow>
     (case verify_merkle_proof d (as_bytes (pb_leaf b)) (pb_proof b) (pb_root b) of
        Inl e \<Rightarrow> fail fs (CoreError e)
      | Inr ok \<Rightarrow>
          let err = [if ok then ''OK: leaf is included in root '' @ pb_root b
                     else ''FAIL: inclusion proof does not validate''] in
          (case apath of
             None \<Rightarrow> run_of fs (exit_code ok) [] err
           | Some q \<Rightarrow>
               (case load_json d merkle_anchor_of_json fs q of
                  Inl e \<Rightarrow> run_of fs (Failed e) [] err
                | Inr a \<Rightarrow>
                    (case check_root d b a of
                       (same, msg) \<Rightarrow> run_of fs (exit_code (ok \<and> same)) [] (err @ [msg]))))))"

section \<open>\<open>run\<close> and \<open>main\<close>\<close>

definition run :: "crates \<Rightarrow> command \<Rightarrow> (string \<Rightarrow> bool) \<Rightarrow> env \<Rightarrow> fsys \<Rightarrow> run_result" where
  "run d c rm_fails v fs =
     (case c of
        Keygen out \<Rightarrow> keygen d out v fs
      | GenSignKey \<Rightarrow> gen_sign_key d v fs
      | Verify p cpath anc \<Rightarrow> verify_cmd d p cpath anc fs
      | Checkpoint p k \<Rightarrow> checkpoint_cmd d p k v fs
      | Head p \<Rightarrow> head_cmd d p fs
      | Prune p s days \<Rightarrow> prune_cmd d p s days rm_fails v fs
      | Inspect p lo hi key ring \<Rightarrow> inspect_cmd d p lo hi key ring v fs
      | Shred p i \<Rightarrow> shred_cmd d p i (rm_fails (key_path i)) v fs
      | MerkleAnchor p k \<Rightarrow> merkle_anchor_cmd d p k v fs
      | MerkleProof p s \<Rightarrow> merkle_proof_cmd d p s fs
      | MerkleVerify p a \<Rightarrow> merkle_verify_cmd d p a fs)"

fun cli_error_to_string :: "cli_error \<Rightarrow> string" where
  "cli_error_to_string (CoreError e) = error_to_string e"
| "cli_error_to_string (IoError e) = []"
| "cli_error_to_string JsonError = []"

text \<open>The exit status of the process; 101 is that of a panic.\<close>

definition main :: "crates \<Rightarrow> command \<Rightarrow> (string \<Rightarrow> bool) \<Rightarrow> env \<Rightarrow> fsys \<Rightarrow> nat \<times> run_result" where
  "main d c rm_fails v fs =
     (let r = run d c rm_fails v fs in
      case ru_end r of
        Success_code \<Rightarrow> (0, r)
      | Failure_code \<Rightarrow> (1, r)
      | Failed e \<Rightarrow> (1, r\<lparr>ru_err := ru_err r @ [''error: '' @ cli_error_to_string e]\<rparr>)
      | Panicked \<Rightarrow> (101, r))"

end
