(* ===== verification/Tools.thy ===== *)
theory Tools
  imports Cli Integrity Retention Anchoring Durability
begin

text \<open>
  The properties of the command line tool: what its exit status says, and that its commands fit
  together: a pruned log verifies from the anchor that \<open>prune\<close> prints, and what \<open>merkle-proof\<close> and
  \<open>merkle-anchor\<close> print passes \<open>merkle-verify\<close>.
\<close>

section \<open>Helper lemmas\<close>

lemma exit_zero:
  "fst (main d c rm_fails v fs) = 0 \<longleftrightarrow> ru_end (run d c rm_fails v fs) = Success_code"
  by (simp add: main_def Let_def split: ended.splits)

lemma run_of_simps [simp]:
  "ru_end (run_of fs x out err) = x" "ru_out (run_of fs x out err) = out"
  "ru_fs (run_of fs x out err) = fs" "ru_end (fail fs e) = Failed e" "ru_out (fail fs e) = []"
  "ru_fs (fail fs e) = fs"
  by (simp_all add: run_of_def fail_def)

lemma exit_code_Success [simp]: "exit_code b = Success_code \<longleftrightarrow> b"
  by (simp add: exit_code_def)

lemma anchor_exists:
  "(\<exists>es a. L es \<and> (a \<noteq> None \<and> P (base_of a)) \<and> R es (base_of a)) \<longleftrightarrow> (\<exists>es b. L es \<and> P b \<and> R es b)"
proof -
  have "\<exists>a. a \<noteq> None \<and> base_of a = b" for b
    by (rule exI [of _ "Some \<lparr>a_seq = fst b, a_hash = snd b\<rparr>"]) (simp add: base_of_def)
  then show ?thesis by metis
qed

text \<open>A checkpoint file with a valid signature, and the pair that it states.\<close>

definition trusts :: "crates \<Rightarrow> fsys \<Rightarrow> string \<Rightarrow> u64 \<times> string \<Rightarrow> bool" where
  "trusts d fs q b \<longleftrightarrow>
     (\<exists>cp. load_checkpoint d fs q = Inr cp \<and> verify_checkpoint d cp = Inr () \<and>
        b = (cp_seq cp, cp_head_hash cp))"

lemma load_anchor_Inr:
  "load_anchor d fs anc = Inr a \<longleftrightarrow>
     (case anc of None \<Rightarrow> a = None | Some q \<Rightarrow> a \<noteq> None \<and> trusts d fs q (base_of a))"
  by (cases a)
    (auto simp: load_anchor_def trusts_def base_of_def split: option.splits sum.splits)

lemma check_head_ok:
  "fst (check_head d report cp) \<longleftrightarrow>
     verify_checkpoint d cp = Inr () \<and> report_head report = Some (cp_seq cp, cp_head_hash cp)"
  by (auto simp: check_head_def split: sum.splits option.splits)

section \<open>Verifying\<close>

lemma verify_exit_zero:
  "fst (main d (Verify p cpath anc) rm_fails v fs) = 0 \<longleftrightarrow>
     (\<exists>es b. load_entries d fs p = Inr es \<and>
        (case anc of None \<Rightarrow> b = genesis | Some q \<Rightarrow> trusts d fs q b) \<and>
        chain_from d b es \<and>
        (case cpath of None \<Rightarrow> True | Some q \<Rightarrow> es \<noteq> [] \<and> trusts d fs q (head_of b es)))"
proof -
  have head: "(case load_checkpoint d fs q of Inl e \<Rightarrow> False
      | Inr cp \<Rightarrow> fst (check_head d (verify_entries_from d a es) cp)) \<longleftrightarrow>
      es \<noteq> [] \<and> trusts d fs q (head_of (base_of a) es)" for q a es
    by (cases "load_checkpoint d fs q")
      (auto simp: check_head_ok report_head_eq [of _ _ _ "base_of a"] trusts_def)
  have run: "fst (main d (Verify p cpath anc) rm_fails v fs) = 0 \<longleftrightarrow>
     (\<exists>es a. load_entries d fs p = Inr es \<and> load_anchor d fs anc = Inr a \<and>
        chain_from d (base_of a) es \<and>
        (case cpath of None \<Rightarrow> True
         | Some q \<Rightarrow> (case load_checkpoint d fs q of Inl e \<Rightarrow> False
             | Inr cp \<Rightarrow> fst (check_head d (verify_entries_from d a es) cp))))"
    by (auto simp: exit_zero run_def verify_cmd_def Let_def split: sum.splits option.splits prod.splits)
  show ?thesis
  proof (cases anc)
    case None
    then show ?thesis
      unfolding run head by (auto simp: load_anchor_Inr base_of_def split: option.splits)
  next
    case (Some q)
    then show ?thesis
      unfolding run head load_anchor_Inr
      using anchor_exists [of "\<lambda>es. load_entries d fs p = Inr es" "trusts d fs q"
          "\<lambda>es b. chain_from d b es \<and>
            (case cpath of None \<Rightarrow> True | Some q \<Rightarrow> es \<noteq> [] \<and> trusts d fs q (head_of b es))"]
      by simp
  qed
qed

text \<open>
  C14. \<open>chainlog verify\<close> exits with status 0 exactly when the log can be read, its entries form a
  chain from genesis, or from what a signed anchor file states, and, if a checkpoint is given, the
  log is not empty and its head is what the signed checkpoint states. Every violation, unreadable
  file and bad signature makes the status non-zero.
\<close>

theorem cli_verify_decides:
  "fst (main d (Verify p cpath anc) rm_fails v fs) = 0 \<longleftrightarrow>
     (\<exists>es b. load_entries d fs p = Inr es \<and>
        (case anc of None \<Rightarrow> b = genesis | Some q \<Rightarrow> trusts d fs q b) \<and>
        chain_from d b es \<and>
        (case cpath of None \<Rightarrow> True | Some q \<Rightarrow> es \<noteq> [] \<and> trusts d fs q (head_of b es)))"
  by (rule verify_exit_zero)

section \<open>Pruning, then verifying\<close>

text \<open>The JSON that \<open>prune\<close> prints.\<close>

definition anchor_printout :: "anchor \<Rightarrow> json" where
  "anchor_printout a =
     json_obj [(''anchor_seq'', json_u64 (a_seq a)), (''anchor_hash'', JStr (a_hash a))]"

lemma anchor_printout_inject [simp]: "anchor_printout a = anchor_printout b \<longleftrightarrow> a = b"
  by (cases a; cases b)
    (auto simp: anchor_printout_def json_obj_def to_map_def list_less_def json_u64_def)

lemma prune_cmd_printed:
  assumes "ru_out (prune_cmd d p (Some b) days rm_fails v fs) = [Pretty j]"
    and "fs p = Some (NDir files)"
  shows "\<exists>a dir'. prune_before d (dir_at fs p) b rm_fails = (Inr (Some a), dir') \<and>
    j = anchor_printout a \<and>
    ru_end (prune_cmd d p (Some b) days rm_fails v fs) = Success_code \<and>
    ru_fs (prune_cmd d p (Some b) days rm_fails v fs) = put_dir p dir' fs"
  using assms
  by (auto simp: prune_cmd_def anchor_printout_def at_dir_def Let_def
      split: prod.splits sum.splits option.splits)

lemma prune_anchor_parts: "prune_anchor qs rs = Some a \<Longrightarrow> qs \<noteq> [] \<and> snd (hd rs) \<noteq> []"
  by (auto simp: prune_anchor_def split: if_splits list.splits)

text \<open>
  C22. Retention as documented: on a segmented log that verifies, if \<open>chainlog prune --before-seq\<close>
  prints an anchor, then once that anchor is signed as a checkpoint \<open>chainlog verify --anchor\<close> with
  the checkpoint accepts what is left, which is a non-empty suffix of the log and lacks only
  entries below the boundary.
\<close>

theorem cli_prune_then_verify:
  assumes "ed25519_ok d" and "base64_ok d" and "length (sk_seed signer) = 32"
    and "fs p = Some (NDir files)" and "holds d files ps" and "pieces_ok ps" and "ps \<noteq> []"
    and "0 < fst (hd ps)" and "is_valid (verify_entries_from d anc (all_entries ps))"
    and "r = run d (Prune p (Some b) None) rm_fails v fs"
    and "ru_out r = [Pretty (anchor_printout a)]"
    and "q \<noteq> p" and "fs' = (ru_fs r)(q \<mapsto> NFile bs)" and "utf8_valid bs"
    and "sj_from_slice d bs = Some (checkpoint_json (sign d signer (a_seq a) (a_hash a) t))"
  shows "ru_end r = Success_code \<and> fst (main d (Verify p None (Some q)) rm_fails v' fs') = 0 \<and>
    (\<exists>gone kept. all_entries ps = gone @ kept \<and> load_entries d fs' p = Inr kept \<and> kept \<noteq> [] \<and>
      (\<forall>e \<in> set gone. e_seq e < b))"
proof -
  have "dir_at fs p = Some files" using assms(4) by (simp add: dir_at_def)
  with prune_cmd_printed [of d p b None rm_fails v fs _ files] assms(4,10,11) obtain dir' where
    prune: "prune_before d (Some files) b rm_fails = (Inr (Some a), dir')"
      "ru_end r = Success_code" "ru_fs r = put_dir p dir' fs"
    by (auto simp: run_def)
  from prune_before_pieces [OF assms(5-7) prune(1)] obtain qs rs files' where
    parts: "dir' = Some files'" "ps = qs @ rs" "rs \<noteq> []" "holds d files' rs"
      "\<And>e. e \<in> set (all_entries qs) \<Longrightarrow> e_seq e < b"
    and anchored: "\<And>x. Inr (Some a) = (Inr x :: anchor option result) \<Longrightarrow>
      x = prune_anchor qs rs \<and> (tl rs = [] \<or> b < fst (hd (tl rs)))"
    by blast
  have printed: "prune_anchor qs rs = Some a" using anchored [OF refl] by simp
  have ok: "pieces_ok (qs @ rs)" using assms(6) parts(2) by simp
  have nonempty: "qs \<noteq> []" "snd (hd rs) \<noteq> []" using prune_anchor_parts [OF printed] by simp_all
  have chain: "chain_from d (base_of anc) (all_entries qs @ all_entries rs)"
    using assms(9) parts(2) by simp
  have "0 < fst (hd qs)" using assms(8) parts(2) nonempty(1) by simp
  from prune_anchor_base [OF ok _ nonempty(1) parts(3) nonempty(2) this, of d "base_of anc"] chain
  have base: "base_of (Some a) = head_of (base_of anc) (all_entries qs)" using printed by auto
  then have kept_chain: "chain_from d (a_seq a, a_hash a) (all_entries rs)"
    using chain by (simp add: base_of_def)
  have "pieces_ok rs" using pieces_ok_append [OF ok] by blast
  then have load: "load_entries d fs' p = Inr (all_entries rs)"
    using holds_read_all [OF parts(4)] assms(12,13) prune(3) parts(1)
    by (simp add: load_entries_def core_def put_dir_def)
  have "verify_checkpoint d (sign d signer (a_seq a) (a_hash a) t) = Inr ()"
    unfolding verify_checkpoint_Inr using verify_checkpoint_sign [OF assms(1-3)] by blast
  moreover have "load_checkpoint d fs' q = Inr (sign d signer (a_seq a) (a_hash a) t)"
    using assms(13-15) unfolding load_checkpoint_def by (intro checkpoint_wire.load_ok) simp_all
  ultimately have "trusts d fs' q (a_seq a, a_hash a)"
    unfolding trusts_def by (auto simp: sign_def Let_def)
  moreover have "all_entries rs \<noteq> []"
    using nonempty(2) parts(3) by (cases rs) auto
  ultimately have "fst (main d (Verify p None (Some q)) rm_fails v' fs') = 0"
    unfolding verify_exit_zero using load kept_chain by auto
  then show ?thesis
    using prune(2) load \<open>all_entries rs \<noteq> []\<close> parts(2,5)
    by (intro conjI exI [of _ "all_entries qs"] exI [of _ "all_entries rs"]) auto
qed

lemma demo_text [simp]: "utf8_valid (sj_to_vec demo j)"
  by (simp add: demo_def) (rule utf8_valid_ascii, simp add: demo_to_vec_def ascii_hexs)

text \<open>Pruning the sample below 3 removes the first segment.\<close>

lemma sample_prune:
  obtains a files' where
    "prune_before demo (Some sample_dir) 3 (\<lambda>_. False) = (Inr (Some a), Some files')"
proof -
  obtain x y z where es: "chain_of 3 = [x, y, z]" "e_seq x = 1" "e_seq y = 2" "e_seq z = 3"
    by (rule chain_of_3)
  then have ps: "sample_pieces = [(1, [x, y]), (3, [z])]" by (simp add: sample_pieces_def)
  let ?files = "AList.delete (segment_name 1) sample_dir"
  have holds: "holds demo ?files [(3, [z])]"
    using holds_delete_first [of demo sample_dir 1 "[x, y]" "[(3, [z])]"] ps
      sample_holds sample_pieces_ok by simp
  moreover have ok: "pieces_ok [(3, [z])]" using es(4) by simp
  ultimately have "list_segments (Some ?files) = [(3, segment_name 3)]"
    using holds_listing by fastforce
  moreover have "read_path demo ?files (segment_name 3) = Inr [z]"
    using holds_read [OF holds, of 3 "[z]"] by simp
  moreover have "list_segments (Some sample_dir) = [(1, segment_name 1), (3, segment_name 3)]"
    using holds_listing [OF sample_holds sample_pieces_ok] unfolding ps by simp
  ultimately have "prune_before demo (Some sample_dir) 3 (\<lambda>_. False) =
      (Inr (Some \<lparr>a_seq = 2, a_hash = e_prev_hash z\<rparr>), Some ?files)"
    using es(4) by (simp add: prune_before_def)
  then show thesis by (rule that)
qed

theorem cli_prune_then_verify_witness:
  "\<exists>bs. let fs = [''log'' \<mapsto> NDir sample_dir];
       r = run demo (Prune ''log'' (Some 3) None) (\<lambda>_. False) calm fs in
     ru_end r = Success_code \<and>
     fst (main demo (Verify ''log'' None (Some ''cp'')) (\<lambda>_. False) calm
       ((ru_fs r)(''cp'' \<mapsto> NFile bs))) = 0"
proof -
  let ?fs = "[''log'' \<mapsto> NDir sample_dir]" and ?s = "\<lparr>sk_seed = sample_seed\<rparr>"
  let ?r = "run demo (Prune ''log'' (Some 3) None) (\<lambda>_. False) calm ?fs"
  obtain a files' where
    prune: "prune_before demo (Some sample_dir) 3 (\<lambda>_. False) = (Inr (Some a), Some files')"
    by (rule sample_prune)
  then have out: "ru_out ?r = [Pretty (anchor_printout a)]"
    by (simp add: run_def prune_cmd_def at_dir_def dir_at_def anchor_printout_def)
  let ?cp = "checkpoint_json (sign demo ?s (a_seq a) (a_hash a) 0)"
  let ?bs = "sj_to_vec demo ?cp"
  have "json_ok demo ?cp"
    by (rule demo_json_ok) (simp add: checkpoint_json_def json_u64_def json_i64_def)
  then have parse: "sj_from_slice demo ?bs = Some ?cp" by (simp add: json_ok_def)
  have valid: "is_valid (verify_entries_from demo None (all_entries sample_pieces))"
    by (simp add: base_of_def)
  have "sample_pieces \<noteq> []" "0 < fst (hd sample_pieces)" by (simp_all add: sample_pieces_def)
  from cli_prune_then_verify [OF demo_ed25519 demo_base64 _ _ sample_holds sample_pieces_ok this
      valid refl out _ refl demo_text parse, of "''cp''" calm]
  show ?thesis by (auto simp: sample_seed_def Let_def)
qed

section \<open>Merkle proofs\<close>

text \<open>
  C23. What \<open>chainlog merkle-proof\<close> and \<open>chainlog merkle-anchor\<close> print for one log, saved in files,
  passes \<open>chainlog merkle-verify --anchor\<close>: every entry of a log can be shown to be under its signed
  root. A sequence number that the log does not have makes \<open>merkle-proof\<close> fail without output.
\<close>

theorem cli_merkle_proof_verifies:
  assumes "blake3_ok d" and "hex_ok d" and "ed25519_ok d" and "base64_ok d"
    and "load_entries d fs p = Inr es" and "length es < 2 ^ 64"
    and "signer_from_base64 d k = Inr signer"
    and "r = run d (MerkleProof p s) rm_fails v fs" and "r' = run d (MerkleAnchor p k) rm_fails v fs"
    and "\<And>j. ru_out r = [Pretty j] \<Longrightarrow>
      fs' q = Some (NFile bs) \<and> utf8_valid bs \<and> sj_from_slice d bs = Some j"
    and "\<And>j. ru_out r' = [Pretty j] \<Longrightarrow>
      fs' q' = Some (NFile bs') \<and> utf8_valid bs' \<and> sj_from_slice d bs' = Some j"
  shows "if s \<in> e_seq ` set es
    then ru_end r = Success_code \<and> ru_end r' = Success_code \<and>
      fst (main d (MerkleVerify q (Some q')) rm_fails v fs') = 0
    else ru_end r = Failure_code \<and> ru_out r = []"
proof (cases "s \<in> e_seq ` set es")
  case False
  then have "position (\<lambda>e. e_seq e = s) es = None" by (auto simp: position_None)
  then have "merkle_proof_for_seq d es s = None" by (simp add: merkle_proof_for_seq_def)
  with False assms(5,8) show ?thesis by (simp add: run_def merkle_proof_cmd_def)
next
  case True
  from position_find [of es "\<lambda>e. e_seq e = s"] True obtain i where
    i: "position (\<lambda>e. e_seq e = s) es = Some i" "find (\<lambda>e. e_seq e = s) es = Some (es ! i)"
    by (cases "position (\<lambda>e. e_seq e = s) es") (auto simp: position_None)
  note at = position_Some [OF i(1)]
  then obtain pr where pr: "build_merkle_proof d (entry_leaves es) i = Some pr"
    by (simp add: build_merkle_proof_def entry_leaves_def Let_def)
  let ?root = "merkle_root d (entry_leaves es)"
  let ?b = "\<lparr>pb_seq = s, pb_leaf = e_entry_hash (es ! i), pb_root = ?root, pb_proof = pr\<rparr>"
  let ?a = "build_merkle_anchor d signer es (now_ms (env_clock v))"
  have out: "ru_out r = [Pretty (bundle_json ?b)]" "ru_end r = Success_code"
    using assms(5,8) i pr
    by (simp_all add: run_def merkle_proof_cmd_def merkle_proof_for_seq_def unwrap_or_default_def)
  have out': "ru_out r' = [Pretty (merkle_anchor_json ?a)]" "ru_end r' = Success_code"
    using assms(5,7,9) by (simp_all add: run_def merkle_anchor_cmd_def)
  have small: "leaf_index pr < 2 ^ 64" "leaf_count pr < 2 ^ 64" "ma_count ?a < 2 ^ 64"
    using pr at assms(6)
    by (auto simp: build_merkle_proof_Some entry_leaves_def build_merkle_anchor_def Let_def)
  have bundle_read: "load_json d bundle_of_json fs' q = Inr ?b"
    using assms(10) [OF out(1)] small by (intro bundle_wire.load_ok) auto
  have anchor_read: "load_json d merkle_anchor_of_json fs' q' = Inr ?a"
    using assms(11) [OF out'(1)] small(3) by (intro anchor_wire.load_ok) auto
  have "verify_merkle_proof d (as_bytes (e_entry_hash (es ! i))) pr ?root = Inr True"
    using verify_build_merkle_proof [OF assms(1,2) pr] at by (simp add: entry_leaves_def)
  moreover have "length (sk_seed signer) = 32"
    using assms(7) by (auto simp: signer_from_base64_def split: option.splits if_splits)
  then have "verify_merkle_anchor d ?a = Inr ()"
    using verify_build_merkle_anchor assms(3,4) by blast
  ultimately have "fst (main d (MerkleVerify q (Some q')) rm_fails v fs') = 0"
    using bundle_read anchor_read ma_root_build
    by (simp add: exit_zero run_def merkle_verify_cmd_def check_root_def Let_def)
  with True out(2) out'(2) show ?thesis by simp
qed

lemma depth_bundle: "json_depth (bundle_json b) \<le> 127"
proof -
  have "fold (\<lambda>s. max (Suc 0)) ss n \<le> max n (Suc 0)" for ss :: "proof_step list" and n
  proof (induction ss arbitrary: n)
    case (Cons s ss)
    have "fold (\<lambda>s. max (Suc 0)) ss (max (Suc 0) n) \<le> max (max (Suc 0) n) (Suc 0)" by (rule Cons)
    then show ?case by simp
  qed simp
  from this [of "mp_path (pb_proof b)" 0] show ?thesis
    by (simp add: bundle_json_def proof_json_def json_usize_def json_u64_def step_json_def fold_map comp_def)
qed

lemma proof_printed: "ru_out (merkle_proof_cmd d p s fs) = [Pretty j] \<Longrightarrow> \<exists>b. j = bundle_json b"
  by (auto simp: merkle_proof_cmd_def Let_def split: sum.splits option.splits)

lemma anchor_printed:
  "ru_out (merkle_anchor_cmd d p k v fs) = [Pretty j] \<Longrightarrow> \<exists>a. j = merkle_anchor_json a"
  by (auto simp: merkle_anchor_cmd_def Let_def split: sum.splits)

definition saved :: "run_result \<Rightarrow> bytes" where
  "saved r = (case ru_out r of [Pretty j] \<Rightarrow> sj_to_vec demo j | _ \<Rightarrow> [])"

theorem cli_merkle_proof_verifies_witness:
  "let fs = [''log'' \<mapsto> NFile (file_of demo (chain_of 3))];
       r = run demo (MerkleProof ''log'' 2) (\<lambda>_. False) calm fs;
       r' = run demo (MerkleAnchor ''log'' (b64_encode demo sample_seed)) (\<lambda>_. False) calm fs in
   fst (main demo (MerkleVerify ''p'' (Some ''a'')) (\<lambda>_. False) calm
     [''p'' \<mapsto> NFile (saved r), ''a'' \<mapsto> NFile (saved r')]) = 0"
proof -
  let ?fs = "[''log'' \<mapsto> NFile (file_of demo (chain_of 3))]" and ?k = "b64_encode demo sample_seed"
  let ?r = "run demo (MerkleProof ''log'' 2) (\<lambda>_. False) calm ?fs"
  let ?r' = "run demo (MerkleAnchor ''log'' ?k) (\<lambda>_. False) calm ?fs"
  let ?fs' = "[''p'' \<mapsto> NFile (saved ?r), ''a'' \<mapsto> NFile (saved ?r')]"
  have load: "load_entries demo ?fs ''log'' = Inr (chain_of 3)"
    by (simp add: load_entries_def core_def read_all_def)
  have signer: "signer_from_base64 demo ?k = Inr \<lparr>sk_seed = sample_seed\<rparr>"
    by (simp add: signer_from_base64_def base64_trim base64_decode_encode sample_seed_def)
  have proof_file: "?fs' ''p'' = Some (NFile (saved ?r)) \<and> utf8_valid (saved ?r) \<and>
      sj_from_slice demo (saved ?r) = Some j" if "ru_out ?r = [Pretty j]" for j
  proof -
    have "json_ok demo j"
      using proof_printed [of demo "''log''" 2 ?fs j] that demo_json_ok depth_bundle
      by (auto simp: run_def)
    with that show ?thesis by (simp add: saved_def json_ok_def)
  qed
  have anchor_file: "?fs' ''a'' = Some (NFile (saved ?r')) \<and> utf8_valid (saved ?r') \<and>
      sj_from_slice demo (saved ?r') = Some j" if "ru_out ?r' = [Pretty j]" for j
  proof -
    have "json_depth (merkle_anchor_json a) \<le> 127" for a
      by (simp add: merkle_anchor_json_def json_u64_def json_usize_def json_i64_def)
    then have "json_ok demo j"
      using anchor_printed [of demo "''log''" ?k calm ?fs j] that demo_json_ok
      by (auto simp: run_def)
    with that show ?thesis by (simp add: saved_def json_ok_def)
  qed
  have "e_seq (chain_of 3 ! 1) = 2" using chain_of_seq [of 1 3] by simp
  then have "2 \<in> e_seq ` set (chain_of 3)"
    by (metis image_eqI length_chain_of nth_mem one_less_numeral_iff semiring_norm(77))
  with cli_merkle_proof_verifies [OF demo_blake3 demo_hex demo_ed25519 demo_base64 load _ signer
      refl refl proof_file anchor_file]
  show ?thesis by (simp add: Let_def)
qed

end
