(* ===== verification/Agreement.thy ===== *)
theory Agreement
  imports Calls Tools
begin

text \<open>
  The service and the offline tool on the same log: what an auditor finds with \<open>chainlog verify\<close> is
  what the service reports, and a checkpoint fetched from the service pins the log for the auditor.
\<close>

section \<open>One report\<close>

text \<open>What is at the data path of a service.\<close>

definition data_node :: "app_state \<Rightarrow> node" where
  "data_node st =
     (case wr_store (as_writer st) of
        FileBackend s \<Rightarrow> NFile (fs_file s)
      | SegBackend s \<Rightarrow> NDir (sg_dir s))"

lemma load_data_node:
  assumes "fs p = Some (data_node st)"
  shows "read_log d (app_data st) =
    (case load_entries d fs p of
       Inr es \<Rightarrow> Inr es
     | Inl (CoreError (Io _)) \<Rightarrow> Inr []
     | Inl (CoreError e) \<Rightarrow> Inl (from_error e)
     | Inl _ \<Rightarrow> Inr [])"
    and "load_entries d fs p \<noteq> Inl (IoError x)" and "load_entries d fs p \<noteq> Inl JsonError"
  using assms
  by (auto simp: data_node_def read_log_def app_data_def load_entries_def core_def
      split: backend.splits sum.splits error.splits)

text \<open>
  C9. The auditor's tool and the service agree on any log, valid, tampered with or damaged: for a
  log that can be read, \<open>chainlog verify\<close> prints the very report that \<open>/v1/verify\<close> answers with, and
  exits with 0 exactly when the status is 200. For a log that cannot be read the tool fails and the
  service answers 500, except that an error of the file system is a valid empty log to the service.
\<close>

theorem auditor_agrees_with_service:
  assumes "as_read_token st \<noteq> []" and "fs p = Some (data_node st)"
    and "resp = verify_handler d (Some (''Bearer '' @ as_read_token st)) st"
    and "main d (Verify p None None) rm_fails v fs = (status, r)"
  shows "case load_entries d fs p of
      Inr es \<Rightarrow> rs_body resp = report_json (verify_entries d es) \<and>
        ru_out r = [Pretty (rs_body resp)] \<and> (status = 0 \<longleftrightarrow> rs_status resp = 200)
    | Inl (CoreError (Io _)) \<Rightarrow> status = 1 \<and>
        resp = \<lparr>rs_status = 200, rs_body = report_json (verify_entries d [])\<rparr>
    | Inl e \<Rightarrow> status = 1 \<and> rs_status resp = 500"
proof (cases "load_entries d fs p")
  case (Inl e)
  with load_data_node(2,3) [where fs = fs and p = p and st = st, OF assms(2)] obtain er where e: "e = CoreError er" by (cases e) auto
  have "status = 1"
    using assms(4) Inl by (auto simp: main_def run_def verify_cmd_def fail_def run_of_def Let_def)
  with e Inl load_data_node(1) [where fs = fs and p = p and st = st and d = d, OF assms(2)] assms(3) require_bearer [OF assms(1)]
  show ?thesis
    by (cases er) (simp_all add: verify_handler_def from_error_def api_error_def del: append.simps)
next
  case (Inr es)
  then have "resp = \<lparr>rs_status = (if is_valid (verify_entries d es) then 200 else 409),
      rs_body = report_json (verify_entries d es)\<rparr>"
    using load_data_node(1) [where fs = fs and p = p and st = st and d = d, OF assms(2)] assms(3) require_bearer [OF assms(1)]
    by (simp add: verify_handler_def Let_def del: append.simps)
  moreover have "load_anchor d fs None = Inr None" by (simp add: load_anchor_def)
  moreover have "status = (if is_valid (verify_entries d es) then 0 else 1)"
    "ru_out r = [Pretty (report_json (verify_entries d es))]"
    using assms(4) Inr \<open>load_anchor d fs None = Inr None\<close>
    by (auto simp: main_def run_def verify_cmd_def run_of_def exit_code_def Let_def
        verify_entries_from_None split: if_splits)
  ultimately show ?thesis using Inr by simp
qed

text \<open>A service with a signing key over a log of \<open>n\<close> sample entries.\<close>

definition signing_app :: "nat \<Rightarrow> app_state" where
  "signing_app n =
     \<lparr>as_writer =
        \<lparr>wr_store = FileBackend \<lparr>fs_file = file_of demo (chain_of n), fs_tail = tail_of (chain_of n)\<rparr>,
         wr_provider = Ring (keyring_open demo None True),
         wr_seq = fst (head_of genesis (chain_of n)), wr_prev_hash = snd (head_of genesis (chain_of n))\<rparr>,
      as_signer = Some \<lparr>sk_seed = sample_seed\<rparr>,
      as_write_token = ''w'', as_read_token = ''r'', as_admin_token = ''a''\<rparr>"

lemma signing_app_inv:
  "backend_entries demo (wr_store (as_writer (signing_app n))) = chain_of n"
  "server_log.log_inv demo genesis (as_writer (signing_app n))"
proof -
  let ?s = "\<lparr>fs_file = file_of demo (chain_of n), fs_tail = tail_of (chain_of n)\<rparr>"
  have s: "file_inv demo ?s" "file_entries demo ?s = chain_of n"
    using file_invI [of demo "chain_of n" ?s] by simp_all
  then show es: "backend_entries demo (wr_store (as_writer (signing_app n))) = chain_of n"
    by (simp add: signing_app_def backend_entries_def)
  have "utf8_string (snd (head_of genesis (chain_of n)))"
    by (rule chain_head_utf8_genesis [OF demo_hex chain_of_chain])
  then show "server_log.log_inv demo genesis (as_writer (signing_app n))"
    using s by (simp add: signing_app_def server_log.log_inv_def backend_inv_def backend_entries_def
        cipher_ok_def)
qed

lemma signing_app_load:
  "load_entries demo (fs(p \<mapsto> data_node (signing_app n))) p = Inr (chain_of n)"
proof -
  have "read_all demo (Some (file_of demo (chain_of n))) = Inr (chain_of n)"
    using file_inv_read [of demo "\<lparr>fs_file = file_of demo (chain_of n), fs_tail = tail_of (chain_of n)\<rparr>"]
      file_invI [of demo "chain_of n" "\<lparr>fs_file = file_of demo (chain_of n), fs_tail = tail_of (chain_of n)\<rparr>"]
    by simp
  then show ?thesis by (simp add: load_entries_def data_node_def signing_app_def core_def)
qed

theorem auditor_agrees_with_service_witness:
  "fst (main demo (Verify ''log'' None None) (\<lambda>_. False) calm [''log'' \<mapsto> data_node (signing_app 2)]) = 0"
proof -
  let ?st = "signing_app 2" and ?fs = "[''log'' \<mapsto> data_node (signing_app 2)]"
  obtain status r where run: "main demo (Verify ''log'' None None) (\<lambda>_. False) calm ?fs = (status, r)"
    by (cases "main demo (Verify ''log'' None None) (\<lambda>_. False) calm ?fs")
  have tok: "as_read_token ?st \<noteq> []" by (simp add: signing_app_def)
  have load: "load_entries demo ?fs ''log'' = Inr (chain_of 2)" by (rule signing_app_load)
  have "read_log demo (app_data ?st) = Inr (chain_of 2)"
    using backend_read [of demo ?st] signing_app_inv [of 2] by (simp add: server_log.log_inv_def)
  then have "rs_status (verify_handler demo (Some (''Bearer '' @ as_read_token ?st)) ?st) = 200"
    using require_bearer [OF tok] by (simp add: verify_handler_def del: append.simps)
  with auditor_agrees_with_service [OF tok _ refl run] load run show ?thesis by simp
qed

section \<open>A checkpoint from the service\<close>

text \<open>
  C8. A checkpoint that the client fetches pins the log for an auditor: against it \<open>chainlog verify
  --checkpoint\<close> accepts the log that the service holds, and any other readable log only if two
  different contents in them have the same hash; so no entry of it can be changed, dropped or added,
  at the end neither.
\<close>

theorem checkpoint_pins_served_log:
  assumes "engine_crates d" and "blake3_ok d" and "ed25519_ok d"
    and "server_log.log_inv d genesis (as_writer st)" and "as_signer st = Some s"
    and "length (sk_seed s) = 32"
    and "es = backend_entries d (wr_store (as_writer st))" and "es \<noteq> []"
    and "cl_read_token c = Some (as_read_token st)" and "as_read_token st \<noteq> []"
    and "reaches http d (cl_base c) rm v st" and "client_checkpoint http c = Inr cp"
    and "fs q = Some (NFile bs)" and "utf8_valid bs"
    and "sj_from_slice d bs = Some (checkpoint_json cp)"
    and "load_entries d fs p = Inr xs"
    and "length es < 2 ^ 64" and "length xs < 2 ^ 64"
    and "\<forall>e \<in> set xs \<union> set es. entry_fits d e \<and> json_ok d (payload_json (e_payload e))"
    and "\<forall>e \<in> set xs. \<forall>e' \<in> set es. \<not> hash_collision d e e'"
  shows "(fst (main d (Verify p (Some q) None) rm_fails v' fs) = 0 \<longrightarrow> list_all2 same_entry xs es) \<and>
    (xs = es \<longrightarrow> fst (main d (Verify p (Some q) None) rm_fails v' fs) = 0)"
proof -
  have cp: "cp = sign d s (wr_seq (as_writer st)) (wr_prev_hash (as_writer st)) (now_ms (env_clock v))"
    using reader_signed(1) [OF assms(9-11,5)] assms(12) by simp
  have ok: "hex_ok d" "base64_ok d" using assms(1) by (simp_all add: engine_crates_def)
  have es: "chain_from d genesis es" "(wr_seq (as_writer st), wr_prev_hash (as_writer st)) = head_of genesis es"
    using assms(4,7) by (simp_all add: server_log.log_inv_def)
  have "verify_checkpoint d cp = Inr ()"
    unfolding cp verify_checkpoint_Inr using verify_checkpoint_sign [OF assms(3) ok(2) assms(6)] by blast
  moreover have "load_checkpoint d fs q = Inr cp"
    using assms(13-15) unfolding load_checkpoint_def by (intro checkpoint_wire.load_ok) simp_all
  ultimately have trusts: "trusts d fs q b \<longleftrightarrow> b = head_of genesis es" for b
    using es(2) by (auto simp: trusts_def cp sign_def Let_def)
  have zero: "fst (main d (Verify p (Some q) None) rm_fails v' fs) = 0 \<longleftrightarrow>
      chain_from d genesis xs \<and> xs \<noteq> [] \<and> head_of genesis xs = head_of genesis es"
    unfolding verify_exit_zero using assms(16) by (auto simp: trusts)
  have "list_all2 same_entry xs es"
    if "chain_from d genesis xs" "head_of genesis xs = head_of genesis es"
  proof -
    have "(word_of_nat (length xs) :: u64) = word_of_nat (length es)"
      using chain_from_head [OF that(1)] chain_from_head [OF es(1)] that(2) by simp
    then have "length xs = length es" using assms(17,18) by (metis unat_small)
    from chains_agree [OF assms(2) ok(1) this that(1) es(1) that(2) assms(19,20)] show ?thesis .
  qed
  then show ?thesis using zero es(1) assms(8) by blast
qed

theorem checkpoint_pins_served_log_witness:
  "\<exists>cp bs. client_checkpoint (direct demo ''http://h'' False calm (signing_app 1)) sample_client = Inr cp \<and>
     sj_from_slice demo bs = Some (checkpoint_json cp) \<and>
     fst (main demo (Verify ''log'' (Some ''cp'') None) (\<lambda>_. False) calm
       [''cp'' \<mapsto> NFile bs, ''log'' \<mapsto> data_node (signing_app 1)]) = 0"
proof -
  let ?st = "signing_app 1" and ?http = "direct demo ''http://h'' False calm (signing_app 1)"
  let ?s = "\<lparr>sk_seed = sample_seed\<rparr>"
  have st: "as_signer ?st = Some ?s" "as_read_token ?st = ''r''" by (simp_all add: signing_app_def)
  have c: "cl_read_token sample_client = Some (as_read_token ?st)" "as_read_token ?st \<noteq> []"
    using st(2) by simp_all
  have reach: "reaches ?http demo (cl_base sample_client) False calm ?st"
    using direct_reaches [of demo "''http://h''" False calm ?st] by simp
  obtain cp where cp: "client_checkpoint ?http sample_client = Inr cp"
    using reader_signed(1) [OF c reach st(1)] by blast
  let ?bs = "sj_to_vec demo (checkpoint_json cp)"
  have "json_ok demo (checkpoint_json cp)"
    by (rule demo_json_ok) (simp add: checkpoint_json_def json_u64_def json_i64_def)
  then have parse: "sj_from_slice demo ?bs = Some (checkpoint_json cp)" by (simp add: json_ok_def)
  have "length (sk_seed ?s) = 32" by (simp add: sample_seed_def)
  moreover have "chain_of 1 \<noteq> []" by (simp add: chain_of_1)
  moreover have "\<forall>e \<in> set (chain_of 1) \<union> set (chain_of 1).
      entry_fits demo e \<and> json_ok demo (payload_json (e_payload e))"
    using chain_of_fits [of 1] by (simp add: list_all_iff)
  moreover have "\<forall>e \<in> set (chain_of 1). \<forall>e' \<in> set (chain_of 1). \<not> hash_collision demo e e'"
    by (simp add: chain_of_1 hash_collision_def)
  moreover have "[''cp'' \<mapsto> NFile ?bs, ''log'' \<mapsto> data_node ?st] ''cp'' = Some (NFile ?bs)"
    "length (chain_of 1) < 2 ^ 64" by simp_all
  ultimately have "fst (main demo (Verify ''log'' (Some ''cp'') None) (\<lambda>_. False) calm
       [''cp'' \<mapsto> NFile ?bs, ''log'' \<mapsto> data_node ?st]) = 0"
    using checkpoint_pins_served_log [OF engine_demo demo_blake3 demo_ed25519 signing_app_inv(2) st(1) _
        signing_app_inv(1) [symmetric] _ c reach cp _ demo_text parse signing_app_load] by blast
  with cp parse show ?thesis by blast
qed

end
