(* ===== verification/Scenarios.thy ===== *)
theory Scenarios
  imports Log Retention Merkle Client "HOL-Library.Monad_Syntax" "HOL-Library.Sublist"
begin

text \<open>
  The tests of the repository as programs over the model: the unit tests of the core crate
  (\<open>crates/core/src/lib.rs\<close>) and the live test of the client (\<open>crates/client/tests/live.rs\<close>). A test
  returns \<open>Some ()\<close>, or \<open>None\<close> if an assertion or an \<open>unwrap\<close> panics. A temporary directory is
  empty; \<open>v\<close> gives the environments of the successive calls. \<open>Tests\<close> proves that they pass.
\<close>

section \<open>Panics and loops\<close>

text \<open>\<open>Result::unwrap\<close>, \<open>assert!\<close>, indexing, and a call that returns without a panic of its own.\<close>

definition unwrap :: "'a result \<Rightarrow> 'a option" where
  "unwrap r = (case r of Inl _ \<Rightarrow> None | Inr x \<Rightarrow> Some x)"

definition is_err :: "'a result \<Rightarrow> bool" where
  "is_err r = (case r of Inl _ \<Rightarrow> True | Inr _ \<Rightarrow> False)"

definition assert :: "bool \<Rightarrow> unit option" where
  "assert b = (if b then Some () else None)"

definition item :: "'a list \<Rightarrow> nat \<Rightarrow> 'a option" where
  "item xs i = (if i < length xs then Some (xs ! i) else None)"

fun returned :: "'a exec \<Rightarrow> 'a option" where
  "returned (Ret x) = Some x"
| "returned Panic = None"

fun for_each :: "('a \<Rightarrow> 's \<Rightarrow> 's option) \<Rightarrow> 'a list \<Rightarrow> 's \<Rightarrow> 's option" where
  "for_each f [] s = Some s"
| "for_each f (x # xs) s = do { s \<leftarrow> f x s; for_each f xs s }"

text \<open>\<open>log.record(..).unwrap()\<close>, and what is on the disk once \<open>drop(log)\<close> has joined the writer.\<close>

definition record_call ::
  "crates \<Rightarrow> 's store_ops \<Rightarrow> 'k key_ops \<Rightarrow> log_record \<Rightarrow> env \<Rightarrow> ('s, 'k) log_handle \<Rightarrow>
   (receipt \<times> ('s, 'k) log_handle) option" where
  "record_call d sops kops r v log =
     (let (res, log') = audit_record d sops kops r v log in
      do { rc \<leftarrow> unwrap res; Some (rc, log') })"

definition left_file :: "(file_store, 'k) log_handle \<Rightarrow> bytes option" where
  "left_file log = map_option (\<lambda>w. fs_file (wr_store w)) (lh_writer log)"

definition left_dir :: "(seg_store, 'k) log_handle \<Rightarrow> dir option" where
  "left_dir log = map_option (\<lambda>w. sg_dir (wr_store w)) (lh_writer log)"

text \<open>\<open>AuditLog::builder().store(..).key_provider(key).build().unwrap()\<close> over each kind of store.\<close>

definition build_log ::
  "'s store_ops \<Rightarrow> 's \<Rightarrow> 'k \<Rightarrow> ('s, 'k) log_handle option" where
  "build_log sops store key =
     unwrap (log_build sops (builder_key_provider key (builder_store store builder_new)) True)"

definition file_log_at ::
  "crates \<Rightarrow> bytes option \<Rightarrow> local_key_provider \<Rightarrow> env \<Rightarrow>
   (file_store, local_key_provider) log_handle option" where
  "file_log_at d content key v =
     do { store \<leftarrow> unwrap (file_open d content v); build_log (file_ops d) store key }"

definition seg_log_at ::
  "crates \<Rightarrow> dir option \<Rightarrow> u64 \<Rightarrow> env \<Rightarrow> env \<Rightarrow>
   (seg_store, local_key_provider) log_handle option" where
  "seg_log_at d dir max_entries v v' = do {
     store \<leftarrow> unwrap (seg_open d dir max_entries v);
     key \<leftarrow> unwrap (local_generate v');
     build_log (seg_ops d) store key }"

text \<open>
  \<open>Record::new("evt", Outcome::Success, actor).data(json!({ "i": i }))\<close>, and the loop that records
  the first \<open>n\<close> of them.
\<close>

definition event :: "string \<Rightarrow> nat \<Rightarrow> log_record" where
  "event actor i =
     record_data (JObj [(''i'', JNum (PosInt (word_of_nat i)))]) (record_new ''evt'' Success actor)"

definition record_events ::
  "crates \<Rightarrow> 's store_ops \<Rightarrow> 'k key_ops \<Rightarrow> string \<Rightarrow> nat \<Rightarrow> (nat \<Rightarrow> env) \<Rightarrow>
   ('s, 'k) log_handle \<Rightarrow> ('s, 'k) log_handle option" where
  "record_events d sops kops actor n v log =
     for_each (\<lambda>i log. do {
         (_, log) \<leftarrow> record_call d sops kops (event actor i) (v i) log;
         Some log }) [0..<n] log"

section \<open>The engine in memory\<close>

definition test_log ::
  "env \<Rightarrow> ((memory_store, local_key_provider) log_handle \<times> local_key_provider) option" where
  "test_log v = do {
     key \<leftarrow> unwrap (local_generate v);
     log \<leftarrow> build_log memory_ops memory_new key;
     Some (log, key) }"

definition assigns_contiguous_sequence_numbers :: "crates \<Rightarrow> (nat \<Rightarrow> env) \<Rightarrow> unit option" where
  "assigns_contiguous_sequence_numbers d v = do {
     (log, _) \<leftarrow> test_log (v 0);
     log \<leftarrow> for_each (\<lambda>expected log. do {
         (r, log) \<leftarrow> record_call d memory_ops (local_ops d) (record_new ''evt'' Success ''actor'')
           (v (unat expected)) log;
         assert (rc_seq r = expected);
         Some log }) [1, 2, 3, 4, 5] log;
     Some () }"

definition first_entry_links_to_genesis :: "crates \<Rightarrow> (nat \<Rightarrow> env) \<Rightarrow> unit option" where
  "first_entry_links_to_genesis d v = do {
     (log, _) \<leftarrow> test_log (v 0);
     (r, log) \<leftarrow> record_call d memory_ops (local_ops d) (record_new ''evt'' Success ''actor'') (v 1) log;
     assert (rc_prev_hash r = GENESIS_PREV_HASH) }"

definition ssn :: json where
  "ssn = JObj [(''ssn'', JStr ''123-45-6789'')]"

definition pii_is_encrypted_then_decryptable :: "crates \<Rightarrow> (nat \<Rightarrow> env) \<Rightarrow> unit option" where
  "pii_is_encrypted_then_decryptable d v = do {
     key \<leftarrow> unwrap (local_generate (v 0));
     log \<leftarrow> build_log memory_ops memory_new key;
     (_, log) \<leftarrow> record_call d memory_ops (local_ops d)
       (record_pii ssn (record_data (JObj [(''role'', JStr ''ops'')])
         (record_new ''user.created'' Success ''admin''))) (v 1) log;
     sealed_pii \<leftarrow> unwrap (fst (seal d (local_ops d) key ''master'' ssn (v 2)));
     assert (\<not> sublist ''123-45-6789'' (ciphertext sealed_pii));
     opened \<leftarrow> returned (open_pii d (local_ops d) key sealed_pii);
     opened \<leftarrow> unwrap opened;
     assert (opened = ssn) }"

text \<open>The example in the documentation of the crate, which runs as a test.\<close>

definition address :: json where
  "address = JObj [(''email'', JStr ''a@b.com'')]"

definition quick_start :: "crates \<Rightarrow> (nat \<Rightarrow> env) \<Rightarrow> unit option" where
  "quick_start d v = do {
     key \<leftarrow> unwrap (local_generate (v 0));
     log \<leftarrow> build_log memory_ops memory_new key;
     (receipt, log) \<leftarrow> record_call d memory_ops (local_ops d)
       (record_pii address (record_data (JObj [(''ip'', JStr ''203.0.113.7'')])
         (record_instruction_id ''req-abc'' (record_new ''user.login'' Success ''user-42'')))) (v 1) log;
     assert (rc_seq receipt = 1) }"

definition wrong_key_cannot_decrypt :: "crates \<Rightarrow> (nat \<Rightarrow> env) \<Rightarrow> unit option" where
  "wrong_key_cannot_decrypt d v = do {
     k1 \<leftarrow> unwrap (local_generate (v 0));
     k2 \<leftarrow> unwrap (local_generate (v 1));
     sealed_pii \<leftarrow>
       unwrap (fst (seal d (local_ops d) k1 ''master'' (JObj [(''x'', JNum (PosInt 1))]) (v 2)));
     opened \<leftarrow> returned (open_pii d (local_ops d) k2 sealed_pii);
     assert (is_err opened) }"

section \<open>The engine over a file\<close>

text \<open>
  The setup that five tests repeat: a key, a new file, \<open>n\<close> records, and the file read back. One of
  them opens the file before it generates the key; neither call sees the other.
\<close>

definition recorded_log ::
  "crates \<Rightarrow> string \<Rightarrow> nat \<Rightarrow> (nat \<Rightarrow> env) \<Rightarrow> audit_entry list option" where
  "recorded_log d actor n v = do {
     key \<leftarrow> unwrap (local_generate (v 0));
     log \<leftarrow> file_log_at d None key (v 1);
     log \<leftarrow> record_events d (file_ops d) (local_ops d) actor n (\<lambda>i. v (2 + i)) log;
     unwrap (read_all d (left_file log)) }"

definition valid_chain_verifies :: "crates \<Rightarrow> (nat \<Rightarrow> env) \<Rightarrow> unit option" where
  "valid_chain_verifies d v = do {
     entries \<leftarrow> recorded_log d ''actor'' 10 v;
     let report = verify_entries d entries;
     assert (is_valid report);
     assert (entries_checked report = 10) }"

definition tampering_with_contents_is_detected :: "crates \<Rightarrow> (nat \<Rightarrow> env) \<Rightarrow> unit option" where
  "tampering_with_contents_is_detected d v = do {
     entries \<leftarrow> recorded_log d ''actor'' 3 v;
     e \<leftarrow> item entries 1;
     let entries = entries[1 := e\<lparr>e_actor := ''attacker''\<rparr>];
     let report = verify_entries d entries;
     assert (\<not> is_valid report);
     assert (list_ex (\<lambda>x. v_kind x = BadHash \<and> v_seq x = 2) (violations report)) }"

definition deleting_an_entry_is_detected :: "crates \<Rightarrow> (nat \<Rightarrow> env) \<Rightarrow> unit option" where
  "deleting_an_entry_is_detected d v = do {
     entries \<leftarrow> recorded_log d ''actor'' 4 v;
     _ \<leftarrow> item entries 1;
     let entries = take 1 entries @ drop 2 entries;
     let report = verify_entries d entries;
     assert (\<not> is_valid report);
     assert (list_ex (\<lambda>x. v_kind x = SequenceGap \<or> v_kind x = BrokenLink) (violations report)) }"

definition anchored_verify_accepts_a_pruned_tail :: "crates \<Rightarrow> (nat \<Rightarrow> env) \<Rightarrow> unit option" where
  "anchored_verify_accepts_a_pruned_tail d v = do {
     entries \<leftarrow> recorded_log d ''a'' 6 v;
     e \<leftarrow> item entries 2;
     let anc = \<lparr>a_seq = e_seq e, a_hash = e_entry_hash e\<rparr>;
     tail \<leftarrow> (if 3 \<le> length entries then Some (drop 3 entries) else None);
     assert (\<not> is_valid (verify_entries d tail));
     let report = verify_entries_from d (Some anc) tail;
     assert (is_valid report) }"

definition chain_resumes_across_reopen :: "crates \<Rightarrow> (nat \<Rightarrow> env) \<Rightarrow> unit option" where
  "chain_resumes_across_reopen d v = do {
     key \<leftarrow> unwrap (local_generate (v 0));
     log \<leftarrow> file_log_at d None key (v 1);
     (_, log) \<leftarrow> record_call d (file_ops d) (local_ops d) (record_new ''a'' Success ''x'') (v 2) log;
     (_, log) \<leftarrow> record_call d (file_ops d) (local_ops d) (record_new ''b'' Success ''x'') (v 3) log;
     let content = left_file log;
     log \<leftarrow> file_log_at d content key (v 4);
     (r, log) \<leftarrow> record_call d (file_ops d) (local_ops d) (record_new ''c'' Success ''x'') (v 5) log;
     assert (rc_seq r = 3);
     entries \<leftarrow> unwrap (read_all d (left_file log));
     assert (is_valid (verify_entries d entries));
     assert (length entries = 3) }"

section \<open>Checkpoints\<close>

definition checkpoint_signs_and_verifies :: "crates \<Rightarrow> env \<Rightarrow> unit option" where
  "checkpoint_signs_and_verifies d v = do {
     signer \<leftarrow> unwrap (signer_generate v);
     let cp = sign d signer 7 ''deadbeef'' 1780000000000;
     assert (\<not> is_err (verify_checkpoint d cp));
     let forged = cp\<lparr>cp_head_hash := ''cafebabe''\<rparr>;
     assert (is_err (verify_checkpoint d forged)) }"

definition checkpoint_pinned_key_mismatch_is_rejected :: "crates \<Rightarrow> (nat \<Rightarrow> env) \<Rightarrow> unit option" where
  "checkpoint_pinned_key_mismatch_is_rejected d v = do {
     signer \<leftarrow> unwrap (signer_generate (v 0));
     other \<leftarrow> unwrap (signer_generate (v 1));
     let cp = sign d signer 1 ''abc'' 1;
     wrong_pk \<leftarrow> b64_decode d (public_base64 d other);
     assert (length wrong_pk = 32);
     assert (is_err (verify_checkpoint_with d cp wrong_pk)) }"

section \<open>Segments\<close>

definition segmented_store_rotates_and_resumes :: "crates \<Rightarrow> (nat \<Rightarrow> env) \<Rightarrow> unit option" where
  "segmented_store_rotates_and_resumes d v = do {
     log \<leftarrow> seg_log_at d (Some []) 3 (v 0) (v 1);
     log \<leftarrow> record_events d (seg_ops d) (local_ops d) ''a'' 7 (\<lambda>i. v (2 + i)) log;
     let dir = left_dir log;
     files \<leftarrow> dir;
     assert (length (filter (\<lambda>(n, _). prefix ''seg-'' n) files) = 3);
     entries \<leftarrow> unwrap (read_all_segmented d dir);
     assert (length entries = 7);
     assert (is_valid (verify_entries d entries));
     log \<leftarrow> seg_log_at d dir 3 (v 9) (v 10);
     (r, log) \<leftarrow> record_call d (seg_ops d) (local_ops d) (record_new ''evt'' Success ''a'') (v 11) log;
     assert (rc_seq r = 8) }"

text \<open>\<open>rm_fails\<close> names the files that the system would not remove.\<close>

definition prune_then_verify_from_anchor ::
  "crates \<Rightarrow> (nat \<Rightarrow> env) \<Rightarrow> (string \<Rightarrow> bool) \<Rightarrow> unit option" where
  "prune_then_verify_from_anchor d v rm_fails = do {
     log \<leftarrow> seg_log_at d (Some []) 2 (v 0) (v 1);
     log \<leftarrow> record_events d (seg_ops d) (local_ops d) ''a'' 8 (\<lambda>i. v (2 + i)) log;
     let (res, dir) = prune_before d (left_dir log) 5 rm_fails;
     anc \<leftarrow> unwrap res;
     assert (anc \<noteq> None);
     remaining \<leftarrow> unwrap (read_all_segmented d dir);
     first \<leftarrow> item remaining 0;
     assert (e_seq first \<le> 5);
     lst \<leftarrow> last_opt remaining;
     assert (e_seq lst = 8);
     let report = verify_entries_from d anc remaining;
     assert (is_valid report) }"

section \<open>Crypto-shredding\<close>

definition email :: "string \<Rightarrow> json" where
  "email who = JObj [(''email'', JStr (who @ ''@example.com''))]"

definition keyring_crypto_shred_makes_pii_unrecoverable_but_chain_intact ::
  "crates \<Rightarrow> (nat \<Rightarrow> env) \<Rightarrow> bool \<Rightarrow> unit option" where
  "keyring_crypto_shred_makes_pii_unrecoverable_but_chain_intact d v rm_fails = do {
     keyring \<leftarrow> unwrap (keyring_open_at d (Some []) True (v 0));
     store \<leftarrow> unwrap (file_open d None (v 1));
     log \<leftarrow> unwrap (log_build (file_ops d)
       (builder_key_provider_arc keyring (builder_store store builder_new)) True);
     (_, log) \<leftarrow> record_call d (file_ops d) (keyring_ops d)
       (record_pii (email ''alice'') (record_key_id ''subject-alice''
         (record_new ''user.created'' Success ''admin''))) (v 2) log;
     (_, log) \<leftarrow> record_call d (file_ops d) (keyring_ops d)
       (record_pii (email ''bob'') (record_key_id ''subject-bob''
         (record_new ''user.created'' Success ''admin''))) (v 3) log;
     keyring \<leftarrow> map_option wr_provider (lh_writer log);
     entries \<leftarrow> unwrap (read_all d (left_file log));
     assert (is_valid (verify_entries d entries));
     e0 \<leftarrow> item entries 0;
     alice_pii \<leftarrow> p_pii (e_payload e0);
     e1 \<leftarrow> item entries 1;
     bob_pii \<leftarrow> p_pii (e_payload e1);
     opened \<leftarrow> returned (open_pii d (keyring_ops d) keyring alice_pii);
     opened \<leftarrow> unwrap opened;
     assert (opened = email ''alice'');
     let (res, keyring) = keyring_shred keyring ''subject-alice'' rm_fails;
     shredded \<leftarrow> unwrap res;
     assert shredded;
     opened \<leftarrow> returned (open_pii d (keyring_ops d) keyring alice_pii);
     assert (is_err opened);
     opened \<leftarrow> returned (open_pii d (keyring_ops d) keyring bob_pii);
     opened \<leftarrow> unwrap opened;
     assert (opened = email ''bob'');
     entries \<leftarrow> unwrap (read_all d (left_file log));
     assert (is_valid (verify_entries d entries)) }"

section \<open>Merkle proofs\<close>

definition merkle_proofs_validate_for_every_leaf :: "crates \<Rightarrow> unit option" where
  "merkle_proofs_validate_for_every_leaf d =
     for_each (\<lambda>n _. do {
       let leaves = map (\<lambda>i. as_bytes (''leaf-'' @ show_nat i)) [0..<n];
       let root = merkle_root d leaves;
       for_each (\<lambda>(i, leaf) _. do {
         prf \<leftarrow> build_merkle_proof d leaves i;
         good \<leftarrow> unwrap (verify_merkle_proof d leaf prf root);
         assert good;
         bad \<leftarrow> unwrap (verify_merkle_proof d (as_bytes ''not-a-leaf'') prf root);
         assert (\<not> bad) }) (enumerate 0 leaves) () }) [1, 2, 3, 5, 8, 13] ()"

definition signed_merkle_anchor_over_a_log :: "crates \<Rightarrow> (nat \<Rightarrow> env) \<Rightarrow> env \<Rightarrow> unit option" where
  "signed_merkle_anchor_over_a_log d v v' = do {
     entries \<leftarrow> recorded_log d ''a'' 6 v;
     signer \<leftarrow> unwrap (signer_generate v');
     let anc = build_merkle_anchor d signer entries 1780000000000;
     assert (\<not> is_err (verify_merkle_anchor d anc));
     prf \<leftarrow> merkle_proof_for_seq d entries 3;
     e \<leftarrow> find (\<lambda>e. e_seq e = 3) entries;
     let leaf = e_entry_hash e;
     ok \<leftarrow> unwrap (verify_merkle_proof d (as_bytes leaf) prf (ma_root anc));
     assert ok;
     let forged = anc\<lparr>ma_root := merkle_root d [as_bytes ''different'']\<rparr>;
     assert (is_err (verify_merkle_anchor d forged)) }"

section \<open>The live test of the client\<close>

text \<open>\<open>Result::expect\<close> on a call of the client; \<open>http i\<close> is the network during call \<open>i\<close>.\<close>

definition expect :: "'a client_result \<Rightarrow> 'a option" where
  "expect r = (case r of Inl _ \<Rightarrow> None | Inr x \<Rightarrow> Some x)"

definition live_request :: append_request where
  "live_request =
     append_data (JObj [(''via'', JStr ''chainlog-client'')])
       (append_new ''client.test'' Success ''tester'')"

definition live_roundtrip ::
  "(string \<Rightarrow> string option) \<Rightarrow> (nat \<Rightarrow> transport) \<Rightarrow> unit option" where
  "live_roundtrip env_var http = do {
     url \<leftarrow> env_var ''CHAINLOG_TEST_URL'';
     wr \<leftarrow> env_var ''CHAINLOG_TEST_WRITE'';
     rd \<leftarrow> env_var ''CHAINLOG_TEST_READ'';
     let client = client_build (builder_read_token rd (builder_write_token wr (client_builder_new url)));
     receipt \<leftarrow> expect (client_append (http 0) client live_request);
     assert (1 \<le> rc_seq receipt);
     h \<leftarrow> expect (client_head (http 1) client);
     assert (hd_head_hash h = rc_entry_hash receipt);
     report \<leftarrow> expect (client_verify (http 2) client);
     assert (is_valid report) }"

end
