(* ===== verification/Tests.thy ===== *)
theory Tests
  imports Scenarios Integrity Durability Confidentiality Anchoring Calls
begin

text \<open>
  The repository's tests pass (\<open>crates/core/src/lib.rs\<close>, \<open>crates/client/tests/live.rs\<close>): for any
  third-party crates that keep their promises, whatever the random bytes and the clock are, as long
  as the system refuses no call. Where a test expects cryptography to resist, the resistance that it
  needs is a hypothesis.
\<close>

section \<open>Smooth environments\<close>

text \<open>No fault, and enough random bytes for one record: a data key, two nonces and a new key.\<close>

definition smooth :: "env \<Rightarrow> bool" where
  "smooth v \<longleftrightarrow>
     env_fault v = NoFault \<and> env_key_fault v = None \<and>
     (\<exists>a b c e xs. env_rng v = Some a # Some b # Some c # Some e # xs)"

lemma smooth_faults [simp]: "smooth v \<Longrightarrow> env_fault v = NoFault"
  by (simp add: smooth_def)

lemma unwrap_simps [simp]: "unwrap (Inl e) = None" "unwrap (Inr x) = Some x"
  by (simp_all add: unwrap_def)

lemma is_err_simps [simp]: "is_err (Inl e)" "\<not> is_err (Inr x)"
  by (simp_all add: is_err_def)

lemma assert_simps [simp]: "assert True = Some ()" "assert False = None" "assert b = Some () \<longleftrightarrow> b"
  by (simp_all add: assert_def)

lemma random_bytes_Some:
  "env_rng v = Some a # xs \<Longrightarrow> random_bytes n v = (Inr (fill n a), v\<lparr>env_rng := xs\<rparr>)"
  by (simp add: random_bytes_def getrandom_def)

lemma smooth_key:
  assumes "smooth v"
  obtains key where "local_generate v = Inr key" and "length (master key) = 32"
  using assms by (auto simp: smooth_def local_generate_def random_bytes_Some)

lemma smooth_signer:
  assumes "smooth v"
  obtains s where "signer_generate v = Inr s" and "length (sk_seed s) = 32"
  using assms by (auto simp: smooth_def signer_generate_def getrandom_def)

section \<open>Loops\<close>

lemma for_each_append: "for_each f (xs @ ys) s = Option.bind (for_each f xs s) (for_each f ys)"
proof (induction xs arbitrary: s)
  case (Cons x xs)
  then show ?case by (cases "f x s") simp_all
qed simp

lemma for_each_inv:
  assumes "for_each f xs s = Some s'" and "I s" and "\<And>x s s'. I s \<Longrightarrow> f x s = Some s' \<Longrightarrow> I s'"
  shows "I s'"
  using assms(1,2)
proof (induction xs arbitrary: s)
  case (Cons x xs)
  then obtain s1 where "f x s = Some s1" "for_each f xs s1 = Some s'"
    by (auto simp: bind_eq_Some_conv)
  with Cons assms(3) show ?case by blast
qed simp

lemma for_each_unit: "(\<And>x. x \<in> set xs \<Longrightarrow> f x () = Some ()) \<Longrightarrow> for_each f xs () = Some ()"
  by (induction xs) simp_all

section \<open>Recording\<close>

abbreviation running :: "('s, 'k) writer_state \<Rightarrow> ('s, 'k) log_handle" where
  "running w \<equiv> \<lparr>lh_tx = True, lh_writer = Some w\<rparr>"

context audit_engine
begin

lemma record_call_adds:
  assumes "log_inv b w" and "rec_ok r" and "room b (entries (wr_store w)) 1"
    and "env_fault v = NoFault" and "seal_record d kops (wr_provider w) r v = (Inr pii, k')"
    and "e = made_entry d r pii (now_ms (env_clock v)) (wr_seq w + 1) (wr_prev_hash w)"
  obtains w' where "record_call d sops kops r v (running w) = Some (receipt_of e, running w')"
    and "log_inv b w'" and "entries (wr_store w') = entries (wr_store w) @ [e]"
    and "wr_provider w' = k'" and "wr_seq w' = wr_seq w + 1"
proof -
  obtain s' where s': "st_append sops e v (wr_store w) = (Inr (), s')"
    using append_succeeds [of "wr_store w" v e] assms(1,4)
    by (cases "st_append sops e v (wr_store w)") (simp add: log_inv_def)
  let ?w = "\<lparr>wr_store = s', wr_provider = k', wr_seq = wr_seq w + 1,
    wr_prev_hash = e_entry_hash e\<rparr>"
  have p: "process d sops kops r v w = (Inr (receipt_of e), ?w)"
    using assms(5,6) s' by (simp add: process_def Let_def)
  then have "step_entry r v w = [e]" using assms(5,6) by (simp add: step_entry_def)
  with process_step(1,2) [OF assms(1-3) _ p] assms(4) that [of ?w] p show thesis
    by (simp add: record_call_def audit_record_def clean_fault_def)
qed

lemma seal_no_pii: "r_pii r = None \<Longrightarrow> seal_record d kops k r v = (Inr None, k)"
  by (simp add: seal_record_def)

lemma record_events_add:
  assumes "log_inv b w" and "\<And>i. rec_ok (event actor i)" and "room b (entries (wr_store w)) n"
    and "\<And>i. env_fault (v i) = NoFault"
  obtains w' new where "record_events d sops kops actor n v (running w) = Some (running w')"
    and "log_inv b w'" and "entries (wr_store w') = entries (wr_store w) @ new"
    and "map e_actor new = replicate n actor" and "wr_provider w' = wr_provider w"
proof -
  have "\<exists>w' new. record_events d sops kops actor n v (running w) = Some (running w') \<and>
      log_inv b w' \<and> entries (wr_store w') = entries (wr_store w) @ new \<and>
      map e_actor new = replicate n actor \<and> wr_provider w' = wr_provider w"
    using assms(3)
  proof (induction n)
    case 0
    with assms(1) show ?case by (intro exI [of _ w]) (simp add: record_events_def)
  next
    case (Suc n)
    then obtain w1 new where w1: "record_events d sops kops actor n v (running w) = Some (running w1)"
        "log_inv b w1" "entries (wr_store w1) = entries (wr_store w) @ new"
        "map e_actor new = replicate n actor" "wr_provider w1 = wr_provider w"
      by (auto simp: room_def)
    then have n: "length new = n" by (metis length_map length_replicate)
    have room: "room b (entries (wr_store w1)) 1" using Suc.prems w1(3) n by (simp add: room_def)
    have pii: "r_pii (event actor n) = None" by (simp add: event_def record_data_def record_new_def)
    let ?e = "made_entry d (event actor n) None (now_ms (env_clock (v n))) (wr_seq w1 + 1)
      (wr_prev_hash w1)"
    obtain w2 where w2: "record_call d sops kops (event actor n) (v n) (running w1) =
          Some (receipt_of ?e, running w2)"
        "log_inv b w2" "entries (wr_store w2) = entries (wr_store w1) @ [?e]"
        "wr_provider w2 = wr_provider w1"
      using record_call_adds [OF w1(2) assms(2) room assms(4) seal_no_pii [OF pii] refl] .
    have "e_actor ?e = actor" by (simp add: event_def record_data_def record_new_def)
    moreover have "record_events d sops kops actor (Suc n) v (running w) = Some (running w2)"
      using w1(1) w2(1) by (simp add: record_events_def for_each_append)
    ultimately show ?case
      using w1 w2(2-4) by (intro exI [of _ w2] exI [of _ "new @ [?e]"])
        (simp add: replicate_append_same)
  qed
  with that show thesis by blast
qed

text \<open>Building on a store that holds a chain from genesis, or nothing yet.\<close>

lemma build_log_resumes:
  assumes "inv s" and "kinv k" and "chain_from d genesis (entries s)"
    and "hash_ok (snd (head_of genesis (entries s)))"
  obtains w where "build_log sops s k = Some (running w)" and "log_inv genesis w"
    and "wr_store w = s" and "wr_provider w = k"
proof -
  from build_succeeds [OF assms(1), of k] obtain l where
    l: "log_build sops (builder_key_provider k (builder_store s builder_new)) True = Inr l" ..
  from build_resumes [OF assms(1-3) impI [OF refl] assms(4) l] that l show thesis
    by (auto simp: build_log_def)
qed

lemma build_log_new:
  assumes "inv s" and "kinv k" and "entries s = []" and "hash_ok GENESIS_PREV_HASH"
  obtains w where "build_log sops s k = Some (running w)" and "log_inv genesis w"
    and "wr_store w = s" and "wr_provider w = k"
  using build_log_resumes [OF assms(1,2)] assms(3,4) by (auto simp: genesis_def)

lemma log_inv_chain: "log_inv genesis w \<Longrightarrow> chain_from d genesis (entries (wr_store w))"
  by (simp add: log_inv_def)

end

lemma event_plain: "utf8_string actor \<Longrightarrow> plain_record (event actor i)"
  by (simp add: event_def plain_record_def record_data_def record_new_def plain_data_def plain_opt_def
      is_value_def to_map_def utf8_ascii_string)

lemma ascii_words [simp]: "utf8_string ''actor''" "utf8_string ''a''"
  by (simp_all add: utf8_ascii_string)

section \<open>The engine in memory\<close>

lemma memory_log_new:
  assumes "aead_ok d"
  obtains w where "build_log memory_ops memory_new key = Some (running w)"
    and "memory_log.log_inv d genesis w" and "ms_entries (wr_store w) = []" and "wr_provider w = key"
proof -
  have new: "memory_inv memory_new" "ms_entries memory_new = []"
    by (simp_all add: memory_inv_def memory_new_def)
  have "cipher_ok d key" using assms by (simp add: cipher_ok_def)
  from memory_log.build_log_new [OF new(1) this new(2) TrueI] obtain w where
    "build_log memory_ops memory_new key = Some (running w)" "memory_log.log_inv d genesis w"
    "wr_store w = memory_new" "wr_provider w = key" .
  with that new(2) show thesis by simp
qed

lemma test_log_runs:
  assumes "aead_ok d" and "smooth v"
  obtains w key where "test_log v = Some (running w, key)"
    and "memory_log.log_inv d genesis w" and "ms_entries (wr_store w) = []"
proof -
  obtain key where key: "local_generate v = Inr key" using smooth_key [OF assms(2)] .
  obtain w where "build_log memory_ops memory_new key = Some (running w)"
      "memory_log.log_inv d genesis w" "ms_entries (wr_store w) = []"
    using memory_log_new [OF assms(1)] .
  with key that show thesis by (simp add: test_log_def)
qed

text \<open>One record without PII in memory: its receipt continues the chain.\<close>

lemma memory_record:
  assumes "memory_log.log_inv d genesis w" and "env_fault v = NoFault" and "r_pii r = None"
    and "length (ms_entries (wr_store w)) + 1 < 2 ^ 64"
  shows "\<exists>rc w'. record_call d memory_ops (local_ops d) r v (running w) = Some (rc, running w') \<and>
    memory_log.log_inv d genesis w' \<and> rc_seq rc = wr_seq w + 1 \<and>
    rc_prev_hash rc = wr_prev_hash w \<and> wr_seq w' = wr_seq w + 1 \<and>
    length (ms_entries (wr_store w')) = length (ms_entries (wr_store w)) + 1"
proof -
  let ?e = "made_entry d r None (now_ms (env_clock v)) (wr_seq w + 1) (wr_prev_hash w)"
  have "room genesis (ms_entries (wr_store w)) 1" using assms(4) by (simp add: room_def genesis_def)
  from memory_log.record_call_adds [OF assms(1) TrueI this assms(2)
      memory_log.seal_no_pii [OF assms(3)] refl] obtain w' where
    "record_call d memory_ops (local_ops d) r v (running w) = Some (receipt_of ?e, running w')"
    "memory_log.log_inv d genesis w'" "ms_entries (wr_store w') = ms_entries (wr_store w) @ [?e]"
    "wr_seq w' = wr_seq w + 1" .
  then show ?thesis
    by (intro exI [of _ "receipt_of ?e"] exI [of _ w']) (simp add: receipt_of_def)
qed

lemma empty_log_head:
  "memory_log.log_inv d genesis w \<Longrightarrow> ms_entries (wr_store w) = [] \<Longrightarrow>
   wr_seq w = 0 \<and> wr_prev_hash w = GENESIS_PREV_HASH"
  by (simp add: memory_log.log_inv_def genesis_def)

lemma plain_event_pii [simp]: "r_pii (record_new ev out actor) = None"
  by (simp add: record_new_def)

text \<open>A list that counts on from \<open>s\<close>, and the loop that expects it.\<close>

fun counts :: "u64 \<Rightarrow> u64 list \<Rightarrow> bool" where
  "counts s [] \<longleftrightarrow> True"
| "counts s (x # xs) \<longleftrightarrow> x = s + 1 \<and> counts x xs"

lemma contiguous_loop:
  assumes "\<And>i. smooth (v i)" and "memory_log.log_inv d genesis w" and "counts (wr_seq w) xs"
    and "length (ms_entries (wr_store w)) + length xs < 2 ^ 64"
  shows "for_each (\<lambda>expected log. do {
      (r, log) \<leftarrow> record_call d memory_ops (local_ops d) (record_new ''evt'' Success ''actor'')
        (v (unat expected)) log;
      assert (rc_seq r = expected);
      Some log }) xs (running w) \<noteq> None"
  using assms(2-)
proof (induction xs arbitrary: w)
  case (Cons x xs)
  have "length (ms_entries (wr_store w)) + 1 < 2 ^ 64" using Cons.prems(3) by simp
  from memory_record [where r = "record_new ''evt'' Success ''actor''" and v = "v (unat x)",
      OF Cons.prems(1) smooth_faults [OF assms(1)] plain_event_pii this] obtain rc w' where rc:
    "record_call d memory_ops (local_ops d) (record_new ''evt'' Success ''actor'') (v (unat x))
      (running w) = Some (rc, running w')" "memory_log.log_inv d genesis w'"
    "rc_seq rc = wr_seq w + 1" "wr_seq w' = wr_seq w + 1"
    "length (ms_entries (wr_store w')) = length (ms_entries (wr_store w)) + 1"
    by (elim exE conjE)
  moreover have "x = wr_seq w + 1" "counts (wr_seq w') xs" using Cons.prems(2) rc(4) by auto
  ultimately show ?case using Cons.IH [of w'] Cons.prems(3) by simp
qed simp

lemma contiguous_passes:
  assumes "aead_ok d" and "\<And>i. smooth (v i)"
  shows "assigns_contiguous_sequence_numbers d v = Some ()"
proof -
  obtain w key where w: "test_log (v 0) = Some (running w, key)" "memory_log.log_inv d genesis w"
      "ms_entries (wr_store w) = []"
    using test_log_runs [OF assms] .
  have "counts (wr_seq w) [1, 2, 3, 4, 5]" using empty_log_head [OF w(2,3)] by simp
  then have "for_each (\<lambda>expected log. do {
      (r, log) \<leftarrow> record_call d memory_ops (local_ops d) (record_new ''evt'' Success ''actor'')
        (v (unat expected)) log;
      assert (rc_seq r = expected);
      Some log }) [1, 2, 3, 4, 5] (running w) \<noteq> None"
    using w(3) by (intro contiguous_loop assms(2) w(2)) simp_all
  then show ?thesis
    unfolding assigns_contiguous_sequence_numbers_def w(1) by (auto simp del: for_each.simps)
qed

lemma first_entry_passes:
  assumes "aead_ok d" and "\<And>i. smooth (v i)"
  shows "first_entry_links_to_genesis d v = Some ()"
proof -
  obtain w key where w: "test_log (v 0) = Some (running w, key)" "memory_log.log_inv d genesis w"
      "ms_entries (wr_store w) = []"
    using test_log_runs [OF assms] .
  have "length (ms_entries (wr_store w)) + 1 < 2 ^ 64" using w(3) by simp
  from memory_record [OF w(2) smooth_faults [OF assms(2)] plain_event_pii this] obtain rc w' where
    "record_call d memory_ops (local_ops d) (record_new ''evt'' Success ''actor'') (v 1)
      (running w) = Some (rc, running w')" "rc_prev_hash rc = wr_prev_hash w" by blast
  with w empty_log_head [OF w(2,3)] show ?thesis by (simp add: first_entry_links_to_genesis_def)
qed

section \<open>The engine over a file\<close>

interpretation file_local_log: audit_engine "file_ops d" "file_inv d" "file_entries d"
  "entry_ok d" "local_ops d" "cipher_ok d" d "record_ok d" utf8_string for d
  by unfold_locales (auto simp: record_ok_def made_entry_ok made_entry_hash_utf8)

lemma engine_cipher: "engine_crates d \<Longrightarrow> cipher_ok d k"
  by (simp add: engine_crates_def cipher_ok_def)

lemma file_log_new:
  assumes "engine_crates d" and "smooth v"
  obtains w where "file_log_at d None key v = Some (running w)"
    and "file_local_log.log_inv d genesis w" and "file_entries d (wr_store w) = []"
    and "wr_provider w = key"
proof -
  let ?s = "\<lparr>fs_file = [], fs_tail = None\<rparr>"
  have s: "file_open d None v = Inr ?s" "file_inv d ?s" "file_entries d ?s = []"
    using file_open_new [of v d] assms(2) by simp_all
  from file_local_log.build_log_new [OF s(2) engine_cipher [OF assms(1)] s(3) utf8_genesis]
  obtain w where "build_log (file_ops d) ?s key = Some (running w)"
    "file_local_log.log_inv d genesis w" "wr_store w = ?s" "wr_provider w = key" .
  with s that show thesis by (simp add: file_log_at_def)
qed

lemma left_file_read:
  "file_local_log.log_inv d b w \<Longrightarrow>
   read_all d (left_file (running w)) = Inr (file_entries d (wr_store w))"
  by (simp add: left_file_def file_local_log.log_inv_def file_inv_read)

lemma recorded_log_runs:
  assumes "engine_crates d" and "\<And>i. smooth (v i)" and "utf8_string actor" and "n < 2 ^ 64"
  obtains es where "recorded_log d actor n v = Some es" and "chain_from d genesis es"
    and "map e_actor es = replicate n actor" and "length es = n"
proof -
  obtain key where key: "local_generate (v 0) = Inr key" using smooth_key [OF assms(2)] .
  obtain w where w: "file_log_at d None key (v 1) = Some (running w)"
      "file_local_log.log_inv d genesis w" "file_entries d (wr_store w) = []"
    using file_log_new [OF assms(1,2)] .
  have rec: "record_ok d (event actor i)" for i
    using assms(1,3) event_plain by (simp add: record_ok_def)
  have room: "room genesis (file_entries d (wr_store w)) n"
    using assms(4) w(3) by (simp add: room_def genesis_def)
  obtain w' new where w': "record_events d (file_ops d) (local_ops d) actor n (\<lambda>i. v (2 + i))
        (running w) = Some (running w')"
      "file_local_log.log_inv d genesis w'"
      "file_entries d (wr_store w') = file_entries d (wr_store w) @ new"
      "map e_actor new = replicate n actor"
    using file_local_log.record_events_add [OF w(2) rec room smooth_faults [OF assms(2)]] .
  have "recorded_log d actor n v = Some new"
    using key w(1,3) w'(1,3) left_file_read [OF w'(2)] by (simp add: recorded_log_def)
  moreover have "chain_from d genesis new"
    using w'(2,3) w(3) by (simp add: file_local_log.log_inv_def)
  moreover have "length new = n" using w'(4) by (metis length_map length_replicate)
  ultimately show thesis using that w'(4) by blast
qed

lemma valid_chain_passes:
  assumes "engine_crates d" and "\<And>i. smooth (v i)"
  shows "valid_chain_verifies d v = Some ()"
proof -
  obtain es where "recorded_log d ''actor'' 10 v = Some es" "chain_from d genesis es" "length es = 10"
    using recorded_log_runs [of d v "''actor''" 10] assms by auto
  moreover from this have "entries_checked (verify_entries d es) = 10"
    by (simp add: verify_entries_def verify_entries_from_def Let_def walk_count)
  ultimately show ?thesis by (simp add: valid_chain_verifies_def)
qed

lemma length_3: "length xs = 3 \<longleftrightarrow> (\<exists>a b c. xs = [a, b, c])"
  by (auto simp: numeral_eq_Suc length_Suc_conv)

lemma length_4: "length xs = 4 \<longleftrightarrow> (\<exists>a b c e. xs = [a, b, c, e])"
  by (auto simp: numeral_eq_Suc length_Suc_conv)

lemma length_6: "length xs = 6 \<longleftrightarrow> (\<exists>a b c e f g. xs = [a, b, c, e, f, g])"
  by (auto simp: numeral_eq_Suc length_Suc_conv)

lemma actor_changes_bytes:
  "e_actor e = ''actor'' \<Longrightarrow> canonical_bytes d (e\<lparr>e_actor := ''attacker''\<rparr>) \<noteq> canonical_bytes d e"
  by (auto simp: canonical_bytes_fields push_field_def instruction_text_def
      dest!: arg_cong [where f = length])

lemma tampering_passes:
  assumes "engine_crates d" and "blake3_ok d" and "\<And>i. smooth (v i)"
    and "\<And>es. recorded_log d ''actor'' 3 v = Some es \<Longrightarrow>
      \<not> hash_collision d ((es ! 1)\<lparr>e_actor := ''attacker''\<rparr>) (es ! 1)"
  shows "tampering_with_contents_is_detected d v = Some ()"
proof -
  obtain es where es: "recorded_log d ''actor'' 3 v = Some es" "chain_from d genesis es"
      "map e_actor es = replicate 3 ''actor''" "length es = 3"
    using recorded_log_runs [of d v "''actor''" 3] assms by auto
  then obtain a b c where abc: "es = [a, b, c]" by (auto simp: length_3)
  let ?b = "b\<lparr>e_actor := ''attacker''\<rparr>"
  have b: "sealed d b" "e_seq b = 2" "e_actor b = ''actor''"
    using es(2,3) abc by (simp_all add: genesis_def numeral_eq_Suc)
  have "\<not> hash_collision d ?b b" using assms(4) [OF es(1)] abc by simp
  then have "\<not> sealed d ?b"
    using entry_hash_eqD [of d ?b b] assms(1,2) b actor_changes_bytes
    by (auto simp: sealed_def engine_crates_def)
  then obtain m where "viol 2 BadHash m \<in> set (check_content d ?b)"
    using unsealed_violation [of d ?b] b(2) by auto
  then have "viol 2 BadHash m \<in> set (violations (verify_entries d [a, ?b, c]))"
    by (simp add: verify_entries_def verify_violations_Cons)
  then have "list_ex (\<lambda>x. v_kind x = BadHash \<and> v_seq x = 2) (violations (verify_entries d [a, ?b, c]))"
    by (force simp: list_ex_iff viol_def)
  with \<open>\<not> sealed d ?b\<close> es(1) abc show ?thesis
    by (simp add: tampering_with_contents_is_detected_def item_def)
qed

lemma deleting_passes:
  assumes "engine_crates d" and "\<And>i. smooth (v i)"
  shows "deleting_an_entry_is_detected d v = Some ()"
proof -
  obtain es where es: "recorded_log d ''actor'' 4 v = Some es" "chain_from d genesis es" "length es = 4"
    using recorded_log_runs [of d v "''actor''" 4] assms by auto
  then obtain a b c e where abc: "es = [a, b, c, e]" by (auto simp: length_4)
  have c: "e_seq c \<noteq> e_seq a + 1" using es(2) abc by (simp add: genesis_def)
  then obtain m where "viol (e_seq c) SequenceGap m \<in> set (violations (verify_entries d [a, c, e]))"
    using gap_reported [of c None "[a]" d "[e]"] by (auto simp: verify_entries_def)
  then have "list_ex (\<lambda>x. v_kind x = SequenceGap \<or> v_kind x = BrokenLink)
      (violations (verify_entries d [a, c, e]))"
    by (force simp: list_ex_iff viol_def)
  moreover have "\<not> chain_from d genesis [a, c, e]" using c by simp
  ultimately show ?thesis
    using es(1) abc by (simp add: deleting_an_entry_is_detected_def item_def del: chain_from.simps chain_from_append)
qed

lemma anchored_passes:
  assumes "engine_crates d" and "\<And>i. smooth (v i)"
  shows "anchored_verify_accepts_a_pruned_tail d v = Some ()"
proof -
  obtain es where es: "recorded_log d ''a'' 6 v = Some es" "chain_from d genesis es" "length es = 6"
    using recorded_log_runs [of d v "''a''" 6] assms by auto
  then obtain a b c e f g where abc: "es = [a, b, c, e, f, g]" by (auto simp: length_6)
  with es(2) have "chain_from d (e_seq c, e_entry_hash c) [e, f, g]" "e_seq e = 4"
    by (simp_all add: genesis_def)
  with es(1) abc show ?thesis
    by (simp add: anchored_verify_accepts_a_pruned_tail_def item_def numeral_eq_Suc base_of_def)
      (simp add: genesis_def)
qed

lemma file_log_reopen:
  assumes "engine_crates d" and "file_local_log.log_inv d genesis w" and "smooth v"
  obtains w' where "file_log_at d (left_file (running w)) key v = Some (running w')"
    and "file_local_log.log_inv d genesis w'"
    and "file_entries d (wr_store w') = file_entries d (wr_store w)"
proof -
  let ?es = "file_entries d (wr_store w)"
  have inv: "list_all (entry_ok d) ?es" "fs_file (wr_store w) = file_of d ?es"
      "utf8_string (wr_prev_hash w)" "snd (head_of genesis ?es) = wr_prev_hash w"
    using assms(2) by (auto simp: file_local_log.log_inv_def file_inv_def dest: sym)
  note chain = file_local_log.log_inv_chain [OF assms(2)]
  obtain s where s: "file_open d (Some (file_of d ?es)) v = Inr s" "file_inv d s"
      "file_entries d s = ?es"
    using file_open_file_of [OF inv(1), of v] assms(3) by auto
  have "chain_from d genesis (file_entries d s)"
      "utf8_string (snd (head_of genesis (file_entries d s)))"
    using chain inv(3,4) s(3) by simp_all
  from file_local_log.build_log_resumes [OF s(2) engine_cipher [OF assms(1)] this] obtain w' where
    "build_log (file_ops d) s key = Some (running w')" "file_local_log.log_inv d genesis w'"
    "wr_store w' = s" .
  with s inv(2) that show thesis by (simp add: file_log_at_def left_file_def)
qed

lemma file_record:
  assumes "engine_crates d" and "file_local_log.log_inv d genesis w" and "plain_record r"
    and "r_pii r = None" and "smooth v" and "length (file_entries d (wr_store w)) + 1 < 2 ^ 64"
  shows "\<exists>e w'. record_call d (file_ops d) (local_ops d) r v (running w) =
      Some (receipt_of e, running w') \<and> file_local_log.log_inv d genesis w' \<and>
    file_entries d (wr_store w') = file_entries d (wr_store w) @ [e]"
proof -
  have rec: "record_ok d r" using assms(1,3) by (simp add: record_ok_def)
  have room: "room genesis (file_entries d (wr_store w)) 1"
    using assms(6) by (simp add: room_def genesis_def)
  let ?e = "made_entry d r None (now_ms (env_clock v)) (wr_seq w + 1) (wr_prev_hash w)"
  from file_local_log.record_call_adds [OF assms(2) rec room smooth_faults [OF assms(5)]
      file_local_log.seal_no_pii [OF assms(4)] refl] show ?thesis
    by (intro exI [of _ ?e]) (metis (no_types, lifting))
qed

lemma plain_word: "utf8_string ev \<Longrightarrow> utf8_string actor \<Longrightarrow> plain_record (record_new ev out actor)"
  by (simp add: plain_record_def record_new_def plain_data_def plain_opt_def is_value_def
      utf8_ascii_string)

lemma chain_resumes_passes:
  assumes "engine_crates d" and "\<And>i. smooth (v i)"
  shows "chain_resumes_across_reopen d v = Some ()"
proof -
  have plain: "plain_record (record_new [c] Success ''x'')" if "c \<in> {CHR ''a'', CHR ''b'', CHR ''c''}" for c
    using that by (intro plain_word) (auto simp: utf8_ascii_string)
  note rec = file_record [OF assms(1) _ plain plain_event_pii assms(2)]
  obtain key where key: "local_generate (v 0) = Inr key" using smooth_key [OF assms(2)] .
  obtain w where w: "file_log_at d None key (v 1) = Some (running w)"
      "file_local_log.log_inv d genesis w" "file_entries d (wr_store w) = []"
    using file_log_new [OF assms] .
  obtain e1 w1 where w1: "record_call d (file_ops d) (local_ops d) (record_new ''a'' Success ''x'')
        (v 2) (running w) = Some (receipt_of e1, running w1)"
      "file_local_log.log_inv d genesis w1" "file_entries d (wr_store w1) = [e1]"
    using rec [of w "CHR ''a''" 2] w by auto
  obtain e2 w2 where w2: "record_call d (file_ops d) (local_ops d) (record_new ''b'' Success ''x'')
        (v 3) (running w1) = Some (receipt_of e2, running w2)"
      "file_local_log.log_inv d genesis w2" "file_entries d (wr_store w2) = [e1, e2]"
    using rec [of w1 "CHR ''b''" 3] w1 by auto
  obtain w3 where w3: "file_log_at d (left_file (running w2)) key (v 4) = Some (running w3)"
      "file_local_log.log_inv d genesis w3" "file_entries d (wr_store w3) = [e1, e2]"
    using file_log_reopen [OF assms(1) w2(2) assms(2)] w2(3) by metis
  obtain e3 w4 where w4: "record_call d (file_ops d) (local_ops d) (record_new ''c'' Success ''x'')
        (v 5) (running w3) = Some (receipt_of e3, running w4)"
      "file_local_log.log_inv d genesis w4" "file_entries d (wr_store w4) = [e1, e2, e3]"
    using rec [of w3 "CHR ''c''" 5] w3 by auto
  have "chain_from d genesis [e1, e2, e3]" using file_local_log.log_inv_chain [OF w4(2)] w4(3) by simp
  moreover from this have "rc_seq (receipt_of e3) = 3" by (simp add: receipt_of_def genesis_def)
  ultimately show ?thesis
    using key w(1) w1(1) w2(1) w3(1) w4 left_file_read [OF w4(2)]
    by (simp add: chain_resumes_across_reopen_def Let_def)
qed

section \<open>Checkpoints\<close>

text \<open>The signature that the seed makes of one message is accepted for another.\<close>

definition forgery :: "crates \<Rightarrow> bytes \<Rightarrow> bytes \<Rightarrow> bytes \<Rightarrow> bool" where
  "forgery d seed m m' \<longleftrightarrow> m' \<noteq> m \<and> ed_verify d (ed_public d seed) m' (ed_sign d seed m)"

lemma checkpoint_test_passes:
  assumes "ed25519_ok d" and "base64_ok d" and "smooth v"
    and "\<And>s. signer_generate v = Inr s \<Longrightarrow>
      \<not> forgery d (sk_seed s) (message 7 ''deadbeef'' 1780000000000) (message 7 ''cafebabe'' 1780000000000)"
  shows "checkpoint_signs_and_verifies d v = Some ()"
proof -
  obtain s where s: "signer_generate v = Inr s" "length (sk_seed s) = 32"
    using smooth_signer [OF assms(3)] .
  let ?cp = "sign d s 7 ''deadbeef'' 1780000000000"
  let ?forged = "?cp\<lparr>cp_head_hash := ''cafebabe''\<rparr>"
  have ok: "verify_checkpoint d ?cp = Inr ()"
    using verify_checkpoint_sign [OF assms(1,2) s(2)] verify_checkpoint_Inr by blast
  have "message 7 ''cafebabe'' 1780000000000 \<noteq> message 7 ''deadbeef'' 1780000000000"
    by (simp add: message_inject fits_def)
  then have "verify_checkpoint d ?forged \<noteq> Inr ()"
    using assms(4) [OF s(1)]
    by (auto simp: verify_checkpoint_Inr verify_checkpoint_with_Inr sign_def public_base64_def Let_def
        base64_decode_encode [OF assms(2)] forgery_def)
  then have "is_err (verify_checkpoint d ?forged)" by (cases "verify_checkpoint d ?forged") auto
  with ok s(1) show ?thesis by (simp add: checkpoint_signs_and_verifies_def)
qed

lemma pinned_test_passes:
  assumes "ed25519_ok d" and "base64_ok d" and "\<And>i. smooth (v i)"
    and "\<And>s t. signer_generate (v 0) = Inr s \<Longrightarrow> signer_generate (v 1) = Inr t \<Longrightarrow>
      ed_public d (sk_seed s) \<noteq> ed_public d (sk_seed t)"
  shows "checkpoint_pinned_key_mismatch_is_rejected d v = Some ()"
proof -
  obtain s where s: "signer_generate (v 0) = Inr s" "length (sk_seed s) = 32"
    using smooth_signer [OF assms(3)] .
  obtain t where t: "signer_generate (v 1) = Inr t" "length (sk_seed t) = 32"
    using smooth_signer [OF assms(3)] .
  let ?r = "verify_checkpoint_with d (sign d s 1 ''abc'' 1) (ed_public d (sk_seed t))"
  have "?r \<noteq> Inr ()"
    using assms(4) [OF s(1) t(1)]
    by (simp add: verify_checkpoint_with_Inr sign_def public_base64_def Let_def
        base64_decode_encode [OF assms(2)])
  then have "is_err ?r" by (cases ?r) auto
  with s(1) t show ?thesis
    by (simp add: checkpoint_pinned_key_mismatch_is_rejected_def public_base64_def
        base64_decode_encode [OF assms(2)] ed25519_sign_verify [OF assms(1)])
qed

section \<open>Merkle proofs\<close>

text \<open>Whether a proof can be climbed does not depend on the leaf.\<close>

lemma climb_any: "climb d x ps = Inr n \<Longrightarrow> \<exists>m. climb d y ps = Inr m"
  by (induction ps arbitrary: x y) (auto split: sum.splits)

lemma wrong_leaf_rejected:
  assumes "blake3_ok d" and "hex_ok d" and "build_merkle_proof d xs i = Some p"
    and "leaf \<notin> set xs"
    and "inj_on (b3_hash d) (set (mth_inputs d xs) \<union> set (proof_inputs d leaf (mp_path p)))"
  shows "verify_merkle_proof d leaf p (merkle_root d xs) = Inr False"
proof -
  have ne: "xs \<noteq> []" using assms(3) by (auto simp: build_merkle_proof_Some)
  obtain n where "climb d (leaf_hash d (xs ! i)) (mp_path p) = Inr n"
    using verify_build_merkle_proof [OF assms(1-3)] by (auto simp: verify_merkle_proof_def split: sum.splits)
  then obtain m where "climb d (leaf_hash d leaf) (mp_path p) = Inr m" using climb_any by blast
  moreover have "verify_merkle_proof d leaf p (merkle_root d xs) \<noteq> Inr True"
    using verify_merkle_proof_sound [OF assms(1,2) ne assms(5)] assms(4) by auto
  ultimately show ?thesis by (simp add: verify_merkle_proof_def)
qed

definition test_leaves :: "nat \<Rightarrow> bytes list" where
  "test_leaves n = map (\<lambda>i. as_bytes (''leaf-'' @ show_nat i)) [0..<n]"

lemma not_a_leaf: "as_bytes ''not-a-leaf'' \<notin> set (test_leaves n)"
proof -
  have "as_bytes ''not-a-leaf'' \<noteq> as_bytes (''leaf-'' @ show_nat i)" for i
    unfolding as_bytes_inject by simp
  then show ?thesis by (auto simp: test_leaves_def simp del: as_bytes_simps)
qed

lemma merkle_test_passes:
  assumes "blake3_ok d" and "hex_ok d"
    and "\<And>n i p. n \<in> {1, 2, 3, 5, 8, 13} \<Longrightarrow> build_merkle_proof d (test_leaves n) i = Some p \<Longrightarrow>
      inj_on (b3_hash d) (set (mth_inputs d (test_leaves n)) \<union>
        set (proof_inputs d (as_bytes ''not-a-leaf'') (mp_path p)))"
  shows "merkle_proofs_validate_for_every_leaf d = Some ()"
  unfolding merkle_proofs_validate_for_every_leaf_def Let_def test_leaves_def [symmetric]
proof (intro for_each_unit, clarify)
  fix n :: nat and i leaf
  assume n: "n \<in> set [1, 2, 3, 5, 8, 13]" and "(i, leaf) \<in> set (enumerate 0 (test_leaves n))"
  then have i: "i < length (test_leaves n)" "leaf = test_leaves n ! i"
    by (auto simp: in_set_enumerate_eq)
  then obtain p where p: "build_merkle_proof d (test_leaves n) i = Some p"
    by (auto simp: build_merkle_proof_def Let_def)
  have "n \<in> {1, 2, 3, 5, 8, 13}" using n by auto
  note wrong = wrong_leaf_rejected [OF assms(1,2) p not_a_leaf assms(3) [OF this p]]
  show "(do {
      prf \<leftarrow> build_merkle_proof d (test_leaves n) i;
      good \<leftarrow> unwrap (verify_merkle_proof d leaf prf (merkle_root d (test_leaves n)));
      assert good;
      bad \<leftarrow> unwrap (verify_merkle_proof d (as_bytes ''not-a-leaf'') prf
        (merkle_root d (test_leaves n)));
      assert (\<not> bad) }) = Some ()"
    using p wrong verify_build_merkle_proof [OF assms(1,2) p] i(2)
    by (simp del: as_bytes_simps)
qed

lemma fits_root: "blake3_ok d \<Longrightarrow> hex_ok d \<Longrightarrow> fits (merkle_root d xs)"
  by (simp add: merkle_root_def hex_ok_def fits_def)

lemma merkle_anchor_test_passes:
  assumes "engine_crates d" and "blake3_ok d" and "ed25519_ok d" and "\<And>i. smooth (v i)"
    and "smooth v'"
    and "\<And>es. recorded_log d ''a'' 6 v = Some es \<Longrightarrow>
      merkle_root d [as_bytes ''different''] \<noteq> merkle_root d (entry_leaves es)"
    and "\<And>es s. recorded_log d ''a'' 6 v = Some es \<Longrightarrow> signer_generate v' = Inr s \<Longrightarrow>
      \<not> forgery d (sk_seed s)
        (anchor_message 1 6 6 (merkle_root d (entry_leaves es)) 1780000000000)
        (anchor_message 1 6 6 (merkle_root d [as_bytes ''different'']) 1780000000000)"
  shows "signed_merkle_anchor_over_a_log d v v' = Some ()"
proof -
  have crates: "hex_ok d" "base64_ok d" using assms(1) by (simp_all add: engine_crates_def)
  obtain es where es: "recorded_log d ''a'' 6 v = Some es" "chain_from d genesis es" "length es = 6"
    using recorded_log_runs [of d v "''a''" 6] assms(1,4) by auto
  obtain s where s: "signer_generate v' = Inr s" "length (sk_seed s) = 32"
    using smooth_signer [OF assms(5)] .
  obtain a b c e f g where abc: "es = [a, b, c, e, f, g]" using es(3) by (auto simp: length_6)
  with es(2) have seq: "e_seq a = 1" "e_seq b = 2" "e_seq c = 3" "e_seq g = 6"
    by (simp_all add: genesis_def)
  let ?a = "build_merkle_anchor d s es 1780000000000"
  let ?forged = "?a\<lparr>ma_root := merkle_root d [as_bytes ''different'']\<rparr>"
  obtain p where p: "build_merkle_proof d (entry_leaves es) 2 = Some p"
    using abc by (simp add: build_merkle_proof_def entry_leaves_def Let_def)
  then have proof_ok: "merkle_proof_for_seq d es 3 = Some p"
      "verify_merkle_proof d (as_bytes (e_entry_hash c)) p (ma_root ?a) = Inr True"
    using verify_build_merkle_proof [OF assms(2) crates(1) p] abc seq
    by (simp_all add: merkle_proof_for_seq_def ma_root_build numeral_eq_Suc entry_leaves_def
        del: as_bytes_simps)
  have find: "find (\<lambda>e. e_seq e = 3) es = Some c" using abc seq by simp
  have ends: "(case es of [] \<Rightarrow> 0 | e # _ \<Rightarrow> e_seq e) = 1"
      "(case last_opt es of None \<Rightarrow> 0 | Some e \<Rightarrow> e_seq e) = 6"
    using abc seq by (simp_all add: last_opt_def)
  have ok: "verify_merkle_anchor d ?a = Inr ()"
    by (rule verify_build_merkle_anchor [OF assms(3) crates(2) s(2)])
  have "verify_merkle_anchor d ?forged \<noteq> Inr ()"
  proof
    assume "verify_merkle_anchor d ?forged = Inr ()"
    then have "ed_verify d (ed_public d (sk_seed s))
        (anchor_message 1 6 6 (merkle_root d [as_bytes ''different'']) 1780000000000)
        (ed_sign d (sk_seed s) (anchor_message 1 6 6 (merkle_root d (entry_leaves es)) 1780000000000))"
      using ends es(3) crates(2) s(2) assms(3)
      by (simp add: verify_merkle_anchor_def build_merkle_anchor_def verify_signature_def
          public_base64_def sign_bytes_def ed25519_sign_verify merkle_root_def Let_def
          del: as_bytes_simps split: if_splits)
    with assms(7) [OF es(1) s(1)] have
      "anchor_message 1 6 6 (merkle_root d [as_bytes ''different'']) 1780000000000 =
       anchor_message 1 6 6 (merkle_root d (entry_leaves es)) 1780000000000"
      by (auto simp: forgery_def)
    with assms(6) [OF es(1)] show False
      by (simp add: anchor_message_inject fits_root [OF assms(2) crates(1)] del: as_bytes_simps)
  qed
  then have "is_err (verify_merkle_anchor d ?forged)" by (cases "verify_merkle_anchor d ?forged") auto
  with ok es(1) s(1) proof_ok find show ?thesis
    by (simp add: signed_merkle_anchor_over_a_log_def Let_def del: as_bytes_simps find.simps)
qed

section \<open>Segments\<close>

interpretation seg_local_log: audit_engine "seg_ops d" "seg_filled d m" "seg_entries d"
  "entry_ok d" "local_ops d" "cipher_ok d" d "record_ok d" utf8_string for d m
  by unfold_locales (auto simp: record_ok_def made_entry_ok made_entry_hash_utf8)

text \<open>A directory with nothing but segment files, which is what a store on an empty one makes.\<close>

definition only_segments :: "seg_store \<Rightarrow> bool" where
  "only_segments s \<longleftrightarrow>
     insert (sg_file s) (fst ` set (sg_dir s)) \<subseteq> range segment_name"

lemma fst_update: "fst ` set (AList.update k v xs) = insert k (fst ` set xs)"
  using dom_update [of k v xs] by (simp add: dom_map_of_conv_image_fst)

lemma seg_append_only: "only_segments s \<Longrightarrow> only_segments (snd (st_append (seg_ops d) e v s))"
  by (auto simp: seg_ops_def seg_append_def rotate_to_def touch_def only_segments_def fst_update Let_def
      split: sum.splits prod.splits if_splits)

lemma record_call_Some:
  assumes "record_call d sops kops r v log = Some (rc, log')"
  obtains w w' where "lh_writer log = Some w" and "process d sops kops r v w = (Inr rc, w')"
    and "log' = log\<lparr>lh_writer := Some w'\<rparr>"
  using assms
  by (auto simp: record_call_def audit_record_def unwrap_def Let_def bind_eq_Some_conv
      split: if_splits option.splits prod.splits sum.splits)

lemma process_store:
  assumes "process d sops kops r v w = (res, w')"
  shows "wr_store w' = wr_store w \<or> (\<exists>e. wr_store w' = snd (st_append sops e v (wr_store w)))"
proof -
  obtain x k' where seal: "seal_record d kops (wr_provider w) r v = (x, k')"
    by (cases "seal_record d kops (wr_provider w) r v")
  show ?thesis
  proof (cases x)
    case (Inl er)
    with assms seal have "wr_store w' = wr_store w" by (auto simp: process_def)
    then show ?thesis ..
  next
    case (Inr pii)
    let ?e = "made_entry d r pii (now_ms (env_clock v)) (wr_seq w + 1) (wr_prev_hash w)"
    obtain y s' where app: "st_append sops ?e v (wr_store w) = (y, s')"
      by (cases "st_append sops ?e v (wr_store w)")
    have "wr_store w' = s'" using assms seal Inr app by (cases y) (auto simp: process_def Let_def)
    with app show ?thesis by (metis snd_conv)
  qed
qed

lemma record_events_only:
  assumes "only_segments (wr_store w)"
    and "record_events d (seg_ops d) kops actor n v (running w) = Some (running w')"
  shows "only_segments (wr_store w')"
proof -
  let ?I = "\<lambda>log. \<forall>w. lh_writer log = Some w \<longrightarrow> only_segments (wr_store w)"
  have pr: "only_segments (wr_store w')"
    if "process d (seg_ops d) kops r v w = (res, w')" "only_segments (wr_store w)" for r v w res w'
    using process_store [OF that(1)] seg_append_only [OF that(2)] that(2) by auto
  have step: "?I log'" if "record_call d (seg_ops d) kops r v log = Some (rc, log')" "?I log"
    for r v log rc log'
    by (rule record_call_Some [OF that(1)]) (use that(2) in \<open>auto dest: pr\<close>)
  have "?I (running w')"
  proof (rule for_each_inv [OF assms(2) [unfolded record_events_def], where I = ?I])
    fix i log log'
    assume "?I log" and "do {
        (_, log) \<leftarrow> record_call d (seg_ops d) kops (event actor i) (v i) log;
        Some log } = Some log'"
    then obtain rc where "record_call d (seg_ops d) kops (event actor i) (v i) log = Some (rc, log')"
      by (auto simp: bind_eq_Some_conv)
    with step \<open>?I log\<close> show "?I log'" by blast
  qed (use assms(1) in simp)
  then show ?thesis by simp
qed

lemma only_segments_count:
  assumes "only_segments s"
  shows "length (filter (\<lambda>(n, _). prefix ''seg-'' n) (sg_dir s)) =
    length (list_segments (Some (sg_dir s)))"
proof -
  let ?names = "map fst (sg_dir s)"
  have names: "\<exists>f. n = segment_name f" if "n \<in> set ?names" for n
    using assms that by (auto simp: only_segments_def)
  then have "\<forall>n \<in> set ?names. prefix ''seg-'' n" by (force simp: segment_name_def)
  then have "filter (\<lambda>(n, _). prefix ''seg-'' n) (sg_dir s) = sg_dir s"
    by (intro filter_True) auto
  moreover have "\<forall>n \<in> set ?names. parse_segment_first_seq n \<noteq> None" using names by force
  then have "filter (\<lambda>n. parse_segment_first_seq n \<noteq> None) ?names = ?names" by (intro filter_True)
  then have "length (segments_of_names ?names) = length (sg_dir s)"
    using arg_cong [OF map_snd_listing [of parse_segment_first_seq ?names], of length]
    by (simp add: segments_of_names_def del: map_map)
  ultimately show ?thesis by (simp add: list_segments_def)
qed

lemma seg_log_at_opens:
  assumes "engine_crates d" and "openable d None ps files" and "filled (unat m) ps" and "smooth v"
    and "seg_open d (Some files) m v = Inr s" and "smooth v'"
  obtains w where "seg_log_at d (Some files) m v v' = Some (running w)"
    and "seg_local_log.log_inv d m genesis w" and "seg_entries d (wr_store w) = all_entries ps"
    and "wr_store w = s"
proof -
  have s: "seg_filled d m s" "seg_entries d s = all_entries ps"
    using openable_rep [OF assms(2,3,5)] by simp_all
  have chain: "chain_from d genesis (seg_entries d s)"
    using openable_chain(1) [OF assms(2)] s(2) by (simp add: base_of_def)
  have hex: "hex_ok d" using assms(1) by (simp add: engine_crates_def)
  obtain key where key: "local_generate v' = Inr key" using smooth_key [OF assms(6)] .
  from seg_local_log.build_log_resumes [OF s(1) engine_cipher [OF assms(1)] chain
      chain_head_utf8_genesis [OF hex chain]] obtain w where
    "build_log (seg_ops d) s key = Some (running w)" "seg_local_log.log_inv d m genesis w"
    "wr_store w = s" .
  with assms(5) s(2) key that show thesis by (simp add: seg_log_at_def)
qed

lemma seg_log_new:
  assumes "engine_crates d" and "smooth v" and "m \<noteq> 0" and "smooth v'"
  obtains w where "seg_log_at d (Some []) m v v' = Some (running w)"
    and "seg_local_log.log_inv d m genesis w" and "seg_entries d (wr_store w) = []"
    and "only_segments (wr_store w)"
proof -
  have new: "names_segments (map fst []) {}" by (simp add: names_segments_def)
  obtain s where s: "seg_open d (Some []) m v = Inr s"
    using seg_open_new [OF new assms(3), of v d] assms(2) by auto
  then have "only_segments s"
    using assms(2,3)
    by (auto simp: seg_open_def list_segments_def segments_of_names_def touch_def only_segments_def
        List.map_filter_simps split: if_splits)
  moreover have "openable d None [] []" "filled (unat m) []"
    using new by (simp_all add: openable_def filled_def)
  ultimately obtain w where "seg_log_at d (Some []) m v v' = Some (running w)"
      "seg_local_log.log_inv d m genesis w" "seg_entries d (wr_store w) = all_entries []"
      "wr_store w = s"
    using seg_log_at_opens [OF assms(1) _ _ assms(2) s assms(4)] by blast
  with \<open>only_segments s\<close> that show thesis by simp
qed

lemma seg_log_reopen:
  assumes "engine_crates d" and "seg_local_log.log_inv d m genesis w" and "smooth v" and "smooth v'"
  obtains w' where "seg_log_at d (left_dir (running w)) m v v' = Some (running w')"
    and "seg_local_log.log_inv d m genesis w'"
    and "seg_entries d (wr_store w') = seg_entries d (wr_store w)"
proof -
  let ?s = "wr_store w"
  from assms(2) obtain ps where rep: "seg_rep d ?s ps" and filled: "filled (unat m) ps"
    and max: "sg_max_entries ?s = m"
    by (auto simp: seg_local_log.log_inv_def seg_filled_def)
  have parts: "holds d (sg_dir ?s) ps" "pieces_ok ps" "last_ok ps" "ps \<noteq> []" "m \<noteq> 0"
    using rep max by (auto simp: seg_rep_def)
  have fits: "fits (snd (last ps))"
    using rep unsigned_less [where 'a = nat, of "sg_cur_count ?s"] by (simp add: seg_rep_def fits_def)
  have chain: "chain_from d genesis (all_entries ps)"
    using seg_local_log.log_inv_chain [OF assms(2)] seg_rep_entries [OF rep] by simp
  have "segmented d None ps (sg_dir ?s)"
    using parts fits chain by (simp add: segmented_def base_of_def)
  then have "openable d None ps (sg_dir ?s)" by (simp add: openable_def)
  moreover obtain s where "seg_open d (Some (sg_dir ?s)) m v = Inr s"
    using seg_open_pieces [OF parts(1-4) fits parts(5), of v] assms(3) by auto
  ultimately obtain w' where "seg_log_at d (Some (sg_dir ?s)) m v v' = Some (running w')"
      "seg_local_log.log_inv d m genesis w'" "seg_entries d (wr_store w') = all_entries ps"
    using seg_log_at_opens [OF assms(1) _ filled assms(3) _ assms(4)] by metis
  with that seg_rep_entries [OF rep] show thesis by (simp add: left_dir_def)
qed

lemma left_dir_read:
  "seg_local_log.log_inv d m b w \<Longrightarrow>
   read_all_segmented d (left_dir (running w)) = Inr (seg_entries d (wr_store w))"
  using seg_inv_read [of d "wr_store w"] by (auto simp: left_dir_def seg_local_log.log_inv_def)

text \<open>The first \<open>n\<close> events in an empty directory.\<close>

lemma seg_events:
  assumes "engine_crates d" and "\<And>i. smooth (v i)" and "m \<noteq> 0" and "n < 2 ^ 64"
  obtains w w' es where "seg_log_at d (Some []) m (v 0) (v 1) = Some (running w)"
    and "record_events d (seg_ops d) (local_ops d) ''a'' n (\<lambda>i. v (2 + i)) (running w) =
      Some (running w')"
    and "seg_local_log.log_inv d m genesis w'" and "only_segments (wr_store w')"
    and "seg_entries d (wr_store w') = es" and "length es = n" and "chain_from d genesis es"
proof -
  obtain w where w: "seg_log_at d (Some []) m (v 0) (v 1) = Some (running w)"
      "seg_local_log.log_inv d m genesis w" "seg_entries d (wr_store w) = []"
      "only_segments (wr_store w)"
    using seg_log_new [OF assms(1,2,3,2)] .
  have rec: "record_ok d (event ''a'' i)" for i
    using assms(1) event_plain by (simp add: record_ok_def)
  have room: "room genesis (seg_entries d (wr_store w)) n"
    using assms(4) w(3) by (simp add: room_def genesis_def)
  obtain w' new where w': "record_events d (seg_ops d) (local_ops d) ''a'' n (\<lambda>i. v (2 + i))
        (running w) = Some (running w')"
      "seg_local_log.log_inv d m genesis w'"
      "seg_entries d (wr_store w') = seg_entries d (wr_store w) @ new"
      "map e_actor new = replicate n ''a''"
    using seg_local_log.record_events_add [OF w(2) rec room smooth_faults [OF assms(2)]] .
  have "length new = n" using w'(4) by (metis length_map length_replicate)
  with that [OF w(1) w'(1,2) record_events_only [OF w(4) w'(1)]] w'(3) w(3)
    seg_local_log.log_inv_chain [OF w'(2)] show thesis by simp
qed

lemma seg_record:
  assumes "engine_crates d" and "seg_local_log.log_inv d m genesis w" and "plain_record r"
    and "r_pii r = None" and "smooth v" and "length (seg_entries d (wr_store w)) + 1 < 2 ^ 64"
  shows "\<exists>w'. record_call d (seg_ops d) (local_ops d) r v (running w) =
    Some (receipt_of (made_entry d r None (now_ms (env_clock v)) (wr_seq w + 1) (wr_prev_hash w)),
      running w')"
proof -
  have rec: "record_ok d r" using assms(1,3) by (simp add: record_ok_def)
  have room: "room genesis (seg_entries d (wr_store w)) 1"
    using assms(6) by (simp add: room_def genesis_def)
  from seg_local_log.record_call_adds [OF assms(2) rec room smooth_faults [OF assms(5)]
      seg_local_log.seal_no_pii [OF assms(4)] refl] show ?thesis by metis
qed

lemma rotates_passes:
  assumes "engine_crates d" and "\<And>i. smooth (v i)"
  shows "segmented_store_rotates_and_resumes d v = Some ()"
proof -
  obtain w w' es where w: "seg_log_at d (Some []) 3 (v 0) (v 1) = Some (running w)"
      "record_events d (seg_ops d) (local_ops d) ''a'' 7 (\<lambda>i. v (2 + i)) (running w) =
        Some (running w')"
      "seg_local_log.log_inv d 3 genesis w'" "only_segments (wr_store w')"
      "seg_entries d (wr_store w') = es" "length es = 7" "chain_from d genesis es"
    by (rule seg_events [where v = v and m = 3 and n = 7, OF assms]) simp_all
  have "seg_filled d 3 (wr_store w')" using w(3) by (simp add: seg_local_log.log_inv_def)
  from seg_filled_sizes [OF this] w(5,6) obtain full rest where
    sizes: "length (list_segments (Some (sg_dir (wr_store w')))) = Suc full" "rest \<le> 3"
      "full * 3 + rest = 7"
    by (auto dest: arg_cong [where f = length])
  then have "full = 2" by presburger
  then have files: "length (filter (\<lambda>(n, _). prefix ''seg-'' n) (sg_dir (wr_store w'))) = 3"
    using sizes(1) only_segments_count [OF w(4)] by simp
  obtain w2 where w2: "seg_log_at d (left_dir (running w')) 3 (v 9) (v 10) = Some (running w2)"
      "seg_local_log.log_inv d 3 genesis w2" "seg_entries d (wr_store w2) = es"
    using seg_log_reopen [OF assms(1) w(3) assms(2,2)] w(5) by metis
  have "plain_record (record_new ''evt'' Success ''a'')"
    by (intro plain_word) (simp_all add: utf8_ascii_string)
  from seg_record [OF assms(1) w2(2) this plain_event_pii assms(2) [of 11]] w2(3) w(6) obtain w3 where
    w3: "record_call d (seg_ops d) (local_ops d) (record_new ''evt'' Success ''a'') (v 11) (running w2) =
      Some (receipt_of (made_entry d (record_new ''evt'' Success ''a'') None
        (now_ms (env_clock (v 11))) (wr_seq w2 + 1) (wr_prev_hash w2)), running w3)"
    by auto
  have "wr_seq w2 = 7"
    using w2(2,3) w(6) chain_from_head [OF w(7)]
    by (auto simp: seg_local_log.log_inv_def genesis_def dest: arg_cong [where f = fst])
  with w(1,2,5,6,7) files w2(1) w3 left_dir_read [OF w(3)] show ?thesis
    by (simp add: segmented_store_rotates_and_resumes_def Let_def left_dir_def receipt_of_def)
qed

text \<open>A system that removes what it is asked to lets pruning finish.\<close>

lemma prune_loop_finishes:
  "(\<And>p. \<not> rm p) \<Longrightarrow> \<exists>x files'. prune_loop rm b segs files flag = (Inr x, files')"
  by (induction rm b segs files flag rule: prune_loop.induct) auto

lemma prune_before_finishes:
  assumes "\<And>p. \<not> rm p"
  shows "\<exists>a dir'. prune_before d (Some files) b rm = (Inr a, dir')"
proof -
  obtain x files' where "prune_loop rm b (list_segments (Some files)) files False = (Inr x, files')"
    using prune_loop_finishes [of rm, OF assms] by blast
  then show ?thesis by (cases x) (auto simp: prune_before_def Let_def)
qed

text \<open>Two entries per segment: the pieces before the last are full.\<close>

lemma filled_append: "filled m (ps @ qs) \<Longrightarrow> qs \<noteq> [] \<Longrightarrow> \<forall>p \<in> set ps. length (snd p) = m"
  by (auto simp: filled_def butlast_append)

lemma filled_length: "\<forall>p \<in> set ps. length (snd p) = m \<Longrightarrow> length (all_entries ps) = length ps * m"
  by (induction ps) auto

lemma chain_seq:
  assumes "chain_from d genesis es" and "i < length es" and "length es < 2 ^ 64"
  shows "unat (e_seq (es ! i)) = i + 1"
  using chain_from_unat_seq [OF assms(1) _ assms(2)] assms(3) by (simp add: room_def genesis_def)

lemma unat_eq_8: "unat (w :: u64) = 8 \<longleftrightarrow> w = 8"
  by (auto simp: word_unat_eq_iff)

text \<open>
  What pruning before sequence number 5 does to eight entries in segments of two: it deletes some
  leading segments, and the next entry is numbered 5 at most.
\<close>

lemma pruned_eight:
  assumes "pieces_ok (qs @ rs)" and "filled 2 (qs @ rs)" and "rs \<noteq> []"
    and "chain_from d genesis (all_entries (qs @ rs))" and "length (all_entries (qs @ rs)) = 8"
    and "\<And>e. e \<in> set (all_entries qs) \<Longrightarrow> e_seq e < 5" and "tl rs = [] \<or> 5 < fst (hd (tl rs))"
  obtains a e es where "prune_anchor qs rs = Some a" and "all_entries rs = e # es"
    and "base_of (Some a) = head_of genesis (all_entries qs)" and "e_seq e \<le> 5"
proof -
  let ?k = "length (all_entries qs)"
  have seq: "unat (e_seq (all_entries (qs @ rs) ! i)) = i + 1" if "i < 8" for i
    using chain_seq [OF assms(4), of i] assms(5) that by simp
  have k: "?k = length qs * 2" using filled_length filled_append [OF assms(2,3)] by blast
  have "?k < 5"
  proof (rule ccontr)
    assume "\<not> ?k < 5"
    then have "all_entries qs ! 4 \<in> set (all_entries qs)" by simp
    with assms(6) have "unat (e_seq (all_entries qs ! 4)) < 5"
      by (fastforce simp: word_less_nat_alt)
    moreover have "all_entries (qs @ rs) ! 4 = all_entries qs ! 4"
      using \<open>\<not> ?k < 5\<close> by (simp add: nth_append)
    ultimately show False using seq [of 4] by simp
  qed
  have "qs \<noteq> []"
  proof
    assume "qs = []"
    obtain f fs ps where rs: "rs = (f, fs) # ps" using assms(3) by (metis list.exhaust surj_pair)
    have "ps \<noteq> []" using assms(2,5) \<open>qs = []\<close> rs by (auto simp: filled_def)
    then obtain g gs ps' where ps: "ps = (g, gs) # ps'" by (metis list.exhaust surj_pair)
    then have fs: "length fs = 2" using assms(2) \<open>qs = []\<close> rs by (simp add: filled_def)
    then have "gs \<noteq> []" using assms(1,5) \<open>qs = []\<close> rs ps by (cases ps') auto
    then obtain e gs' where gs: "gs = e # gs'" by (cases gs) auto
    have "all_entries (qs @ rs) ! 2 = e" using \<open>qs = []\<close> rs ps fs gs by (simp add: nth_append)
    then have "unat (e_seq e) = 3" using seq [of 2] by simp
    moreover have "g \<le> e_seq e" using assms(1) \<open>qs = []\<close> rs ps gs by simp
    moreover have "5 < g" using assms(7) rs ps by simp
    ultimately show False by (simp add: word_less_nat_alt word_le_nat_alt)
  qed
  then have "0 < ?k" using k by simp
  obtain g gs rs' where rs: "rs = (g, gs) # rs'" using assms(3) by (metis list.exhaust surj_pair)
  have "gs \<noteq> []"
    using pieces_ok_append [OF assms(1)] assms(5) \<open>?k < 5\<close> rs by (cases rs') auto
  then obtain e gs' where gs: "gs = e # gs'" by (cases gs) auto
  have "all_entries (qs @ rs) ! ?k = e" using rs gs by (simp add: nth_append)
  then have e: "unat (e_seq e) = ?k + 1" using seq [of ?k] \<open>?k < 5\<close> by simp
  have "e_seq e = fst (head_of genesis (all_entries qs)) + 1"
      "e_prev_hash e = snd (head_of genesis (all_entries qs))"
    using assms(4) rs gs by simp_all
  moreover have "1 < e_seq e" "e_seq e \<le> 5"
    using e \<open>0 < ?k\<close> \<open>?k < 5\<close> by (simp_all add: word_less_nat_alt word_le_nat_alt)
  ultimately show thesis
    using that [of "\<lparr>a_seq = e_seq e - 1, a_hash = e_prev_hash e\<rparr>" e "gs' @ all_entries rs'"]
      \<open>qs \<noteq> []\<close> rs gs
    by (simp add: prune_anchor_def base_of_def)
qed

lemma prune_passes:
  assumes "engine_crates d" and "\<And>i. smooth (v i)" and "\<And>p. \<not> rm p"
  shows "prune_then_verify_from_anchor d v rm = Some ()"
proof -
  obtain w w' es where w: "seg_log_at d (Some []) 2 (v 0) (v 1) = Some (running w)"
      "record_events d (seg_ops d) (local_ops d) ''a'' 8 (\<lambda>i. v (2 + i)) (running w) =
        Some (running w')"
      "seg_local_log.log_inv d 2 genesis w'" "seg_entries d (wr_store w') = es" "length es = 8"
      "chain_from d genesis es"
    by (rule seg_events [where v = v and m = 2 and n = 8, OF assms(1,2)]) simp_all
  let ?files = "sg_dir (wr_store w')"
  from w(3) obtain ps where rep: "seg_rep d (wr_store w') ps" and filled: "filled 2 ps"
    by (auto simp: seg_local_log.log_inv_def seg_filled_def)
  have ps: "holds d ?files ps" "pieces_ok ps" "ps \<noteq> []" using rep by (simp_all add: seg_rep_def)
  have all: "all_entries ps = es" using seg_rep_entries [OF rep] w(4) by simp
  obtain a dir' where prune: "prune_before d (Some ?files) 5 rm = (Inr a, dir')"
    using prune_before_finishes [of rm, OF assms(3)] by blast
  obtain qs rs files' where parts: "dir' = Some files'" "ps = qs @ rs" "rs \<noteq> []" "holds d files' rs"
      "\<And>e. e \<in> set (all_entries qs) \<Longrightarrow> e_seq e < 5"
      "a = prune_anchor qs rs" "tl rs = [] \<or> 5 < fst (hd (tl rs))"
    by (rule prune_before_pieces [OF ps prune]) simp
  have split: "pieces_ok (qs @ rs)" "filled 2 (qs @ rs)" "chain_from d genesis (all_entries (qs @ rs))"
      "length (all_entries (qs @ rs)) = 8"
    using ps(2) filled w(5,6) all parts(2) by simp_all
  obtain an e fs where an: "prune_anchor qs rs = Some an" "all_entries rs = e # fs"
      "base_of (Some an) = head_of genesis (all_entries qs)" "e_seq e \<le> 5"
    using pruned_eight [OF split(1,2) parts(3) split(3,4) parts(5,7)] .
  have "last es = es ! 7" using w(5) last_conv_nth [of es] by fastforce
  then have "unat (e_seq (last es)) = 8" using chain_seq [OF w(6), of 7] w(5) by simp
  moreover have "last es = last (e # fs)" using all parts(2) an(2) by (metis all_entries_simps(3) last_append list.distinct(1))
  ultimately have "e_seq (last (e # fs)) = 8" by (simp add: unat_eq_8)
  moreover have "is_valid (verify_entries_from d (Some an) (e # fs))"
    using split(3) an(2,3) by (simp del: chain_from.simps)
  moreover have "read_all_segmented d (Some files') = Inr (e # fs)"
    using holds_read_all [OF parts(4)] pieces_ok_append [OF split(1)] an(2) by simp
  ultimately show ?thesis
    using w(1,2) prune parts(1,6) an
    by (simp add: prune_then_verify_from_anchor_def left_dir_def Let_def item_def last_opt_def
        del: verify_valid_iff)
qed

section \<open>Encrypted PII\<close>

text \<open>The cipher refuses no short text.\<close>

definition seals :: "crates \<Rightarrow> bool" where
  "seals d \<longleftrightarrow>
     (\<forall>k n m. length k = 32 \<and> length n = 24 \<and> length m < 2 ^ 32 \<longrightarrow> xc_encrypt d k n m \<noteq> None)"

lemma sealsD:
  assumes "seals d" and "length k = 32" and "length n = 24" and "length m < 2 ^ 32"
  obtains c where "xc_encrypt d k n m = Some c"
  using assms unfolding seals_def by blast

lemma wrap_short:
  assumes "seals d" and "length key = 32" and "length dek = 32" and "env_rng v = Some a # xs"
  obtains c where "wrap_with_key d key dek v = (Inr (fill 24 a @ c), v\<lparr>env_rng := xs\<rparr>)"
    and "xc_encrypt d key (fill 24 a) dek = Some c"
proof -
  obtain c where "xc_encrypt d key (fill 24 a) dek = Some c"
    using sealsD [OF assms(1,2), of "fill 24 a" dek] assms(3) by auto
  with that assms(4) show thesis by (simp add: wrap_with_key_def random_bytes_Some)
qed

text \<open>Sealing succeeds as soon as wrapping the data key does.\<close>

lemma seal_short:
  assumes "seals d" and "length (sj_to_vec d p) < 2 ^ 32" and "env_rng v = Some a # Some b # xs"
    and "wrap_dek ops k i (fill 32 a) (v\<lparr>env_rng := xs\<rparr>) = (Inr w, k', v')"
  obtains s where "seal d ops k i p v = (Inr s, k', v')" and "wrapped_dek s = b64_encode d w"
proof -
  obtain c where "xc_encrypt d (fill 32 a) (fill 24 b) (sj_to_vec d p) = Some c"
    using sealsD [OF assms(1), of "fill 32 a" "fill 24 b"] assms(2) by auto
  with that assms(3,4) show thesis by (simp add: seal_def random_bytes_Some)
qed

lemma seal_local:
  assumes "seals d" and "length (sj_to_vec d p) < 2 ^ 32" and "length (master key) = 32"
    and "env_rng v = Some a # Some b # Some c # xs"
  obtains s ct v' where "seal d (local_ops d) key i p v = (Inr s, key, v')"
    and "wrapped_dek s = b64_encode d (fill 24 c @ ct)"
    and "xc_encrypt d (master key) (fill 24 c) (fill 32 a) = Some ct"
proof -
  obtain ct where ct: "wrap_with_key d (master key) (fill 32 a) (v\<lparr>env_rng := Some c # xs\<rparr>) =
      (Inr (fill 24 c @ ct), v\<lparr>env_rng := xs\<rparr>)"
      "xc_encrypt d (master key) (fill 24 c) (fill 32 a) = Some ct"
    using wrap_short [OF assms(1,3), of "fill 32 a" "v\<lparr>env_rng := Some c # xs\<rparr>" c xs] by auto
  then have "wrap_dek (local_ops d) key i (fill 32 a) (v\<lparr>env_rng := Some c # xs\<rparr>) =
      (Inr (fill 24 c @ ct), key, v\<lparr>env_rng := xs\<rparr>)"
    by (simp add: local_ops_def)
  from seal_short [OF assms(1,2,4) this] that ct(2) show thesis by blast
qed

lemma small_object:
  "utf8_string k \<Longrightarrow> utf8_string x \<Longrightarrow>
   plain_json (JObj [(k, JStr x)]) \<and> is_value (JObj [(k, JStr x)]) \<and>
   json_depth (JObj [(k, JStr x)]) \<le> 127"
  by (simp add: is_value_def to_map_def)

lemma ssn_ok: "serde_ok d \<Longrightarrow> json_ok d ssn \<and> is_value ssn"
  using small_object [of "''ssn''" "''123-45-6789''"]
  by (simp add: ssn_def serde_ok_def utf8_ascii_string)

lemma seal_smooth:
  assumes "seals d" and "length (sj_to_vec d p) < 2 ^ 32" and "length (master key) = 32" and "smooth v"
  shows "\<exists>s v'. seal d (local_ops d) key i p v = (Inr s, key, v')"
proof -
  obtain a b c e xs where "env_rng v = Some a # Some b # Some c # Some e # xs"
    using assms(4) by (auto simp: smooth_def)
  from seal_local [OF assms(1-3) this] show ?thesis by metis
qed

text \<open>The first record of a log in memory, with PII.\<close>

lemma memory_pii_record:
  assumes "memory_log.log_inv d genesis w" and "ms_entries (wr_store w) = []"
    and "length (master (wr_provider w)) = 32" and "seals d" and "smooth v" and "r_pii r = Some p"
    and "length (sj_to_vec d p) < 2 ^ 32"
  shows "\<exists>rc w'. record_call d memory_ops (local_ops d) r v (running w) = Some (rc, running w') \<and>
    rc_seq rc = 1"
proof -
  obtain s v' where "seal d (local_ops d) (wr_provider w) (r_key_id r) p v = (Inr s, wr_provider w, v')"
    using seal_smooth [OF assms(4,7,3,5)] by blast
  then have seal: "seal_record d (local_ops d) (wr_provider w) r v = (Inr (Some s), wr_provider w)"
    using assms(6) by (simp add: seal_record_def)
  have room: "room genesis (ms_entries (wr_store w)) 1" using assms(2) by (simp add: room_def genesis_def)
  let ?e = "made_entry d r (Some s) (now_ms (env_clock v)) (wr_seq w + 1) (wr_prev_hash w)"
  obtain w' where "record_call d memory_ops (local_ops d) r v (running w) = Some (receipt_of ?e, running w')"
    using memory_log.record_call_adds [OF assms(1) TrueI room smooth_faults [OF assms(5)] seal refl] .
  then show ?thesis using empty_log_head [OF assms(1,2)] by (simp add: receipt_of_def)
qed

lemma quick_start_passes:
  assumes "aead_ok d" and "seals d" and "\<And>i. smooth (v i)"
    and "length (sj_to_vec d address) < 2 ^ 32"
  shows "quick_start d v = Some ()"
proof -
  obtain key where key: "local_generate (v 0) = Inr key" "length (master key) = 32"
    using smooth_key [OF assms(3)] .
  obtain w where w: "build_log memory_ops memory_new key = Some (running w)"
      "memory_log.log_inv d genesis w" "ms_entries (wr_store w) = []" "wr_provider w = key"
    using memory_log_new [OF assms(1)] .
  let ?r = "record_pii address (record_data (JObj [(''ip'', JStr ''203.0.113.7'')])
    (record_instruction_id ''req-abc'' (record_new ''user.login'' Success ''user-42'')))"
  have "r_pii ?r = Some address" by (simp add: record_pii_def)
  from memory_pii_record [OF w(2,3) _ assms(2) assms(3) [of 1] this assms(4)] key w show ?thesis
    by (auto simp: quick_start_def)
qed

lemma pii_passes:
  assumes "aead_ok d" and "base64_ok d" and "serde_ok d" and "seals d" and "\<And>i. smooth (v i)"
    and "length (sj_to_vec d ssn) < 2 ^ 32" and "\<And>bs. CHR ''-'' \<notin> set (b64_encode d bs)"
  shows "pii_is_encrypted_then_decryptable d v = Some ()"
proof -
  obtain key where key: "local_generate (v 0) = Inr key" "length (master key) = 32"
    using smooth_key [OF assms(5)] .
  obtain w where w: "build_log memory_ops memory_new key = Some (running w)"
      "memory_log.log_inv d genesis w" "ms_entries (wr_store w) = []" "wr_provider w = key"
    using memory_log_new [OF assms(1)] .
  let ?r = "record_pii ssn (record_data (JObj [(''role'', JStr ''ops'')])
    (record_new ''user.created'' Success ''admin''))"
  have r: "r_pii ?r = Some ssn" by (simp add: record_pii_def)
  have "length (master (wr_provider w)) = 32" using key(2) w(4) by simp
  from memory_pii_record [OF w(2,3) this assms(4) assms(5) [of 1] r assms(6)] obtain rc w' where
    rc: "record_call d memory_ops (local_ops d) ?r (v 1) (running w) = Some (rc, running w')"
    by blast
  obtain s v' where s: "seal d (local_ops d) key ''master'' ssn (v 2) = (Inr s, key, v')"
    using seal_smooth [OF assms(4,6) key(2) assms(5)] by blast
  have "cipher_ok d key" using assms(1) by (simp add: cipher_ok_def)
  then have "open_pii d (local_ops d) key s = Ret (Inr ssn)"
    using local_kp.seal_open [OF _ assms(1,2) _ _ s] ssn_ok [OF assms(3)] by blast
  moreover have "CHR ''-'' \<notin> set (ciphertext s)"
    using s assms(7) by (auto simp: seal_def Let_def split: prod.splits sum.splits option.splits)
  then have "\<not> sublist ''123-45-6789'' (ciphertext s)" using set_mono_sublist by fastforce
  ultimately show ?thesis
    using key(1) w(1) rc s by (simp add: pii_is_encrypted_then_decryptable_def)
qed

text \<open>
  The wrong key: the ciphertext of the data key under the first master key, with the nonce drawn, is
  not one that the second master key accepts.
\<close>

lemma wrong_key_passes:
  assumes "base64_ok d" and "seals d" and "\<And>i. smooth (v i)"
    and "length (sj_to_vec d (JObj [(''x'', JNum (PosInt 1))])) < 2 ^ 32"
    and "\<And>k1 k2 a b c xs ct. local_generate (v 0) = Inr k1 \<Longrightarrow> local_generate (v 1) = Inr k2 \<Longrightarrow>
      env_rng (v 2) = Some a # Some b # Some c # xs \<Longrightarrow>
      xc_encrypt d (master k1) (fill 24 c) (fill 32 a) = Some ct \<Longrightarrow>
      xc_decrypt d (master k2) (fill 24 c) ct = None"
  shows "wrong_key_cannot_decrypt d v = Some ()"
proof -
  obtain k1 where k1: "local_generate (v 0) = Inr k1" "length (master k1) = 32"
    using smooth_key [OF assms(3)] .
  obtain k2 where k2: "local_generate (v 1) = Inr k2" "length (master k2) = 32"
    using smooth_key [OF assms(3)] .
  obtain a b c e xs where rng: "env_rng (v 2) = Some a # Some b # Some c # Some e # xs"
    using assms(3) [of 2] by (auto simp: smooth_def)
  obtain s ct v' where s: "seal d (local_ops d) k1 ''master'' (JObj [(''x'', JNum (PosInt 1))]) (v 2) =
        (Inr s, k1, v')" "wrapped_dek s = b64_encode d (fill 24 c @ ct)"
      "xc_encrypt d (master k1) (fill 24 c) (fill 32 a) = Some ct"
    using seal_local [OF assms(2,4) k1(2) rng] .
  have "xc_decrypt d (master k2) (fill 24 c) ct = None" using assms(5) k1(1) k2(1) rng s(3) by blast
  then have "unwrap_dek (local_ops d) k2 (key_id s) (fill 24 c @ ct) =
      Inl (Crypto ''unwrap dek (wrong key or tampered?): '')"
    by (simp add: local_ops_def unwrap_with_key_def)
  moreover have "\<exists>n ct. pii_nonce s = b64_encode d n \<and> ciphertext s = b64_encode d ct"
    using s(1) by (auto simp: seal_def Let_def split: prod.splits sum.splits option.splits)
  ultimately have "\<exists>er. open_pii d (local_ops d) k2 s = Ret (Inl er)"
    using s(2) by (auto simp: open_pii_def base64_decode_encode [OF assms(1)])
  with k1(1) k2(1) s(1) show ?thesis by (auto simp: wrong_key_cannot_decrypt_def)
qed

section \<open>Crypto-shredding\<close>

lemma keyring_key_length:
  "keyring_inv d k \<Longrightarrow> keyring_get k i = Inr key \<Longrightarrow> length key = 32"
  by (auto simp: keyring_inv_def keyring_get_Inr disk_key_def read_key_file_def result_ok_def
      split: option.splits sum.splits if_splits)

text \<open>An open keyring that mints keys wraps under any valid \<open>key_id\<close>.\<close>

definition minting :: "crates \<Rightarrow> keyring \<Rightarrow> bool" where
  "minting d k \<longleftrightarrow> keyring_inv d k \<and> kr_auto_create k"

lemma ensure_key:
  assumes "minting d k" and "valid_key_id i" and "env_rng v = Some a # Some b # xs"
    and "env_key_fault v = None"
  obtains r k' v' key c ys where "keyring_ensure d k i v = (Inr r, k', v')" and "minting d k'"
    and "keyring_get k' i = Inr key" and "env_rng v' = Some c # ys"
proof (cases "map_of (kr_cache k) i")
  case (Some key)
  with assms that [of False k v key a "Some b # xs"] show thesis
    by (simp add: keyring_ensure_def minting_def keyring_inv_def keyring_get_def)
next
  case None
  let ?k = "k\<lparr>kr_dir := AList.update (key_path i) (as_bytes (b64_encode d (fill 32 a))) (kr_dir k),
    kr_cache := AList.update i (fill 32 a) (kr_cache k)\<rparr>"
  have en: "keyring_ensure d k i v = (Inr True, ?k, v\<lparr>env_rng := Some b # xs\<rparr>)"
    using assms None
    by (simp add: keyring_ensure_def random_bytes_Some minting_def keyring_inv_def Let_def)
  have "keyring_inv d ?k" using keyring_ensure_inv [OF _ en assms(4)] assms(1) by (simp add: minting_def)
  then have "minting d ?k" using assms(1) by (simp add: minting_def)
  moreover have "keyring_get ?k i = Inr (fill 32 a)"
    using assms(1) by (simp add: keyring_get_Inr minting_def keyring_inv_def update_conv')
  ultimately show thesis using that [OF en] by simp
qed

lemma seal_minting:
  assumes "minting d k" and "seals d" and "valid_key_id i" and "smooth v"
    and "length (sj_to_vec d p) < 2 ^ 32"
  obtains s k' v' where "seal d (keyring_ops d) k i p v = (Inr s, k', v')" and "minting d k'"
    and "\<exists>key. keyring_get k' i = Inr key"
proof -
  obtain a b c e xs where rng: "env_rng v = Some a # Some b # Some c # Some e # xs"
      and quiet: "env_key_fault v = None"
    using assms(4) by (auto simp: smooth_def)
  let ?v = "v\<lparr>env_rng := Some c # Some e # xs\<rparr>"
  obtain r k' v' key f ys where en: "keyring_ensure d k i ?v = (Inr r, k', v')" "minting d k'"
      "keyring_get k' i = Inr key" "env_rng v' = Some f # ys"
    by (rule ensure_key [OF assms(1,3), of ?v c e xs]) (use quiet in simp_all)
  have "length key = 32" using keyring_key_length en(2,3) by (auto simp: minting_def)
  then obtain ct where "wrap_with_key d key (fill 32 a) v' = (Inr (fill 24 f @ ct), v'\<lparr>env_rng := ys\<rparr>)"
    using wrap_short [OF assms(2) _ _ en(4), of key "fill 32 a"] by auto
  then have "wrap_dek (keyring_ops d) k i (fill 32 a) ?v =
      (Inr (fill 24 f @ ct), k', v'\<lparr>env_rng := ys\<rparr>)"
    using assms(1) en(1,3) by (simp add: keyring_ops_def keyring_wrap_def minting_def)
  from seal_short [OF assms(2,5) rng this] that en(2,3) show thesis by blast
qed

definition user_record :: "string \<Rightarrow> string \<Rightarrow> log_record" where
  "user_record kid who =
     record_pii (email who) (record_key_id kid (record_new ''user.created'' Success ''admin''))"

lemma user_record_fields [simp]:
  "r_pii (user_record kid who) = Some (email who)" "r_key_id (user_record kid who) = kid"
  by (simp_all add: user_record_def record_pii_def record_key_id_def)

lemma user_record_plain: "utf8_string kid \<Longrightarrow> plain_record (user_record kid who)"
  by (simp add: plain_record_def user_record_def record_pii_def record_key_id_def record_new_def
      plain_data_def plain_opt_def is_value_def utf8_ascii_string)

lemma user_record_call:
  assumes "engine_crates d" and "seals d" and "file_log.log_inv d genesis w"
    and "minting d (wr_provider w)" and "smooth v" and "valid_key_id kid" and "utf8_string kid"
    and "length (sj_to_vec d (email who)) < 2 ^ 32"
    and "length (file_entries d (wr_store w)) + 1 < 2 ^ 64"
  obtains rc w' e s v' where
      "record_call d (file_ops d) (keyring_ops d) (user_record kid who) v (running w) =
        Some (rc, running w')"
    and "file_log.log_inv d genesis w'" and "minting d (wr_provider w')"
    and "file_entries d (wr_store w') = file_entries d (wr_store w) @ [e]"
    and "p_pii (e_payload e) = Some s" and "\<exists>key. keyring_get (wr_provider w') kid = Inr key"
    and "seal d (keyring_ops d) (wr_provider w) kid (email who) v = (Inr s, wr_provider w', v')"
proof -
  obtain s k' v' where s: "seal d (keyring_ops d) (wr_provider w) kid (email who) v = (Inr s, k', v')"
      "minting d k'" "\<exists>key. keyring_get k' kid = Inr key"
    using seal_minting [OF assms(4,2,6,5,8)] .
  then have seal: "seal_record d (keyring_ops d) (wr_provider w) (user_record kid who) v =
      (Inr (Some s), k')"
    by (simp add: seal_record_def)
  have rec: "record_ok d (user_record kid who)"
    using assms(1,7) user_record_plain by (simp add: record_ok_def)
  have room: "room genesis (file_entries d (wr_store w)) 1"
    using assms(9) by (simp add: room_def genesis_def)
  let ?e = "made_entry d (user_record kid who) (Some s) (now_ms (env_clock v)) (wr_seq w + 1)
    (wr_prev_hash w)"
  obtain w' where "record_call d (file_ops d) (keyring_ops d) (user_record kid who) v (running w) =
        Some (receipt_of ?e, running w')"
      "file_log.log_inv d genesis w'"
      "file_entries d (wr_store w') = file_entries d (wr_store w) @ [?e]" "wr_provider w' = k'"
    using file_log.record_call_adds [OF assms(3) rec room smooth_faults [OF assms(5)] seal refl] .
  with s that show thesis by force
qed

lemma shred_passes:
  assumes "engine_crates d" and "seals d" and "\<And>i. smooth (v i)"
    and "\<And>who. who \<in> {''alice'', ''bob''} \<Longrightarrow> length (sj_to_vec d (email who)) < 2 ^ 32"
  shows "keyring_crypto_shred_makes_pii_unrecoverable_but_chain_intact d v False = Some ()"
proof -
  have crates: "aead_ok d" "base64_ok d" "serde_ok d" using assms(1) by (simp_all add: engine_crates_def)
  let ?a = "''subject-alice''" and ?b = "''subject-bob''"
  have ids: "valid_key_id ?a" "valid_key_id ?b" "utf8_string ?a" "utf8_string ?b"
    by (simp_all add: valid_key_id_def is_ascii_alphanumeric_def utf8_ascii_string)
  let ?k0 = "keyring_open d (Some []) True"
  have k0: "keyring_open_at d (Some []) True (v 0) = Inr ?k0" "minting d ?k0"
    using assms(3) keyring_open_inv [OF crates(2), of "[]" True]
    by (simp_all add: keyring_open_at_def minting_def) (simp add: keyring_open_def)
  let ?s = "\<lparr>fs_file = [], fs_tail = None\<rparr>"
  have st: "file_open d None (v 1) = Inr ?s" "file_inv d ?s" "file_entries d ?s = []"
    using file_open_new [of "v 1" d] assms(3) by simp_all
  from file_log.build_log_new [OF st(2) engine_cipher [OF assms(1)] st(3) utf8_genesis, of ?k0]
  obtain w where w: "build_log (file_ops d) ?s ?k0 = Some (running w)" "file_log.log_inv d genesis w"
      "wr_store w = ?s" "wr_provider w = ?k0" .
  have m: "minting d (wr_provider w)" "length (file_entries d (wr_store w)) + 1 < 2 ^ 64"
    using k0(2) w(3,4) st(3) by simp_all
  have short: "length (sj_to_vec d (email ''alice'')) < 2 ^ 32" "length (sj_to_vec d (email ''bob'')) < 2 ^ 32"
    using assms(4) by simp_all
  obtain rc1 w1 e1 s1 v1 where w1:
      "record_call d (file_ops d) (keyring_ops d) (user_record ?a ''alice'') (v 2) (running w) =
        Some (rc1, running w1)" "file_log.log_inv d genesis w1" "minting d (wr_provider w1)"
      "file_entries d (wr_store w1) = file_entries d (wr_store w) @ [e1]"
      "p_pii (e_payload e1) = Some s1" "\<exists>key. keyring_get (wr_provider w1) ?a = Inr key"
      "seal d (keyring_ops d) (wr_provider w) ?a (email ''alice'') (v 2) = (Inr s1, wr_provider w1, v1)"
    by (rule user_record_call [OF assms(1,2) w(2) m(1) assms(3) ids(1,3) short(1) m(2)])
  then have e1: "file_entries d (wr_store w1) = [e1]" using w(3) st(3) by simp
  then have n: "length (file_entries d (wr_store w1)) + 1 < 2 ^ 64" by simp
  obtain rc2 w2 e2 s2 v2 where w2:
      "record_call d (file_ops d) (keyring_ops d) (user_record ?b ''bob'') (v 3) (running w1) =
        Some (rc2, running w2)" "file_log.log_inv d genesis w2" "minting d (wr_provider w2)"
      "file_entries d (wr_store w2) = file_entries d (wr_store w1) @ [e2]"
      "p_pii (e_payload e2) = Some s2" "\<exists>key. keyring_get (wr_provider w2) ?b = Inr key"
      "seal d (keyring_ops d) (wr_provider w1) ?b (email ''bob'') (v 3) = (Inr s2, wr_provider w2, v2)"
    by (rule user_record_call [OF assms(1,2) w1(2,3) assms(3) ids(2,4) short(2) n])
  let ?k = "wr_provider w2"
  have es: "read_all d (left_file (running w2)) = Inr [e1, e2]" "chain_from d genesis [e1, e2]"
    using file_inv_read [of d "wr_store w2"] file_log.log_inv_chain [OF w2(2)] w2(2,4) e1
    by (simp_all add: left_file_def file_log.log_inv_def)
  have "plain_json (email who)" "is_value (email who)" "json_depth (email who) \<le> 127"
    if "who \<in> {''alice'', ''bob''}" for who
    using small_object [of "''email''" "who @ ''@example.com''"] that
    by (auto simp: email_def utf8_ascii_string)
  note opens = seal_then_open [OF crates this]
  have open1: "key_id s1 = ?a" "open_pii d (keyring_ops d) ?k s1 = Ret (Inr (email ''alice''))"
    using opens [OF _ _ _ w1(7)] keyring_kp.seal_keeps_open [OF engine_cipher [OF assms(1)] w2(7)] by auto
  have open2: "key_id s2 = ?b" "open_pii d (keyring_ops d) ?k s2 = Ret (Inr (email ''bob''))"
    using opens [OF _ _ _ w2(7)] by auto
  have inv: "keyring_inv d ?k" using w2(3) by (simp add: minting_def)
  obtain b k' where shred: "keyring_shred ?k ?a False = (Inr b, k')"
    using shred_calm [OF inv ids(1)] by blast
  note gone = keyring_shred_gone [OF inv shred]
  obtain key where "keyring_get ?k ?a = Inr key"
    using open1 by (cases "keyring_get ?k ?a") (auto simp: open_pii_Inr keyring_ops_def keyring_unwrap_def)
  then have b: "b" using gone(3) by (simp add: keyring_get_Inr)
  have "open_pii d (keyring_ops d) k' s1 =
      Ret (Inl (Key ''no key for key_id (shredded or never created)''))"
    using open_without_key [OF open1(2)] gone(1) open1(1) by simp
  moreover have "open_pii d (keyring_ops d) k' s2 = Ret (Inr (email ''bob''))"
    using open_pii_get [of k' s2 ?k d] gone(4) [of ?b] open2 by simp
  ultimately show ?thesis
    using k0(1) st(1) w(1) w1(1,5) w2(1,5) es open1(2) open2(2) shred b
    by (simp add: keyring_crypto_shred_makes_pii_unrecoverable_but_chain_intact_def
        build_log_def item_def user_record_def [symmetric] Let_def del: chain_from.simps)
qed

section \<open>The live test\<close>

text \<open>
  Against a service whose log is intact and which serves nobody else meanwhile: \<open>st\<close> is its state
  before the append, \<open>st'\<close> after it.
\<close>

lemma live_passes:
  assumes "engine_crates d" and "server_log.log_inv d genesis (as_writer st)"
    and "length (backend_entries d (wr_store (as_writer st))) + 1 < 2 ^ 64" and "env_fault v = NoFault"
    and "env_var ''CHAINLOG_TEST_URL'' = Some url"
    and "env_var ''CHAINLOG_TEST_WRITE'' = Some (as_write_token st)" and "as_write_token st \<noteq> []"
    and "env_var ''CHAINLOG_TEST_READ'' = Some (as_read_token st)" and "as_read_token st \<noteq> []"
    and "base = trim_end_matches (CHR ''/'') url"
    and "reaches (http 0) d base rm_fails v st"
    and "serve d (arriving_append (as_write_token st) live_request) rm_fails v st = (resp, st')"
    and "reaches (http 1) d base rm1 v1 st'" and "reaches (http 2) d base rm2 v2 st'"
  shows "live_roundtrip env_var http = Some ()"
proof -
  let ?q = live_request
  let ?c = "client_build (builder_read_token (as_read_token st)
    (builder_write_token (as_write_token st) (client_builder_new url)))"
  have c: "cl_base ?c = base" "cl_write_token ?c = Some (as_write_token st)"
      "cl_read_token ?c = Some (as_read_token st)"
    using assms(10) by (simp_all add: client_build_def builder_read_token_def builder_write_token_def
        client_builder_new_def)
  let ?r = "sent_record ?q" and ?es = "backend_entries d (wr_store (as_writer st))"
  have q: "is_value (aq_data ?q)" "aq_pii ?q = None" "plain_record ?r" "r_pii ?r = None"
    by (simp_all add: live_request_def append_data_def append_new_def sent_record_def plain_record_def plain_data_def
        plain_opt_def is_value_def to_map_def utf8_ascii_string default_key_id_def)
  have rec: "record_ok d ?r" using assms(1) q(3) by (simp add: record_ok_def)
  have room: "room genesis ?es 1" using assms(3) by (simp add: room_def genesis_def)
  let ?e = "made_entry d ?r None (now_ms (env_clock v)) (wr_seq (as_writer st) + 1)
    (wr_prev_hash (as_writer st))"
  obtain w' where w': "record_call d (backend_ops d) (provider_ops d) ?r v (running (as_writer st)) =
        Some (receipt_of ?e, running w')"
      "server_log.log_inv d genesis w'" "backend_entries d (wr_store w') = ?es @ [?e]"
    using server_log.record_call_adds [OF assms(2) rec room assms(4) server_log.seal_no_pii [OF q(4)] refl] .
  then have p: "process d (backend_ops d) (provider_ops d) ?r v (as_writer st) = (Inr (receipt_of ?e), w')"
    by (auto elim!: record_call_Some)
  have "\<forall>p. aq_pii ?q = Some p \<longrightarrow> is_value p" using q(2) by simp
  note run = append_runs [OF q(1) this c(2) assms(7) _ assms(12) p, of "http 0", unfolded c(1), OF assms(11)]
  have st': "as_writer st' = w'" "as_read_token st' = as_read_token st" using run(1) by simp_all
  let ?es' = "?es @ [?e]"
  have inv: "backend_inv d (wr_store w')" "chain_from d genesis ?es'"
      "(wr_seq w', wr_prev_hash w') = head_of genesis ?es'"
    using w'(2,3) by (simp_all add: server_log.log_inv_def del: chain_from_append)
  have token: "cl_read_token ?c = Some (as_read_token st')" "as_read_token st' \<noteq> []"
    using c(3) st'(2) assms(9) by simp_all
  have "client_head (http 1) ?c = Inr \<lparr>hd_seq = wr_seq w', hd_head_hash = wr_prev_hash w'\<rparr>"
    using reader_head [OF token, of "http 1" d rm1 v1] c(1) assms(13) st'(1) by simp
  moreover have "wr_prev_hash w' = rc_entry_hash (receipt_of ?e)"
    using inv(3) by (simp add: receipt_of_def)
  moreover have "read_log d (app_data st') = Inr ?es'"
    using backend_read [of d st'] inv(1) st'(1) w'(3) by simp
  then have "client_verify (http 2) ?c = Inr (verify_entries d ?es')"
    using client_verify_reports [OF token, of "http 2" d rm2 v2] c(1) assms(14) by simp
  moreover have "unat (e_seq (?es' ! length ?es)) = length ?es + 1"
    using chain_seq [OF inv(2), of "length ?es"] assms(3) by simp
  then have "1 \<le> rc_seq (receipt_of ?e)"
    by (simp add: receipt_of_def word_le_nat_alt)
  moreover have "is_valid (verify_entries d ?es')" using inv(2) by (simp del: chain_from_append)
  ultimately show ?thesis
    using assms(5,6,8) run(3) [OF refl]
    by (simp add: live_roundtrip_def expect_def Let_def del: verify_entries_valid_iff)
qed

section \<open>The suite\<close>

text \<open>
  C31. The unit tests of the core crate that do not bet on cryptographic strength return without a
  panic whatever the random bytes and the clock are: the documentation's example, contiguous numbering, the link to genesis, a
  valid chain of ten, detection of a deleted entry, verification of a pruned tail from an anchor,
  resuming after a reopen, rotation into three segment files, pruning and verifying from the
  returned anchor, encrypting and decrypting PII, and crypto-shredding one of two subjects.
\<close>

theorem unit_tests_pass:
  assumes "engine_crates d" and "seals d" and "\<forall>i. smooth (v i)"
    and "\<forall>bs. CHR ''-'' \<notin> set (b64_encode d bs)"
    and "\<forall>j \<in> {address, ssn, email ''alice'', email ''bob''}. length (sj_to_vec d j) < 2 ^ 32"
  shows "quick_start d v = Some () \<and>
    assigns_contiguous_sequence_numbers d v = Some () \<and>
    first_entry_links_to_genesis d v = Some () \<and>
    valid_chain_verifies d v = Some () \<and>
    deleting_an_entry_is_detected d v = Some () \<and>
    anchored_verify_accepts_a_pruned_tail d v = Some () \<and>
    chain_resumes_across_reopen d v = Some () \<and>
    segmented_store_rotates_and_resumes d v = Some () \<and>
    prune_then_verify_from_anchor d v (\<lambda>_. False) = Some () \<and>
    pii_is_encrypted_then_decryptable d v = Some () \<and>
    keyring_crypto_shred_makes_pii_unrecoverable_but_chain_intact d v False = Some ()"
proof -
  have smooth: "smooth (v i)" for i using assms(3) by blast
  have crates: "aead_ok d" "base64_ok d" "serde_ok d" using assms(1) by (simp_all add: engine_crates_def)
  note engine = assms(1) smooth
  have "quick_start d v = Some ()"
    using assms(5) by (intro quick_start_passes [OF crates(1) assms(2) smooth]) auto
  moreover have "pii_is_encrypted_then_decryptable d v = Some ()"
    using assms(4,5) by (intro pii_passes [OF crates assms(2) smooth]) auto
  moreover have "keyring_crypto_shred_makes_pii_unrecoverable_but_chain_intact d v False = Some ()"
    using assms(5) by (intro shred_passes [OF assms(1,2) smooth]) auto
  ultimately show ?thesis
    using contiguous_passes [where v = v, OF crates(1) smooth]
      first_entry_passes [where v = v, OF crates(1) smooth]
      valid_chain_passes [where v = v, OF engine] deleting_passes [where v = v, OF engine]
      anchored_passes [where v = v, OF engine] chain_resumes_passes [where v = v, OF engine]
      rotates_passes [where v = v, OF engine]
      prune_passes [where v = v and rm = "\<lambda>_. False", OF engine]
    by simp
qed

lemma no_dash_hexs: "CHR ''-'' \<notin> set (hexs bs)"
proof -
  have "nib n \<noteq> CHR ''-''" if "n < 16" for n
    using of_nib [OF that] by (auto split: if_splits)
  then show ?thesis by (induction bs) (auto simp: less_mult_imp_div_less dest: sym)
qed

theorem unit_tests_pass_witness:
  "valid_chain_verifies demo (\<lambda>_. calm) = Some () \<and>
   prune_then_verify_from_anchor demo (\<lambda>_. calm) (\<lambda>_. False) = Some ()"
proof -
  have "seals demo" by (simp add: seals_def demo_def demo_encrypt_def)
  moreover have "\<forall>i :: nat. smooth calm" by (simp add: smooth_def calm_def)
  moreover have "\<forall>bs. CHR ''-'' \<notin> set (b64_encode demo bs)"
    using no_dash_hexs by (simp add: demo_def)
  moreover have "\<forall>j \<in> {address, ssn, email ''alice'', email ''bob''}. length (sj_to_vec demo j) < 2 ^ 32"
    by (simp add: demo_def demo_to_vec_def address_def ssn_def email_def enc_str_def)
  ultimately show ?thesis using unit_tests_pass [OF engine_demo, of "\<lambda>_. calm"] by simp
qed

end
