(* ===== verification/Spec2Isabelle.thy ===== *)
theory Spec2Isabelle
  imports Integrity Anchoring Durability Confidentiality Service Reading Restart Remote Calls Tools Agreement Tests
begin

text \<open>
  \<^bold>\<open>chainlog: a tamper-evident audit log.\<close>

  This library models the Rust workspace under \<open>src/crates\<close>: the core crate (\<open>core\<close>), the HTTP
  service (\<open>server\<close>), its client (\<open>client\<close>) and the offline tool (\<open>cli\<close>), and proves what makes
  them correct.

  \<^bold>\<open>The program.\<close> An application calls \<open>AuditLog::record\<close>; the record goes through a channel to one
  writer thread, which encrypts the PII with a key from a key provider, gives the entry the next
  sequence number and the hash of its predecessor, hashes it, and appends one line of JSON to a
  store, a single file or a directory of segments. Readers read the lines back with handles of
  their own, and the verifier walks them. Signed checkpoints and Merkle anchors pin a head or a
  batch outside the log. The service puts the engine, a reader and the keyring behind HTTP with one
  token per role; the client speaks to it; the tool works on the files.

  \<^bold>\<open>Theories, in the order in which they build on each other.\<close>

  \<^item> \<open>Prelude\<close>: bytes, words, strings, UTF-8, lines of a file, decimal text, big-endian integers;
    the collection \<open>codec\<close> of round trips. \<open>Errors\<close>: \<open>error.rs\<close>; results as sums, panics as
    \<open>exec\<close>.
  \<^item> \<open>Crates\<close>: JSON values, and the third-party crates (\<open>blake3\<close>, \<open>base64\<close>, \<open>chacha20poly1305\<close>,
    \<open>ed25519-dalek\<close>, \<open>serde_json\<close>) as the fields of one parameter \<open>d :: crates\<close>, with the documented
    promises that the code relies on (\<open>blake3_ok\<close>, \<open>hex_ok\<close>, \<open>base64_ok\<close>, \<open>aead_ok\<close>, \<open>ed25519_ok\<close>,
    \<open>serde_ok\<close>, \<open>serde_limit\<close>); the environment of a call (\<open>env\<close>: random bytes, clock, the fault that
    its file operation meets).
  \<^item> \<open>Entry\<close>: \<open>entry.rs\<close> and \<open>util.rs\<close>. \<open>Hash\<close>: \<open>hash.rs\<close>. \<open>Verify\<close>: \<open>verify.rs\<close>, and the
    specification \<open>chain_from\<close> that it decides. \<open>Checkpoint\<close>: \<open>checkpoint.rs\<close>. \<open>Merkle\<close>:
    \<open>merkle.rs\<close>.
  \<^item> \<open>Crypto\<close>: \<open>crypto.rs\<close>, with the locale \<open>key_provider\<close> (a wrapped key can be unwrapped, and
    later wraps keep it so). \<open>Keyring\<close>: \<open>keyring.rs\<close>, the directory of key files and its cache.
  \<^item> \<open>Store\<close>: \<open>store.rs\<close>, with the locale \<open>chain_store\<close> (an abstract list of entries, which an
    append extends or, on a clean failure, leaves), interpreted by the memory and the file store.
    \<open>Segment\<close>: \<open>segment.rs\<close>, interpreted by the same locale, once for the pieces that a
    directory holds and once with how full they are. \<open>Retention\<close>: opening and pruning a segment
    directory in terms of its pieces.
  \<^item> \<open>Log\<close>: \<open>log.rs\<close>. The writer's state, \<open>process\<close>, the command loop, the handle and the builder;
    concurrent callers as the step relation \<open>log_step\<close>. The locale \<open>audit_engine\<close> extends
    \<open>chain_store\<close> and \<open>key_provider\<close> and proves once, for any store and provider, that the writer
    holds a chain and that receipts match entries.
  \<^item> \<open>Wire\<close>: the JSON forms that cross process boundaries, with the locale \<open>wire\<close>. \<open>Server\<close>:
    \<open>server/src/main.rs\<close>, and the engine over either backend and provider. \<open>Client\<close>:
    \<open>client/src/lib.rs\<close>. \<open>Cli\<close>: \<open>cli/src/main.rs\<close>.
  \<^item> \<open>Demo\<close> gives one concrete value of the parameter \<open>d\<close> that has all the promised laws (a toy
    hash, cipher and signature; it serves only to apply the theorems to concrete inputs), and
    \<open>Samples\<close> concrete records and logs.

  \<^bold>\<open>Properties.\<close> They stand in these theories, each with a witness where it has hypotheses.

  \<^item> \<open>Integrity\<close>: the verifier decides the chain; two logs with the same head are the same; edits
    and deletions are reported where they are; what it cannot see (a missing tail, an absent
    against an empty \<open>instruction_id\<close>).
  \<^item> \<open>Anchoring\<close>: checkpoints and Merkle anchors: completeness, size and soundness of proofs,
    injectivity and separation of the signed messages, pinned keys.
  \<^item> \<open>Durability\<close>: every interleaving of callers leaves a log that verifies, over files and over
    segments, which are equivalent; segments are filled up to their bound; every call is answered
    and the writer stops; one step on every branch; round trips through the file; pruning; and the
    faults after which the log is damaged.
  \<^item> \<open>Confidentiality\<close>: sealing and opening, shredding, restarts, the confinement of key files.
  \<^item> \<open>Service\<close>: roles, append-only storage under every request and fault, that the served log
    verifies, and what makes it fail to (a torn line, deep nesting, pruning). \<open>Reading\<close>: PII read back through the service.
    \<open>Restart\<close>: a restart on the files that a run has left loses nothing and changes no answer.
    \<open>Remote\<close> and \<open>Calls\<close>: client and service end to end, every call. \<open>Tools\<close>: the exit status of
    the tool and the flows that its documentation describes. \<open>Agreement\<close>: the tool against the
    service on one log, and a checkpoint carried from the one to the other.
  \<^item> \<open>Scenarios\<close>: the unit tests of \<open>core/src/lib.rs\<close> and the live test of \<open>client/tests/live.rs\<close> as
    programs over the model, in the option monad (\<open>None\<close> is a panic). \<open>Tests\<close>: they pass for every
    value of \<open>d\<close> with the promised laws and every environment that refuses no call; where a test
    expects cryptography to resist (a forged hash, signature or proof, a wrong key), on the
    hypothesis that it does so for the data at hand.

  \<^bold>\<open>Conventions.\<close> A struct is a record whose fields carry a short prefix, an enum a datatype.
  \<open>u64\<close> and \<open>i64\<close> are 64-bit words and wrap, as in a release build; \<open>usize\<close> is \<open>nat\<close>. A \<open>String\<close>
  is a list of characters that stand for its bytes. A \<open>Result\<close> is a sum with the error on the left;
  error texts leave out what they interpolate of foreign errors, of debug output and of paths
  inside errors. State is passed explicitly and returned changed. A file is its bytes, a directory
  the list of its files in enumeration order. The writer's commands run to completion one by one,
  as on its thread; locks appear as the atomicity of the operation that holds them, and as the flag
  of a poisoned lock. File operations fail as \<open>env_fault\<close> says: opening, writing after any number of
  bytes, or syncing; a fault is clean if it leaves no byte behind.

  \<^bold>\<open>Bounds.\<close> No fuel is used: all loops of the program terminate, the Merkle recursion and its
  split-point loop by a measure. Theorems about runs ask that sequence numbers do not exceed 64
  bits (\<open>room\<close>); beyond that \<open>seq + 1\<close> wraps. \<open>plain_record\<close> bounds what survives the JSON text:
  UTF-8 strings, no floats (whose text \<open>serde_json\<close> does not always read back to the same bits), and
  a nesting of at most 125 below the two levels of an entry, since \<open>serde_json\<close> stops at 127.

  \<^bold>\<open>Not modelled.\<close> The bodies of the third-party crates; the runtime around the handlers (\<open>axum\<close>,
  \<open>tokio\<close>, \<open>tracing\<close>, the listener and its shutdown), the HTTP transport of \<open>reqwest\<close> and the command
  line of \<open>clap\<close>: requests arrive decoded, and what \<open>axum\<close> answers by itself is \<open>None\<close>. Races of
  several processes on the same files; errors of listing a directory that exists; clearing keys from
  memory (\<open>zeroize\<close>); timing. The module declarations and re-exports of the crate roots, and the
  examples and documents under \<open>src\<close>.
\<close>

end
